(* ===== verification/Massa_Prelude.thy ===== *)
theory Massa_Prelude
  imports Main "HOL-Library.Word"
begin

text \<open>
  Shared vocabulary of the development: the machine integers of the Rust sources, the
  checked and saturating arithmetic of \<open>core::num\<close>, the \<open>Result\<close> type with the \<open>?\<close>
  operator, \<open>Option\<close> adapters, \<open>Bound\<close> and \<open>RangeBounds::contains\<close>, and
  generic lemmas on them.  Nothing here models a file of the repository: these are the parts
  of the Rust language and of its standard library that the components use.
\<close>

named_theorems word_simps \<open>characterisations of the checked and saturating operations over nat\<close>
named_theorems result_simps \<open>unfolding of the result combinators\<close>
named_theorems massa_defs \<open>definitions that are unfolded by the component proofs\<close>

section \<open>Machine integers\<close>

type_synonym u8 = "8 word"
type_synonym u16 = "16 word"
type_synonym u32 = "32 word"
type_synonym u64 = "64 word"
type_synonym u128 = "128 word"

type_synonym bytes = "u8 list"

abbreviation max_word_of :: "'a::len word" where
  "max_word_of \<equiv> - 1"

abbreviation u8_to_u64 :: "u8 \<Rightarrow> u64" where
  "u8_to_u64 x \<equiv> ucast x"

definition checked_add :: "'a::len word \<Rightarrow> 'a word \<Rightarrow> 'a word option" where
  "checked_add a b = (if unat a + unat b < 2 ^ LENGTH('a) then Some (a + b) else None)"

definition checked_sub :: "'a::len word \<Rightarrow> 'a word \<Rightarrow> 'a word option" where
  "checked_sub a b = (if b \<le> a then Some (a - b) else None)"

definition checked_mul :: "'a::len word \<Rightarrow> 'a word \<Rightarrow> 'a word option" where
  "checked_mul a b = (if unat a * unat b < 2 ^ LENGTH('a) then Some (a * b) else None)"

definition checked_div :: "'a::len word \<Rightarrow> 'a word \<Rightarrow> 'a word option" where
  "checked_div a b = (if b = 0 then None else Some (a div b))"

definition checked_rem :: "'a::len word \<Rightarrow> 'a word \<Rightarrow> 'a word option" where
  "checked_rem a b = (if b = 0 then None else Some (a mod b))"

definition saturating_add :: "'a::len word \<Rightarrow> 'a word \<Rightarrow> 'a word" where
  "saturating_add a b = (if unat a + unat b < 2 ^ LENGTH('a) then a + b else max_word_of)"

definition saturating_sub :: "'a::len word \<Rightarrow> 'a word \<Rightarrow> 'a word" where
  "saturating_sub a b = (if b \<le> a then a - b else 0)"

definition saturating_mul :: "'a::len word \<Rightarrow> 'a word \<Rightarrow> 'a word" where
  "saturating_mul a b = (if unat a * unat b < 2 ^ LENGTH('a) then a * b else max_word_of)"

lemma unat_add_no_overflow:
  fixes a b :: "'a::len word"
  shows "unat a + unat b < 2 ^ LENGTH('a) \<Longrightarrow> unat (a + b) = unat a + unat b"
  by (simp add: unat_word_ariths)

lemma unat_mul_no_overflow:
  fixes a b :: "'a::len word"
  shows "unat a * unat b < 2 ^ LENGTH('a) \<Longrightarrow> unat (a * b) = unat a * unat b"
  by (simp add: unat_word_ariths)

lemma unat_sub_no_underflow:
  fixes a b :: "'a::len word"
  shows "b \<le> a \<Longrightarrow> unat (a - b) = unat a - unat b"
  by (simp add: unat_sub)

lemma word_eq_iff_unat: "(a :: 'a::len word) = b \<longleftrightarrow> unat a = unat b"
  by (simp add: word_unat_eq_iff)

lemma unat_lt_2p: "unat (a :: 'a::len word) < 2 ^ LENGTH('a)"
  by simp

text \<open>Each checked operation is characterised by the natural number it stands for.\<close>

lemma checked_add_eq_Some [word_simps]:
  fixes a b c :: "'a::len word"
  shows "checked_add a b = Some c \<longleftrightarrow> unat a + unat b = unat c"
  using unat_lt_2p [of c]
  by (auto simp: checked_add_def word_eq_iff_unat unat_add_no_overflow)

lemma checked_add_eq_None [word_simps]:
  fixes a b :: "'a::len word"
  shows "checked_add a b = None \<longleftrightarrow> 2 ^ LENGTH('a) \<le> unat a + unat b"
  by (simp add: checked_add_def not_less)

lemma checked_sub_eq_Some [word_simps]:
  fixes a b c :: "'a::len word"
  shows "checked_sub a b = Some c \<longleftrightarrow> unat a = unat b + unat c"
  by (auto simp: checked_sub_def word_eq_iff_unat word_le_nat_alt unat_sub_no_underflow)

lemma checked_sub_eq_None [word_simps]:
  fixes a b :: "'a::len word"
  shows "checked_sub a b = None \<longleftrightarrow> unat a < unat b"
  by (simp add: checked_sub_def word_le_nat_alt not_le)

lemma checked_mul_eq_Some [word_simps]:
  fixes a b c :: "'a::len word"
  shows "checked_mul a b = Some c \<longleftrightarrow> unat a * unat b = unat c"
  using unat_lt_2p [of c]
  by (auto simp: checked_mul_def word_eq_iff_unat unat_mul_no_overflow)

lemma checked_mul_eq_None [word_simps]:
  fixes a b :: "'a::len word"
  shows "checked_mul a b = None \<longleftrightarrow> 2 ^ LENGTH('a) \<le> unat a * unat b"
  by (simp add: checked_mul_def not_less)

lemma checked_div_eq_Some [word_simps]:
  fixes a b c :: "'a::len word"
  shows "checked_div a b = Some c \<longleftrightarrow> b \<noteq> 0 \<and> unat c = unat a div unat b"
  by (auto simp: checked_div_def word_eq_iff_unat unat_div)

lemma checked_div_eq_None [word_simps]: "checked_div a b = None \<longleftrightarrow> b = 0"
  by (simp add: checked_div_def)

lemma checked_rem_eq_Some [word_simps]:
  fixes a b c :: "'a::len word"
  shows "checked_rem a b = Some c \<longleftrightarrow> b \<noteq> 0 \<and> unat c = unat a mod unat b"
  by (auto simp: checked_rem_def word_eq_iff_unat unat_mod)

lemma checked_rem_eq_None [word_simps]: "checked_rem a b = None \<longleftrightarrow> b = 0"
  by (simp add: checked_rem_def)

lemma unat_max_word_of: "unat (max_word_of :: 'a::len word) = 2 ^ LENGTH('a) - 1"
  by transfer (simp add: mask_eq_exp_minus_1 nat_diff_distrib nat_power_eq)

lemma unat_saturating_add [word_simps]:
  fixes a b :: "'a::len word"
  shows "unat (saturating_add a b) = min (unat a + unat b) (2 ^ LENGTH('a) - 1)"
  by (auto simp: saturating_add_def unat_add_no_overflow unat_max_word_of min_def)

lemma unat_saturating_sub [word_simps]:
  fixes a b :: "'a::len word"
  shows "unat (saturating_sub a b) = unat a - unat b"
  by (auto simp: saturating_sub_def unat_sub_no_underflow word_le_nat_alt)

lemma unat_saturating_mul [word_simps]:
  fixes a b :: "'a::len word"
  shows "unat (saturating_mul a b) = min (unat a * unat b) (2 ^ LENGTH('a) - 1)"
  by (simp add: saturating_mul_def unat_mul_no_overflow unat_max_word_of)

lemma unat_u8_to_u64 [simp]: "unat (u8_to_u64 x) = unat x"
  by transfer (simp add: take_bit_take_bit)

lemma u8_less_256: "unat (x :: u8) < 256"
  using unat_lt_2p [of x] by simp

lemma u64_less_2p64: "unat (x :: u64) < 2 ^ 64"
  using unat_lt_2p [of x] by simp

lemma nat_div_eq_iff_bounds:
  fixes x m c :: nat
  assumes "0 < m"
  shows "x div m = c \<longleftrightarrow> c * m \<le> x \<and> x \<le> c * m + (m - 1)"
proof
  assume "x div m = c"
  then have "x = c * m + x mod m" using div_mult_mod_eq [of x m] by simp
  moreover have "x mod m \<le> m - 1"
    using mod_less_divisor [OF assms, of x] by linarith
  ultimately show "c * m \<le> x \<and> x \<le> c * m + (m - 1)" by linarith
next
  assume "c * m \<le> x \<and> x \<le> c * m + (m - 1)"
  with assms show "x div m = c" by (intro div_nat_eqI) (auto simp: mult.commute)
qed

section \<open>Result and the question mark operator\<close>

text \<open>A Rust \<open>Result<T, E>\<close> is \<open>'e + 'a\<close> with \<open>Inl\<close> the error.\<close>

definition rbind :: "'e + 'a \<Rightarrow> ('a \<Rightarrow> 'e + 'b) \<Rightarrow> 'e + 'b" where
  "rbind r f = (case r of Inl e \<Rightarrow> Inl e | Inr x \<Rightarrow> f x)"

definition ok_or :: "'a option \<Rightarrow> 'e \<Rightarrow> 'e + 'a" where
  "ok_or x e = (case x of None \<Rightarrow> Inl e | Some v \<Rightarrow> Inr v)"

definition map_err :: "('e \<Rightarrow> 'f) \<Rightarrow> 'e + 'a \<Rightarrow> 'f + 'a" where
  "map_err f r = (case r of Inl e \<Rightarrow> Inl (f e) | Inr x \<Rightarrow> Inr x)"

lemma rbind_simps [simp]:
  "rbind (Inl e) f = Inl e"
  "rbind (Inr x) f = f x"
  by (simp_all add: rbind_def)

lemma ok_or_simps [simp]:
  "ok_or None e = Inl e"
  "ok_or (Some v) e = Inr v"
  by (simp_all add: ok_or_def)

lemma map_err_simps [simp]:
  "map_err f (Inl e) = Inl (f e)"
  "map_err f (Inr x) = Inr x"
  by (simp_all add: map_err_def)

lemma rbind_eq_Inr [result_simps]:
  "rbind r f = Inr y \<longleftrightarrow> (\<exists>x. r = Inr x \<and> f x = Inr y)"
  by (cases r) auto

lemma rbind_eq_Inl [result_simps]:
  "rbind r f = Inl e \<longleftrightarrow> r = Inl e \<or> (\<exists>x. r = Inr x \<and> f x = Inl e)"
  by (cases r) auto

lemma ok_or_eq_Inr [result_simps]: "ok_or x e = Inr v \<longleftrightarrow> x = Some v"
  by (cases x) auto

lemma ok_or_eq_Inl [result_simps]: "ok_or x e = Inl d \<longleftrightarrow> x = None \<and> d = e"
  by (cases x) auto

lemma map_err_eq_Inr [result_simps]: "map_err f r = Inr v \<longleftrightarrow> r = Inr v"
  by (cases r) auto

lemma map_err_eq_Inl [result_simps]: "map_err f r = Inl d \<longleftrightarrow> (\<exists>e. r = Inl e \<and> d = f e)"
  by (cases r) auto

lemma rbind_assoc: "rbind (rbind r f) g = rbind r (\<lambda>x. rbind (f x) g)"
  by (cases r) auto

lemma rbind_cong [fundef_cong]:
  "r = r' \<Longrightarrow> (\<And>x. r' = Inr x \<Longrightarrow> f x = f' x) \<Longrightarrow> rbind r f = rbind r' f'"
  by (cases r') auto

section \<open>Bounds\<close>

datatype 'a bound = Included 'a | Excluded 'a | Unbounded

fun range_contains :: "'a::linorder bound \<times> 'a bound \<Rightarrow> 'a \<Rightarrow> bool" where
  "range_contains (lo, hi) x =
     ((case lo of Included a \<Rightarrow> a \<le> x | Excluded a \<Rightarrow> a < x | Unbounded \<Rightarrow> True) \<and>
      (case hi of Included b \<Rightarrow> x \<le> b | Excluded b \<Rightarrow> x < b | Unbounded \<Rightarrow> True))"

lemma range_contains_full_word [simp]:
  "range_contains (Included 0, Included max_word_of) (x :: 'a::len word)"
  by simp

text \<open>A loop, or \<open>Iterator::find_map\<close>, that returns at the first element that gives a result.\<close>

fun find_map :: "('a \<Rightarrow> 'b option) \<Rightarrow> 'a list \<Rightarrow> 'b option" where
  "find_map f [] = None"
| "find_map f (x # xs) = (case f x of Some r \<Rightarrow> Some r | None \<Rightarrow> find_map f xs)"

end
