(* ===== verification/Massa_Bytes.thy ===== *)
theory Massa_Bytes
  imports Massa_Prelude "HOL-Library.List_Lexorder"
begin

text \<open>
  Big-endian byte strings: \<open>to_be_bytes\<close> and \<open>from_be_bytes\<close> of the Rust integer
  types, with the facts that make them usable as sortable database keys: encoding and
  decoding are inverse, and the lexicographic order of two encodings of the same width
  (the order of \<open>[u8]\<close> slices) is the order of the integers.
\<close>

fun be_bytes :: "nat \<Rightarrow> nat \<Rightarrow> bytes" where
  "be_bytes 0 v = []"
| "be_bytes (Suc n) v = be_bytes n (v div 256) @ [of_nat (v mod 256)]"

definition be_val :: "bytes \<Rightarrow> nat" where
  "be_val bs = foldl (\<lambda>acc b. acc * 256 + unat b) 0 bs"

definition u64_to_be_bytes :: "u64 \<Rightarrow> bytes" where
  "u64_to_be_bytes w = be_bytes 8 (unat w)"

definition u64_from_be_bytes :: "bytes \<Rightarrow> u64" where
  "u64_from_be_bytes bs = of_nat (be_val bs)"

lemma be_val_simps [simp]:
  "be_val [] = 0"
  "be_val (bs @ [b]) = be_val bs * 256 + unat b"
  by (simp_all add: be_val_def)

lemma foldl_be_val: "foldl (\<lambda>acc b. acc * 256 + unat b) a bs = a * 256 ^ length bs + be_val bs"
  for bs :: bytes
  unfolding be_val_def
proof (induction bs arbitrary: a)
  case (Cons b bs)
  show ?case
    using Cons [of "a * 256 + unat b"] Cons [of "unat b"]
    by (simp add: algebra_simps)
qed simp

lemma be_val_Cons [simp]: "be_val (b # bs) = unat b * 256 ^ length bs + be_val bs"
  using foldl_be_val [of "unat b" bs] by (simp add: be_val_def)

lemma length_be_bytes [simp]: "length (be_bytes n v) = n"
  by (induction n arbitrary: v) auto

lemma unat_of_nat_byte [simp]: "unat (of_nat (v mod 256) :: u8) = v mod 256"
  by (simp add: unat_of_nat)

lemma be_val_less: "be_val bs < 256 ^ length bs"
proof (induction bs rule: rev_induct)
  case (snoc b bs)
  have "be_val bs * 256 + unat b < (be_val bs + 1) * 256"
    using u8_less_256 [of b] by simp
  also have "\<dots> \<le> 256 ^ length bs * 256"
    using snoc by simp
  finally show ?case by simp
qed simp

lemma be_val_be_bytes: "be_val (be_bytes n v) = v mod 256 ^ n"
proof (induction n arbitrary: v)
  case (Suc n)
  have "v mod 256 ^ Suc n = 256 * (v div 256 mod 256 ^ n) + v mod 256"
    using mod_mult2_eq [of v 256 "256 ^ n"] by (simp add: mult.commute)
  with Suc show ?case by simp
qed simp

lemma be_bytes_be_val: "be_bytes (length bs) (be_val bs) = bs"
proof (induction bs rule: rev_induct)
  case (snoc b bs)
  have "(be_val bs * 256 + unat b) div 256 = be_val bs"
    and "(be_val bs * 256 + unat b) mod 256 = unat b"
    using u8_less_256 [of b] by auto
  with snoc show ?case by simp
qed simp

lemma be_val_inj: "length xs = length ys \<Longrightarrow> be_val xs = be_val ys \<longleftrightarrow> xs = ys"
  by (metis be_bytes_be_val)

lemma be_val_less_iff: "length xs = length ys \<Longrightarrow> be_val xs < be_val ys \<longleftrightarrow> xs < ys"
proof (induction xs ys rule: list_induct2)
  case (Cons x xs y ys)
  let ?m = "256 ^ length ys"
  have lt: "be_val xs < ?m" "be_val ys < ?m"
    using be_val_less [of xs] be_val_less [of ys] Cons.hyps by simp_all
  have gap: "unat a * ?m + c < unat b * ?m + d" if "unat a < unat b" "c < ?m" for a b :: u8 and c d
  proof -
    have "unat a * ?m + c < (unat a + 1) * ?m" using that(2) by simp
    also have "\<dots> \<le> unat b * ?m" using that(1) by (intro mult_right_mono) auto
    finally show ?thesis by simp
  qed
  consider "unat x < unat y" | "x = y" | "unat y < unat x"
    by (metis linorder_neqE_nat word_eq_iff_unat)
  then show ?case
  proof cases
    case 1
    then show ?thesis using gap [OF 1 lt(1), of "be_val ys"] Cons.hyps
      by (simp add: word_less_nat_alt)
  next
    case 2
    then show ?thesis using Cons by simp
  next
    case 3
    then show ?thesis using gap [OF 3 lt(2), of "be_val xs"] Cons.hyps
      by (auto simp: word_less_nat_alt)
  qed
qed simp

lemma length_u64_to_be_bytes [simp]: "length (u64_to_be_bytes w) = 8"
  by (simp add: u64_to_be_bytes_def)

lemma be_val_u64_to_be_bytes [simp]: "be_val (u64_to_be_bytes w) = unat w"
  using u64_less_2p64 [of w] by (simp add: u64_to_be_bytes_def be_val_be_bytes)

lemma u64_from_to_be_bytes [simp]: "u64_from_be_bytes (u64_to_be_bytes w) = w"
  by (simp add: u64_from_be_bytes_def)

lemma u64_to_from_be_bytes: "length bs = 8 \<Longrightarrow> u64_to_be_bytes (u64_from_be_bytes bs) = bs"
  using be_val_less [of bs] be_bytes_be_val [of bs]
  by (simp add: u64_to_be_bytes_def u64_from_be_bytes_def unat_of_nat)

lemma append_less_iff:
  "length xs = length ys \<Longrightarrow> xs @ us < ys @ vs \<longleftrightarrow> xs < ys \<or> xs = ys \<and> us < (vs :: 'a::linorder list)"
  by (induction xs ys rule: list_induct2) auto

section \<open>A variable-length integer encoding\<close>

text \<open>
  The program takes its variable-length integers from a third-party package; the theories have the
  encoder and the decoder as parameters. The little-endian base-128 encoding is a concrete instance.
\<close>

fun leb128 :: "nat \<Rightarrow> bytes" where
  "leb128 n = (if n < 128 then [of_nat n] else of_nat (128 + n mod 128) # leb128 (n div 128))"

declare leb128.simps [simp del]

fun unleb128 :: "bytes \<Rightarrow> (bytes \<times> nat) option" where
  "unleb128 [] = None"
| "unleb128 (b # bs) =
     (if unat b < 128 then Some (bs, unat b)
      else case unleb128 bs of None \<Rightarrow> None | Some (rest, n) \<Rightarrow> Some (rest, unat b - 128 + 128 * n))"

lemma unleb128_leb128: "unleb128 (leb128 n @ rest) = Some (rest, n)"
proof (induction n rule: leb128.induct)
  case (1 n)
  show ?case
  proof (cases "n < 128")
    case True
    then have "unat (of_nat n :: u8) = n" by (simp add: unat_of_nat)
    with True show ?thesis by (subst leb128.simps) simp
  next
    case False
    have "n mod 128 < 128" by simp
    then have "unat (of_nat (128 + n mod 128) :: u8) = 128 + n mod 128"
      by (simp add: unat_of_nat del: of_nat_add)
    with False 1 show ?thesis
      by (subst leb128.simps) (simp add: ac_simps del: of_nat_add)
  qed
qed

end
