(* ===== verification/Massa_BTree.thy ===== *)
theory Massa_BTree
  imports Massa_Prelude "HOL-Library.Finite_Map"
begin

text \<open>
  The ordered map \<open>std::collections::BTreeMap\<close>, as the strictly sorted list of its entries.
  A hash map whose entries are iterated is represented the same way: the listing is then one
  of the iteration orders the program may see, and maps with the same entries are equal.

  The locale \<open>ordered_map\<close> states the contract of such a map; the facts about inserting many
  entries are proved from the contract alone and obtained for the list model by interpretation.
\<close>

type_synonym ('k, 'v) btree = "('k \<times> 'v) list"

definition bt_wf :: "('k::linorder, 'v) btree \<Rightarrow> bool" where
  "bt_wf m \<longleftrightarrow> sorted_wrt (<) (map fst m)"

definition bt_get :: "('k, 'v) btree \<Rightarrow> 'k \<Rightarrow> 'v option" where
  "bt_get m k = map_of m k"

fun bt_insert :: "'k::linorder \<Rightarrow> 'v \<Rightarrow> ('k, 'v) btree \<Rightarrow> ('k, 'v) btree" where
  "bt_insert k v [] = [(k, v)]"
| "bt_insert k v ((k', v') # m) =
     (if k < k' then (k, v) # (k', v') # m
      else if k = k' then (k, v) # m
      else (k', v') # bt_insert k v m)"

definition bt_remove :: "'k \<Rightarrow> ('k, 'v) btree \<Rightarrow> ('k, 'v) btree" where
  "bt_remove k m = filter (\<lambda>e. fst e \<noteq> k) m"

definition bt_retain :: "('k \<Rightarrow> 'v \<Rightarrow> bool) \<Rightarrow> ('k, 'v) btree \<Rightarrow> ('k, 'v) btree" where
  "bt_retain P m = filter (\<lambda>(k, v). P k v) m"

definition bt_keys :: "('k, 'v) btree \<Rightarrow> 'k list" where
  "bt_keys m = map fst m"

definition bt_contains :: "('k, 'v) btree \<Rightarrow> 'k \<Rightarrow> bool" where
  "bt_contains m k \<longleftrightarrow> bt_get m k \<noteq> None"

definition bt_range :: "'k::linorder bound \<times> 'k bound \<Rightarrow> ('k, 'v) btree \<Rightarrow> ('k, 'v) btree" where
  "bt_range r m = bt_retain (\<lambda>k v. range_contains r k) m"

text \<open>\<open>split_off(k)\<close> returns the entries from \<open>k\<close> on and leaves the ones before.\<close>

definition bt_split_off :: "'k::linorder \<Rightarrow> ('k, 'v) btree \<Rightarrow> ('k, 'v) btree \<times> ('k, 'v) btree" where
  "bt_split_off k m = (bt_retain (\<lambda>k' v. k' < k) m, bt_retain (\<lambda>k' v. k \<le> k') m)"

definition bt_extend :: "('k::linorder, 'v) btree \<Rightarrow> ('k \<times> 'v) list \<Rightarrow> ('k, 'v) btree" where
  "bt_extend m kvs = fold (\<lambda>(k, v). bt_insert k v) kvs m"

text \<open>\<open>entry(k).or_default()\<close> followed by an update of the value.\<close>

definition bt_update_or :: "'v \<Rightarrow> ('v \<Rightarrow> 'v) \<Rightarrow> 'k::linorder \<Rightarrow> ('k, 'v) btree \<Rightarrow> ('k, 'v) btree" where
  "bt_update_or dflt f k m = bt_insert k (f (case bt_get m k of None \<Rightarrow> dflt | Some v \<Rightarrow> v)) m"

section \<open>The contract\<close>

locale ordered_map =
  fixes empty :: 'm
    and lookup :: "'m \<Rightarrow> 'k \<Rightarrow> 'v option"
    and insert :: "'k \<Rightarrow> 'v \<Rightarrow> 'm \<Rightarrow> 'm"
    and remove :: "'k \<Rightarrow> 'm \<Rightarrow> 'm"
    and wf :: "'m \<Rightarrow> bool"
  assumes lookup_empty: "lookup empty k = None"
    and lookup_insert: "wf m \<Longrightarrow> lookup (insert k v m) k' = (if k' = k then Some v else lookup m k')"
    and lookup_remove: "wf m \<Longrightarrow> lookup (remove k m) k' = (if k' = k then None else lookup m k')"
    and wf_empty: "wf empty"
    and wf_insert: "wf m \<Longrightarrow> wf (insert k v m)"
    and wf_remove: "wf m \<Longrightarrow> wf (remove k m)"
begin

lemma wf_fold_insert: "wf m \<Longrightarrow> wf (fold (\<lambda>(k, v). insert k v) kvs m)"
  by (induction kvs arbitrary: m) (auto simp: wf_insert)

lemma lookup_fold_insert:
  "wf m \<Longrightarrow> lookup (fold (\<lambda>(k, v). insert k v) kvs m) k
     = (case map_of (rev kvs) k of Some v \<Rightarrow> Some v | None \<Rightarrow> lookup m k)"
proof (induction kvs arbitrary: m)
  case (Cons e kvs)
  then show ?case
    by (cases e) (auto simp: wf_insert lookup_insert map_add_def split: option.splits)
qed simp

lemma wf_fold_remove: "wf m \<Longrightarrow> wf (fold remove ks m)"
  by (induction ks arbitrary: m) (auto simp: wf_remove)

lemma lookup_fold_remove:
  "wf m \<Longrightarrow> lookup (fold remove ks m) k = (if k \<in> set ks then None else lookup m k)"
  by (induction ks arbitrary: m) (auto simp: wf_remove lookup_remove)

end

section \<open>The list model keeps the contract\<close>

lemma bt_wf_Nil [simp]: "bt_wf []"
  by (simp add: bt_wf_def)

lemma bt_wf_Cons: "bt_wf ((k, v) # m) \<longleftrightarrow> bt_wf m \<and> (\<forall>k' \<in> fst ` set m. k < k')"
  by (auto simp: bt_wf_def)

lemma bt_get_Nil [simp]: "bt_get [] k = None"
  by (simp add: bt_get_def)

lemma bt_get_Cons [simp]: "bt_get ((k', v) # m) k = (if k = k' then Some v else bt_get m k)"
  by (simp add: bt_get_def)

lemma bt_wf_distinct: "bt_wf m \<Longrightarrow> distinct (map fst m)"
  by (simp add: bt_wf_def strict_sorted_iff)

lemma bt_get_eq_None: "bt_get m k = None \<longleftrightarrow> k \<notin> fst ` set m"
  by (simp add: bt_get_def map_of_eq_None_iff)

lemma bt_get_eq_Some: "bt_wf m \<Longrightarrow> bt_get m k = Some v \<longleftrightarrow> (k, v) \<in> set m"
  by (simp add: bt_get_def bt_wf_distinct)

lemma fst_set_bt_insert: "fst ` set (bt_insert k v m) = insert k (fst ` set m)"
  by (induction k v m rule: bt_insert.induct) auto

lemma bt_wf_insert [simp]: "bt_wf m \<Longrightarrow> bt_wf (bt_insert k v m)"
  by (induction k v m rule: bt_insert.induct) (auto simp: bt_wf_Cons fst_set_bt_insert)

lemma bt_get_insert: "bt_get (bt_insert k v m) k' = (if k' = k then Some v else bt_get m k')"
  by (induction k v m rule: bt_insert.induct) auto

lemma bt_wf_filter: "bt_wf m \<Longrightarrow> bt_wf (filter P m)"
  by (induction m) (auto simp: bt_wf_Cons)

lemma bt_get_filter:
  "bt_wf m \<Longrightarrow> bt_get (filter P m) k
     = (case bt_get m k of Some v \<Rightarrow> if P (k, v) then Some v else None | None \<Rightarrow> None)"
proof (induction m)
  case (Cons e m)
  obtain k' v where e: "e = (k', v)" by (cases e)
  have "bt_get m k' = None"
    using Cons.prems by (auto simp: e bt_wf_Cons bt_get_eq_None)
  with Cons show ?case by (auto simp: e bt_wf_Cons bt_get_eq_None split: option.splits)
qed simp

lemma bt_wf_remove [simp]: "bt_wf m \<Longrightarrow> bt_wf (bt_remove k m)"
  by (simp add: bt_remove_def bt_wf_filter)

lemma bt_get_remove: "bt_get (bt_remove k m) k' = (if k' = k then None else bt_get m k')"
  by (induction m) (auto simp: bt_remove_def)

lemma bt_wf_retain [simp]: "bt_wf m \<Longrightarrow> bt_wf (bt_retain P m)"
  by (simp add: bt_retain_def bt_wf_filter)

lemma bt_get_retain:
  "bt_wf m \<Longrightarrow> bt_get (bt_retain P m) k
     = (case bt_get m k of Some v \<Rightarrow> if P k v then Some v else None | None \<Rightarrow> None)"
  by (simp add: bt_retain_def bt_get_filter split: option.splits)

lemma set_bt_retain: "set (bt_retain P m) = {(k, v) \<in> set m. P k v}"
  by (auto simp: bt_retain_def)

lemma bt_wf_range [simp]: "bt_wf m \<Longrightarrow> bt_wf (bt_range r m)"
  by (simp add: bt_range_def)

lemma bt_get_range:
  "bt_wf m \<Longrightarrow> bt_get (bt_range r m) k = (if range_contains r k then bt_get m k else None)"
  by (simp add: bt_range_def bt_get_retain split: option.splits)

interpretation bt: ordered_map "[]" bt_get bt_insert bt_remove bt_wf
  by unfold_locales (auto simp: bt_get_insert bt_get_remove)

lemma bt_wf_extend [simp]: "bt_wf m \<Longrightarrow> bt_wf (bt_extend m kvs)"
  by (simp add: bt_extend_def bt.wf_fold_insert)

lemma bt_get_extend:
  "bt_wf m \<Longrightarrow> bt_get (bt_extend m kvs) k
     = (case map_of (rev kvs) k of Some v \<Rightarrow> Some v | None \<Rightarrow> bt_get m k)"
  by (simp add: bt_extend_def bt.lookup_fold_insert)

lemma map_of_rev_distinct: "distinct (map fst xs) \<Longrightarrow> map_of (rev xs) = map_of xs"
proof (induction xs)
  case (Cons e xs)
  then have "map_of xs (fst e) = None" by (simp add: map_of_eq_None_iff)
  with Cons show ?case by (cases e) (auto simp: map_add_def fun_eq_iff split: option.splits)
qed simp

lemma bt_get_extend_bt:
  "bt_wf m \<Longrightarrow> bt_wf n \<Longrightarrow> bt_get (bt_extend m n) k
     = (case bt_get n k of Some v \<Rightarrow> Some v | None \<Rightarrow> bt_get m k)"
  by (simp add: bt_get_extend bt_get_def [of n] map_of_rev_distinct bt_wf_distinct)

lemma bt_wf_update_or [simp]: "bt_wf m \<Longrightarrow> bt_wf (bt_update_or d f k m)"
  by (simp add: bt_update_or_def)

lemma bt_get_update_or:
  "bt_get (bt_update_or d f k m) k'
     = (if k' = k then Some (f (case bt_get m k of None \<Rightarrow> d | Some v \<Rightarrow> v)) else bt_get m k')"
  by (simp add: bt_update_or_def bt_get_insert)

text \<open>Maps with the same entries are equal.\<close>

lemma bt_eqI:
  assumes "bt_wf m" "bt_wf n" "\<And>k. bt_get m k = bt_get n k"
  shows "m = n"
proof -
  have "set m = set n"
    using bt_get_eq_Some [OF assms(1)] bt_get_eq_Some [OF assms(2)] assms(3) by auto
  moreover from this have "map fst m = map fst n"
    using assms(1,2) by (intro sorted_distinct_set_unique) (auto simp: bt_wf_def strict_sorted_iff)
  moreover have "inj_on fst (set m)"
    using bt_wf_distinct [OF assms(1)] by (simp add: distinct_map)
  ultimately show ?thesis
    by (metis map_inj_on sup.idem)
qed

section \<open>Entries of a finite map\<close>

text \<open>
  Where a map is compared as a whole it is a finite map; \<open>fm_entries\<close> is its listing in the
  order of the keys.
\<close>

definition fm_entries :: "('k::linorder, 'v) fmap \<Rightarrow> ('k, 'v) btree" where
  "fm_entries m = map (\<lambda>k. (k, the (fmlookup m k))) (sorted_list_of_fset (fmdom m))"

lemma map_fst_fm_entries: "map fst (fm_entries m) = sorted_list_of_fset (fmdom m)"
  by (simp add: fm_entries_def comp_def)

lemma bt_wf_fm_entries [simp]: "bt_wf (fm_entries m)"
  by (simp add: bt_wf_def map_fst_fm_entries sorted_list_of_fset.rep_eq)

lemma distinct_fm_entries: "distinct (map fst (fm_entries m))"
  by (rule bt_wf_distinct) simp

lemma map_of_fm_entries: "map_of (fm_entries m) k = fmlookup m k"
proof (cases "k |\<in>| fmdom m")
  case True
  then have "(k, the (fmlookup m k)) \<in> set (fm_entries m)" by (simp add: fm_entries_def)
  then have "map_of (fm_entries m) k = Some (the (fmlookup m k))"
    by (simp add: map_of_eq_Some_iff distinct_fm_entries)
  with True show ?thesis by (auto simp: fmlookup_dom_iff)
next
  case False
  then show ?thesis by (auto simp: fmdom_notD map_of_eq_None_iff fm_entries_def)
qed

lemma bt_get_fm_entries [simp]: "bt_get (fm_entries m) = fmlookup m"
  by (simp add: fun_eq_iff bt_get_def map_of_fm_entries)

end
