(* ===== verification/Massa_DB.thy ===== *)
theory Massa_DB
  imports Massa_Bytes Massa_BTree
begin

text \<open>
  The node's database wrapper: \<open>massa-db-worker/src/massa_db.rs\<close> with the types of
  \<open>massa-db-exports\<close> and the extendable-output hash of \<open>massa-hash/src/hash_xof.rs\<close>.

  RocksDB is represented by the content of its column families, each an ordered map from byte
  keys to byte values, and an atomic write applies the operations of a write batch in order; its
  I/O failures are not represented. The hash function BLAKE3 and RocksDB's own size accounting
  are parameters (\<open>xof\<close> and \<open>wb_size\<close>). The metadata column family is kept decoded: the change
  id and the state hash.

  Shown here: what a write does to the two data column families, to the change history and to
  the change id; that the state hash maintained incrementally by XOR is always the hash computed
  from the whole content; and that the history explains the current content.
\<close>

unbundle bit_operations_syntax

section \<open>Extendable-output hashes\<close>

type_synonym hash_xof = bytes

definition HASH_XOF_SIZE_BYTES :: nat where
  "HASH_XOF_SIZE_BYTES = 512"

definition STATE_HASH_INITIAL_BYTES :: hash_xof where
  "STATE_HASH_INITIAL_BYTES = replicate HASH_XOF_SIZE_BYTES 0"

text \<open>The bytes fed to the hasher: every slice after its length on eight bytes.\<close>

definition tuple_preimage :: "bytes list \<Rightarrow> bytes" where
  "tuple_preimage data = concat (map (\<lambda>d. u64_to_be_bytes (of_nat (length d)) @ d) data)"

definition compute_from_tuple :: "(bytes \<Rightarrow> hash_xof) \<Rightarrow> bytes list \<Rightarrow> hash_xof" where
  "compute_from_tuple xof data = xof (tuple_preimage data)"

definition bitxor :: "hash_xof \<Rightarrow> hash_xof \<Rightarrow> hash_xof" where
  "bitxor a b = map2 (XOR) a b"

section \<open>The database\<close>

type_synonym db_batch = "(bytes, bytes option) btree"

datatype massa_db_error =
    InvalidChangeID string
  | DB_TimeError string
  | CacheMissError string
  | DB_Panic string

record massa_db_config =
  max_history_length :: nat
  max_versioning_elements_size :: nat
  max_final_state_elements_size :: nat
  enable_metrics :: bool

datatype 'c write_op =
    Put_State bytes bytes
  | Delete_State bytes
  | Put_Versioning bytes bytes
  | Delete_Versioning bytes
  | Put_Change_Id 'c
  | Put_State_Hash hash_xof

record 'c massa_db =
  state_cf :: "(bytes, bytes) btree"
  versioning_cf :: "(bytes, bytes) btree"
  meta_change_id :: "'c option"
  meta_state_hash :: "hash_xof option"
  config :: massa_db_config
  change_history :: "('c, db_batch) btree"
  change_history_versioning :: "('c, db_batch) btree"
  current_batch :: "'c write_op list"
  change_history_sizes :: "('c, nat \<times> nat) btree"

fun rocks_apply :: "'c write_op \<Rightarrow> 'c massa_db \<Rightarrow> 'c massa_db" where
  "rocks_apply (Put_State k v) db = db\<lparr>state_cf := bt_insert k v (state_cf db)\<rparr>"
| "rocks_apply (Delete_State k) db = db\<lparr>state_cf := bt_remove k (state_cf db)\<rparr>"
| "rocks_apply (Put_Versioning k v) db = db\<lparr>versioning_cf := bt_insert k v (versioning_cf db)\<rparr>"
| "rocks_apply (Delete_Versioning k) db = db\<lparr>versioning_cf := bt_remove k (versioning_cf db)\<rparr>"
| "rocks_apply (Put_Change_Id c) db = db\<lparr>meta_change_id := Some c\<rparr>"
| "rocks_apply (Put_State_Hash h) db = db\<lparr>meta_state_hash := Some h\<rparr>"

definition rocks_write :: "'c write_op list \<Rightarrow> 'c massa_db \<Rightarrow> 'c massa_db" where
  "rocks_write ops db = fold rocks_apply ops db"

definition put_or_update_entry_value ::
  "('k::linorder, 'v option) btree \<Rightarrow> 'k \<Rightarrow> 'v \<Rightarrow> ('k, 'v option) btree" where
  "put_or_update_entry_value batch k v = bt_insert k (Some v) batch"

definition delete_key :: "('k::linorder, 'v option) btree \<Rightarrow> 'k \<Rightarrow> ('k, 'v option) btree" where
  "delete_key batch k = bt_insert k None batch"

definition get_change_id :: "'c massa_db \<Rightarrow> massa_db_error + 'c" where
  "get_change_id db = ok_or (meta_change_id db) (DB_Panic ''critical: change_id deserialization failed'')"

definition get_xof_db_hash :: "'c massa_db \<Rightarrow> hash_xof" where
  "get_xof_db_hash db = (case meta_state_hash db of Some h \<Rightarrow> h | None \<Rightarrow> STATE_HASH_INITIAL_BYTES)"

definition set_change_id_to_batch :: "'c \<Rightarrow> 'c massa_db \<Rightarrow> 'c massa_db" where
  "set_change_id_to_batch c db = db\<lparr>current_batch := current_batch db @ [Put_Change_Id c]\<rparr>"

definition set_initial_change_id :: "'c \<Rightarrow> 'c massa_db \<Rightarrow> 'c massa_db" where
  "set_initial_change_id c db =
     (let db = set_change_id_to_batch c (db\<lparr>current_batch := []\<rparr>)
      in rocks_write (current_batch db) (db\<lparr>current_batch := []\<rparr>))"

definition reset_slot_and_history :: "'c \<Rightarrow> 'c massa_db \<Rightarrow> 'c massa_db" where
  "reset_slot_and_history c db =
     (set_initial_change_id c db)\<lparr>change_history := [], change_history_versioning := []\<rparr>"

text \<open>The loop over the state changes: the batch grows and the hash is updated, both from the
  content before the write.\<close>

fun state_change_step ::
  "(bytes \<Rightarrow> hash_xof) \<Rightarrow> (bytes, bytes) btree \<Rightarrow> bytes \<times> bytes option
   \<Rightarrow> 'c write_op list \<times> hash_xof \<Rightarrow> 'c write_op list \<times> hash_xof" where
  "state_change_step xof state (key, Some value) (batch, h) =
     (let h = (case bt_get state key of
                 Some prev_value \<Rightarrow> bitxor h (compute_from_tuple xof [key, prev_value])
               | None \<Rightarrow> h)
      in (batch @ [Put_State key value], bitxor h (compute_from_tuple xof [key, value])))"
| "state_change_step xof state (key, None) (batch, h) =
     (batch @ [Delete_State key],
      case bt_get state key of
        Some prev_value \<Rightarrow> bitxor h (compute_from_tuple xof [key, prev_value])
      | None \<Rightarrow> h)"

definition versioning_ops :: "db_batch \<Rightarrow> 'c write_op list" where
  "versioning_ops changes =
     map (\<lambda>(k, v). case v of Some v \<Rightarrow> Put_Versioning k v | None \<Rightarrow> Delete_Versioning k) changes"

definition record_changes ::
  "'c::linorder \<Rightarrow> db_batch \<Rightarrow> ('c, db_batch) btree \<Rightarrow> ('c, db_batch) btree" where
  "record_changes c changes hist =
     (case bt_get hist c of
        None \<Rightarrow> bt_insert c changes hist
      | Some old \<Rightarrow> bt_insert c (bt_extend old changes) hist)"

definition record_sizes ::
  "'c::linorder \<Rightarrow> nat \<Rightarrow> nat \<Rightarrow> ('c, nat \<times> nat) btree \<Rightarrow> ('c, nat \<times> nat) btree" where
  "record_sizes c s vs sizes =
     (case bt_get sizes c of
        None \<Rightarrow> bt_insert c (s, vs) sizes
      | Some (s0, vs0) \<Rightarrow> bt_insert c (s0 + s, vs0 + vs) sizes)"

function trim_history :: "nat \<Rightarrow> 'a list \<times> 'b list \<Rightarrow> 'a list \<times> 'b list" where
  "trim_history n (hist, sizes) =
     (if n < length hist then trim_history n (tl hist, tl sizes) else (hist, sizes))"
  by pat_completeness auto
termination by (relation "measure (\<lambda>(n, hist, sizes). length hist)") auto

text \<open>A write has three stages: the RocksDB batch is filled, committed, and recorded in the
  histories.\<close>

definition fill_current_batch ::
  "(bytes \<Rightarrow> hash_xof) \<Rightarrow> ('c::linorder write_op list \<Rightarrow> nat) \<Rightarrow> db_batch \<Rightarrow> db_batch
   \<Rightarrow> 'c option \<Rightarrow> 'c \<Rightarrow> 'c massa_db \<Rightarrow> 'c massa_db" where
  "fill_current_batch xof wb_size changes versioning_changes change_id cur db =
     (let (ops, h) = fold (state_change_step xof (state_cf db)) changes ([], get_xof_db_hash db);
          changes_size = wb_size ops;
          ops = ops @ versioning_ops versioning_changes;
          changes_versioning_size = wb_size ops - changes_size;
          db = db\<lparr>current_batch := ops,
                 change_history_sizes :=
                   (if enable_metrics (config db)
                    then record_sizes cur changes_size changes_versioning_size (change_history_sizes db)
                    else change_history_sizes db)\<rparr>;
          db = (case change_id of Some c \<Rightarrow> set_change_id_to_batch c db | None \<Rightarrow> db)
      in db\<lparr>current_batch := current_batch db @ [Put_State_Hash h]\<rparr>)"

definition commit_current_batch :: "'c massa_db \<Rightarrow> 'c massa_db" where
  "commit_current_batch db = rocks_write (current_batch db) (db\<lparr>current_batch := []\<rparr>)"

definition record_history ::
  "db_batch \<Rightarrow> db_batch \<Rightarrow> bool \<Rightarrow> 'c::linorder \<Rightarrow> 'c massa_db \<Rightarrow> 'c massa_db" where
  "record_history changes versioning_changes reset_history c db =
     (let (hist, vhist, sizes) =
            (if reset_history then ([], [], [])
             else (record_changes c changes (change_history db),
                   record_changes c versioning_changes (change_history_versioning db),
                   change_history_sizes db));
          n = max_history_length (config db);
          (hist, sizes) = trim_history n (hist, sizes);
          (vhist, _) = trim_history n (vhist, [] :: unit list)
      in db\<lparr>change_history := hist, change_history_versioning := vhist,
            change_history_sizes := sizes\<rparr>)"

definition write_changes ::
  "(bytes \<Rightarrow> hash_xof) \<Rightarrow> ('c::linorder write_op list \<Rightarrow> nat) \<Rightarrow> db_batch \<Rightarrow> db_batch
   \<Rightarrow> 'c option \<Rightarrow> bool \<Rightarrow> 'c massa_db \<Rightarrow> massa_db_error + 'c massa_db" where
  "write_changes xof wb_size changes versioning_changes change_id reset_history db =
     rbind (get_change_id db) (\<lambda>cur.
       if (case change_id of Some c \<Rightarrow> c < cur | None \<Rightarrow> False)
       then Inl (InvalidChangeID ''change_id should monotonically increase after every write'')
       else
         let db = commit_current_batch
                    (fill_current_batch xof wb_size changes versioning_changes change_id cur db)
         in rbind (get_change_id db) (\<lambda>c.
              Inr (record_history changes versioning_changes reset_history c db)))"

definition write_batch ::
  "(bytes \<Rightarrow> hash_xof) \<Rightarrow> ('c::linorder write_op list \<Rightarrow> nat) \<Rightarrow> db_batch \<Rightarrow> db_batch
   \<Rightarrow> 'c option \<Rightarrow> 'c massa_db \<Rightarrow> massa_db_error + 'c massa_db" where
  "write_batch xof wb_size batch versioning_batch change_id db =
     map_err (\<lambda>e. DB_Panic ''critical: rocksdb crud operation failed'')
       (write_changes xof wb_size batch versioning_batch change_id False db)"

definition prefix_keys :: "bytes \<Rightarrow> (bytes, bytes) btree \<Rightarrow> bytes list" where
  "prefix_keys prefix cf =
     map fst (takeWhile (\<lambda>(k, v). take (length prefix) k = prefix)
       (dropWhile (\<lambda>(k, v). k < prefix) cf))"

datatype column_family = STATE_CF | VERSIONING_CF

definition delete_prefix ::
  "(bytes \<Rightarrow> hash_xof) \<Rightarrow> ('c::linorder write_op list \<Rightarrow> nat) \<Rightarrow> bytes \<Rightarrow> column_family
   \<Rightarrow> 'c option \<Rightarrow> 'c massa_db \<Rightarrow> massa_db_error + 'c massa_db" where
  "delete_prefix xof wb_size prefix handle change_id db =
     (case handle of
        STATE_CF \<Rightarrow>
          write_batch xof wb_size (fold (\<lambda>k b. delete_key b k) (prefix_keys prefix (state_cf db)) [])
            [] change_id db
      | VERSIONING_CF \<Rightarrow>
          write_batch xof wb_size [] (fold (\<lambda>k b. delete_key b k) (prefix_keys prefix (versioning_cf db)) [])
            change_id db)"
section \<open>Abstract content and hash\<close>

text \<open>The effect of a batch on one column family, and the hash of a whole content.\<close>

definition batch_apply ::
  "('k::linorder, 'v option) btree \<Rightarrow> ('k, 'v) btree \<Rightarrow> ('k, 'v) btree" where
  "batch_apply changes m =
     fold (\<lambda>(k, ov). case ov of Some v \<Rightarrow> bt_insert k v | None \<Rightarrow> bt_remove k) changes m"

definition content_hash :: "(bytes \<Rightarrow> hash_xof) \<Rightarrow> (bytes, bytes) btree \<Rightarrow> hash_xof" where
  "content_hash xof m =
     foldr (\<lambda>(k, v). bitxor (compute_from_tuple xof [k, v])) m STATE_HASH_INITIAL_BYTES"

text \<open>What the program relies on for BLAKE3: the reader fills the whole output array.\<close>

definition xof_fills :: "(bytes \<Rightarrow> hash_xof) \<Rightarrow> bool" where
  "xof_fills xof \<longleftrightarrow> (\<forall>d. length (xof d) = HASH_XOF_SIZE_BYTES)"

subsection \<open>Exclusive or\<close>

lemma length_bitxor [simp]: "length (bitxor a b) = min (length a) (length b)"
  by (simp add: bitxor_def)

lemma bitxor_commute: "bitxor a b = bitxor b a"
  by (auto simp: bitxor_def intro!: nth_equalityI simp: xor.commute)

lemma bitxor_assoc: "bitxor (bitxor a b) c = bitxor a (bitxor b c)"
  by (auto simp: bitxor_def intro!: nth_equalityI simp: xor.assoc)

lemma bitxor_left_commute: "bitxor a (bitxor b c) = bitxor b (bitxor a c)"
  by (metis bitxor_assoc bitxor_commute)

lemmas bitxor_ac = bitxor_assoc bitxor_commute bitxor_left_commute

lemma bitxor_cancel: "length b \<le> length a \<Longrightarrow> bitxor a (bitxor a b) = b"
  by (auto simp: bitxor_def intro!: nth_equalityI simp flip: xor.assoc)

lemma length_compute_from_tuple: "xof_fills xof \<Longrightarrow> length (compute_from_tuple xof d) = HASH_XOF_SIZE_BYTES"
  by (simp add: xof_fills_def compute_from_tuple_def)

lemma length_content_hash: "xof_fills xof \<Longrightarrow> length (content_hash xof m) = HASH_XOF_SIZE_BYTES"
  by (induction m) (auto simp: content_hash_def STATE_HASH_INITIAL_BYTES_def length_compute_from_tuple)

lemma content_hash_Nil: "content_hash xof [] = STATE_HASH_INITIAL_BYTES"
  by (simp add: content_hash_def)

lemma content_hash_Cons:
  "content_hash xof ((k, v) # m) = bitxor (compute_from_tuple xof [k, v]) (content_hash xof m)"
  by (simp add: content_hash_def)

lemma content_hash_remove:
  assumes "xof_fills xof" "bt_wf m"
  shows "content_hash xof (bt_remove k m) =
    (case bt_get m k of
       Some pv \<Rightarrow> bitxor (content_hash xof m) (compute_from_tuple xof [k, pv])
     | None \<Rightarrow> content_hash xof m)"
  using assms(2)
proof (induction m)
  case (Cons e m)
  obtain k' v where e: "e = (k', v)" by (cases e)
  show ?case
  proof (cases "k' = k")
    case True
    then have "bt_remove k (e # m) = m"
      using Cons.prems by (auto simp: e bt_remove_def bt_wf_Cons intro!: filter_True)
    then show ?thesis
      using bitxor_cancel [of "content_hash xof m" "compute_from_tuple xof [k, v]"] True assms(1)
      by (simp add: e content_hash_Cons bitxor_commute length_content_hash length_compute_from_tuple)
  next
    case False
    with Cons show ?thesis
      by (auto simp: e bt_remove_def content_hash_Cons bt_wf_Cons bitxor_ac split: option.splits)
  qed
qed (simp add: bt_remove_def)

lemma content_hash_insert:
  assumes "xof_fills xof" "bt_wf m"
  shows "content_hash xof (bt_insert k v m) =
    bitxor (case bt_get m k of
        Some pv \<Rightarrow> bitxor (content_hash xof m) (compute_from_tuple xof [k, pv])
      | None \<Rightarrow> content_hash xof m) (compute_from_tuple xof [k, v])"
  using assms(2)
proof (induction k v m rule: bt_insert.induct)
  case (1 k v)
  then show ?case by (simp add: content_hash_Cons bitxor_commute)
next
  case (2 k v k' v' m)
  have none: "k < k' \<Longrightarrow> bt_get m k = None"
    using 2(2) by (force simp: bt_wf_Cons bt_get_eq_None)
  have cancel: "bitxor (bitxor (compute_from_tuple xof [k', v']) (content_hash xof m))
      (compute_from_tuple xof [k', v']) = content_hash xof m"
    using bitxor_cancel [of "content_hash xof m" "compute_from_tuple xof [k', v']"] assms(1)
    by (simp add: bitxor_commute length_content_hash length_compute_from_tuple)
  show ?case
    using 2 none cancel
    by (auto simp: content_hash_Cons bt_wf_Cons bitxor_ac split: option.splits)
qed

subsection \<open>Batches\<close>

lemma bt_wf_batch_apply [simp]: "bt_wf m \<Longrightarrow> bt_wf (batch_apply changes m)"
  by (induction changes arbitrary: m) (auto simp: batch_apply_def split: option.splits)

lemma batch_apply_Cons:
  "batch_apply ((k, ov) # cs) m
     = batch_apply cs (case ov of Some v \<Rightarrow> bt_insert k v m | None \<Rightarrow> bt_remove k m)"
  by (simp add: batch_apply_def split: option.splits)

lemma bt_get_batch_apply:
  "bt_wf changes \<Longrightarrow> bt_get (batch_apply changes m) k
     = (case bt_get changes k of Some ov \<Rightarrow> ov | None \<Rightarrow> bt_get m k)"
proof (induction changes arbitrary: m)
  case (Cons e cs)
  obtain k' ov where e: "e = (k', ov)" by (cases e)
  have "bt_get cs k' = None" using Cons.prems by (auto simp: e bt_wf_Cons bt_get_eq_None)
  with Cons show ?case
    by (auto simp: e batch_apply_Cons bt_wf_Cons bt_get_insert bt_get_remove split: option.splits)
qed (simp add: batch_apply_def)

text \<open>The loop reads the content before the write, yet produces the hash of the content after.\<close>

lemma fold_state_change_step_hash:
  assumes "xof_fills xof"
  shows "bt_wf m \<Longrightarrow> distinct (map fst cs) \<Longrightarrow> \<forall>k \<in> fst ` set cs. bt_get m0 k = bt_get m k
    \<Longrightarrow> snd (fold (state_change_step xof m0) cs (ops, content_hash xof m))
        = content_hash xof (batch_apply cs m)"
proof (induction cs arbitrary: m ops)
  case (Cons e cs)
  obtain k ov where e: "e = (k, ov)" by (cases e)
  define m' where "m' = (case ov of Some v \<Rightarrow> bt_insert k v m | None \<Rightarrow> bt_remove k m)"
  obtain ops' where step: "state_change_step xof m0 e (ops, content_hash xof m) = (ops', content_hash xof m')"
    using Cons.prems assms
    by (cases ov) (auto simp: e m'_def content_hash_insert content_hash_remove Let_def)
  have "bt_wf m'" "\<forall>k \<in> fst ` set cs. bt_get m0 k = bt_get m' k"
    using Cons.prems by (auto simp: e m'_def bt_get_insert bt_get_remove image_iff split: option.splits)
  then show ?case
    using Cons.IH [of m' ops'] Cons.prems step by (simp add: e batch_apply_Cons m'_def)
qed (simp add: batch_apply_def)

lemma fold_state_change_step_ops:
  "fst (fold (state_change_step xof m0) cs (ops, h))
     = ops @ map (\<lambda>(k, v). case v of Some v \<Rightarrow> Put_State k v | None \<Rightarrow> Delete_State k) cs"
proof (induction cs arbitrary: ops h)
  case (Cons e cs)
  then show ?case by (cases e; cases "snd e") (auto simp: Let_def)
qed simp

lemma rocks_write_append: "rocks_write (a @ b) db = rocks_write b (rocks_write a db)"
  by (simp add: rocks_write_def)

lemma rocks_write_state:
  "rocks_write (map (\<lambda>(k, v). case v of Some v \<Rightarrow> Put_State k v | None \<Rightarrow> Delete_State k) cs) db
     = db\<lparr>state_cf := batch_apply cs (state_cf db)\<rparr>"
  by (induction cs arbitrary: db) (auto simp: rocks_write_def batch_apply_def split: option.splits)

lemma rocks_write_versioning:
  "rocks_write (versioning_ops cs) db = db\<lparr>versioning_cf := batch_apply cs (versioning_cf db)\<rparr>"
  by (induction cs arbitrary: db)
    (auto simp: rocks_write_def batch_apply_def versioning_ops_def split: option.splits)

lemma rocks_write_metadata:
  "rocks_write (Put_Change_Id c # ops) db = rocks_write ops (db\<lparr>meta_change_id := Some c\<rparr>)"
  "rocks_write (Put_State_Hash h # ops) db = rocks_write ops (db\<lparr>meta_state_hash := Some h\<rparr>)"
  "rocks_write [] db = db"
  by (simp_all add: rocks_write_def)

section \<open>What a write does\<close>

definition keep_last :: "nat \<Rightarrow> 'a list \<Rightarrow> 'a list" where
  "keep_last n xs = drop (length xs - n) xs"

lemma trim_history_eq:
  "trim_history n (hist, sizes) = (keep_last n hist, drop (length hist - n) sizes)"
proof (induction n "(hist, sizes)" arbitrary: hist sizes rule: trim_history.induct)
  case (1 n hist sizes)
  show ?case
  proof (cases "n < length hist")
    case True
    then obtain m where "length hist - n = Suc m" "length hist - Suc n = m" by (metis Suc_diff_Suc)
    with True 1 show ?thesis
      by (subst trim_history.simps) (simp add: keep_last_def drop_Suc)
  qed (subst trim_history.simps, simp add: keep_last_def)
qed

definition written_change_id :: "'c option \<Rightarrow> 'c \<Rightarrow> 'c" where
  "written_change_id change_id cur = (case change_id of Some c \<Rightarrow> c | None \<Rightarrow> cur)"

lemma write_changes_refused:
  assumes "meta_change_id db = Some cur" "c < cur"
  shows "write_changes xof wb_size cs vcs (Some c) r db
    = Inl (InvalidChangeID ''change_id should monotonically increase after every write'')"
  using assms by (simp add: write_changes_def get_change_id_def result_simps)

lemma fill_commit:
  fixes db :: "'c::linorder massa_db"
  assumes "fold (state_change_step xof (state_cf db)) cs ([] :: 'c write_op list, get_xof_db_hash db) = (ops, h)"
  obtains sizes where
    "commit_current_batch (fill_current_batch xof wb_size cs vcs change_id cur db)
     = db\<lparr>state_cf := batch_apply cs (state_cf db), versioning_cf := batch_apply vcs (versioning_cf db),
          meta_change_id := (case change_id of Some c \<Rightarrow> Some c | None \<Rightarrow> meta_change_id db),
          meta_state_hash := Some h, current_batch := [], change_history_sizes := sizes\<rparr>"
proof -
  have ops: "ops = map (\<lambda>(k, v). case v of Some v \<Rightarrow> Put_State k v | None \<Rightarrow> Delete_State k) cs"
    using fold_state_change_step_ops [of xof "state_cf db" cs "[] :: 'c write_op list" "get_xof_db_hash db"] assms
    by simp
  define sizes where "sizes = (if enable_metrics (config db)
    then record_sizes cur (wb_size ops) (wb_size (ops @ versioning_ops vcs) - wb_size ops) (change_history_sizes db)
    else change_history_sizes db)"
  show ?thesis
    by (rule that [of sizes], cases change_id)
      (simp_all add: sizes_def Let_def fill_current_batch_def assms commit_current_batch_def set_change_id_to_batch_def
        rocks_write_append ops rocks_write_state rocks_write_versioning rocks_write_metadata)
qed

lemma record_history_eq:
  obtains sizes where
    "record_history cs vcs r c db = db\<lparr>
       change_history := (if r then [] else keep_last (max_history_length (config db)) (record_changes c cs (change_history db))),
       change_history_versioning := (if r then []
         else keep_last (max_history_length (config db)) (record_changes c vcs (change_history_versioning db))),
       change_history_sizes := sizes\<rparr>"
  by (rule that [of "if r then [] else drop (length (record_changes c cs (change_history db))
        - max_history_length (config db)) (change_history_sizes db)"])
    (simp add: record_history_def trim_history_eq keep_last_def Let_def del: trim_history.simps)

lemma write_changes_ok:
  fixes db :: "'c::linorder massa_db"
  assumes cur: "meta_change_id db = Some cur"
    and ge: "cur \<le> written_change_id change_id cur"
  defines "c \<equiv> written_change_id change_id cur"
  obtains db' where
    "write_changes xof wb_size cs vcs change_id r db = Inr db'"
    "state_cf db' = batch_apply cs (state_cf db)"
    "versioning_cf db' = batch_apply vcs (versioning_cf db)"
    "meta_change_id db' = Some c"
    "meta_state_hash db' =
       Some (snd (fold (state_change_step xof (state_cf db)) cs ([] :: 'c write_op list, get_xof_db_hash db)))"
    "config db' = config db"
    "change_history db' = (if r then []
       else keep_last (max_history_length (config db)) (record_changes c cs (change_history db)))"
    "change_history_versioning db' = (if r then []
       else keep_last (max_history_length (config db)) (record_changes c vcs (change_history_versioning db)))"
    "current_batch db' = []"
proof -
  have not_less: "\<not> (case change_id of Some c \<Rightarrow> c < cur | None \<Rightarrow> False)"
    using ge by (auto simp: written_change_id_def split: option.splits)
  have id: "(case change_id of Some c \<Rightarrow> Some c | None \<Rightarrow> meta_change_id db) = Some c"
    using cur by (simp add: c_def written_change_id_def split: option.splits)
  obtain ops h where fold: "fold (state_change_step xof (state_cf db)) cs ([] :: 'c write_op list, get_xof_db_hash db) = (ops, h)"
    by (metis surj_pair)
  let ?d = "commit_current_batch (fill_current_batch xof wb_size cs vcs change_id cur db)"
  have w: "write_changes xof wb_size cs vcs change_id r db = Inr (record_history cs vcs r c ?d)"
    using cur not_less id
    by (rule_tac fill_commit [OF fold, of wb_size vcs change_id cur])
      (simp add: write_changes_def get_change_id_def result_simps)
  show ?thesis
    by (rule fill_commit [OF fold, of wb_size vcs change_id cur],
        rule record_history_eq [of cs vcs r c ?d], rule that, rule w)
      (simp_all add: id fold)
qed

section \<open>The invariant of the database\<close>

text \<open>The value the history gives a key: the one of the latest batch that mentions it.\<close>

definition hist_lookup :: "('c, db_batch) btree \<Rightarrow> bytes \<Rightarrow> bytes option option" where
  "hist_lookup hist x =
     fold (\<lambda>(c, changes) acc. case bt_get changes x of Some ov \<Rightarrow> Some ov | None \<Rightarrow> acc) hist None"

definition hist_ok :: "('c::linorder, db_batch) btree \<Rightarrow> 'c \<Rightarrow> (bytes, bytes) btree \<Rightarrow> bool" where
  "hist_ok hist cur cf \<longleftrightarrow> bt_wf hist \<and> (\<forall>(c, changes) \<in> set hist. c \<le> cur \<and> bt_wf changes)
     \<and> (\<forall>x ov. hist_lookup hist x = Some ov \<longrightarrow> bt_get cf x = ov)"

definition db_wf :: "(bytes \<Rightarrow> hash_xof) \<Rightarrow> 'c::linorder massa_db \<Rightarrow> bool" where
  "db_wf xof db \<longleftrightarrow> bt_wf (state_cf db) \<and> bt_wf (versioning_cf db)
     \<and> (case meta_change_id db of None \<Rightarrow> False
        | Some cur \<Rightarrow> hist_ok (change_history db) cur (state_cf db)
                    \<and> hist_ok (change_history_versioning db) cur (versioning_cf db))
     \<and> get_xof_db_hash db = content_hash xof (state_cf db)"

lemma hist_lookup_Nil [simp]: "hist_lookup [] x = None"
  by (simp add: hist_lookup_def)

lemma hist_lookup_snoc:
  "hist_lookup (hist @ [(c, changes)]) x
     = (case bt_get changes x of Some ov \<Rightarrow> Some ov | None \<Rightarrow> hist_lookup hist x)"
  by (simp add: hist_lookup_def split: option.split)

lemma hist_lookup_append:
  "hist_lookup (a @ b) x = (case hist_lookup b x of Some ov \<Rightarrow> Some ov | None \<Rightarrow> hist_lookup a x)"
  by (induction b rule: rev_induct)
    (auto simp: hist_lookup_snoc simp flip: append_assoc split: option.splits)

lemma hist_lookup_eq_None: "hist_lookup hist x = None \<longleftrightarrow> (\<forall>(c, changes) \<in> set hist. bt_get changes x = None)"
  by (induction hist rule: rev_induct) (auto simp: hist_lookup_snoc split: option.splits)

lemma bt_wf_append: "bt_wf (a @ b) \<longleftrightarrow> bt_wf a \<and> bt_wf b \<and> (\<forall>k \<in> fst ` set a. \<forall>k' \<in> fst ` set b. k < k')"
  by (auto simp: bt_wf_def sorted_wrt_append)

lemma hist_ok_suffix: "hist_ok (a @ b) cur cf \<Longrightarrow> hist_ok b cur cf"
  by (fastforce simp: hist_ok_def bt_wf_append hist_lookup_append split: option.splits)

lemma keep_last_suffix: "\<exists>a. xs = a @ keep_last n xs"
  by (metis append_take_drop_id keep_last_def)

lemma hist_ok_keep_last: "hist_ok hist cur cf \<Longrightarrow> hist_ok (keep_last n hist) cur cf"
  by (metis hist_ok_suffix keep_last_suffix)

lemma hist_ok_Nil: "hist_ok [] cur cf"
  by (simp add: hist_ok_def)

lemma bt_insert_snoc: "\<forall>k' \<in> fst ` set m. k' < k \<Longrightarrow> bt_insert k v m = m @ [(k, v)]"
  by (induction k v m rule: bt_insert.induct) auto

lemma bt_insert_last: "\<forall>k' \<in> fst ` set m. k' < k \<Longrightarrow> bt_insert k v (m @ [(k, old)]) = m @ [(k, v)]"
  by (induction m) auto

text \<open>A write whose id is not below the ids of the history changes its end only.\<close>

lemma record_changes_cases:
  assumes "bt_wf hist" "\<forall>c' \<in> fst ` set hist. c' \<le> c"
  obtains (new) "record_changes c cs hist = hist @ [(c, cs)]" "\<forall>c' \<in> fst ` set hist. c' < c"
  | (merged) h old where "hist = h @ [(c, old)]" "record_changes c cs hist = h @ [(c, bt_extend old cs)]"
proof (cases "c \<in> fst ` set hist")
  case False
  then have "bt_get hist c = None" "\<forall>c' \<in> fst ` set hist. c' < c"
    using assms by (auto simp: bt_get_eq_None less_le)
  then show ?thesis by (intro new) (auto simp: record_changes_def bt_insert_snoc)
next
  case True
  then obtain h old t where hist: "hist = h @ (c, old) # t"
    by (auto dest: split_list)
  have t: "t = []"
    using assms by (cases t) (auto simp: hist bt_wf_append bt_wf_Cons)
  have below: "\<forall>c' \<in> fst ` set h. c' < c"
    using assms by (auto simp: hist bt_wf_append)
  have "bt_get hist c = Some old"
    using assms(1) by (simp add: bt_get_eq_Some hist)
  then have "record_changes c cs hist = h @ [(c, bt_extend old cs)]"
    by (simp add: record_changes_def hist t bt_insert_last [OF below])
  with hist t show ?thesis by (intro merged) simp_all
qed

lemma hist_ok_record:
  assumes ok: "hist_ok hist cur cf" and le: "cur \<le> c" and cs: "bt_wf cs"
  shows "hist_ok (record_changes c cs hist) c (batch_apply cs cf)"
proof -
  have wf: "bt_wf hist" "\<forall>c' \<in> fst ` set hist. c' \<le> c"
    using ok le by (fastforce simp: hist_ok_def)+
  show ?thesis
  proof (rule record_changes_cases [OF wf, of cs])
    assume "record_changes c cs hist = hist @ [(c, cs)]" "\<forall>c' \<in> fst ` set hist. c' < c"
    with ok wf cs show ?thesis
      by (auto simp: hist_ok_def bt_wf_append bt_wf_Cons hist_lookup_snoc bt_get_batch_apply less_imp_le
          split: option.splits)
  next
    fix h old
    assume *: "hist = h @ [(c, old)]" "record_changes c cs hist = h @ [(c, bt_extend old cs)]"
    with ok have old: "bt_wf old" by (auto simp: hist_ok_def)
    from * ok wf cs old show ?thesis
      by (auto simp: hist_ok_def bt_wf_append bt_wf_Cons hist_lookup_snoc bt_get_batch_apply
          bt_get_extend_bt split: option.splits)
  qed
qed

lemma write_changes_id_ge:
  assumes cur: "meta_change_id db = Some cur"
    and "write_changes xof wb_size cs vcs change_id r db = Inr db'"
  shows "cur \<le> written_change_id change_id cur"
  using assms write_changes_refused [OF cur, of _ xof wb_size cs vcs r]
  by (cases change_id) (auto simp: written_change_id_def not_less [symmetric])

lemma write_changes_db_wf:
  assumes "xof_fills xof" "db_wf xof db" "bt_wf cs" "bt_wf vcs"
    and "write_changes xof wb_size cs vcs change_id r db = Inr db'"
  shows "db_wf xof db'"
proof -
  obtain cur where cur: "meta_change_id db = Some cur"
    using assms(2) by (auto simp: db_wf_def split: option.splits)
  note ge = write_changes_id_ge [OF cur assms(5)]
  have h: "snd (fold (state_change_step xof (state_cf db)) cs ([] :: 'a write_op list, get_xof_db_hash db))
      = content_hash xof (batch_apply cs (state_cf db))"
    using fold_state_change_step_hash [OF assms(1), of "state_cf db" cs "state_cf db"] assms(2,3)
    by (simp add: db_wf_def bt_wf_distinct)
  show ?thesis
    by (rule write_changes_ok [OF cur ge, of xof wb_size cs vcs r])
      (use assms(2-5) ge cur h in \<open>auto simp: db_wf_def get_xof_db_hash_def hist_ok_Nil
        intro!: hist_ok_keep_last hist_ok_record split: option.splits\<close>)
qed

section \<open>Prefixes\<close>

definition has_prefix :: "bytes \<Rightarrow> bytes \<Rightarrow> bool" where
  "has_prefix p k \<longleftrightarrow> take (length p) k = p"

lemma has_prefix_ge: "has_prefix p k \<Longrightarrow> p \<le> k"
proof (induction p arbitrary: k)
  case (Cons b p)
  then show ?case by (cases k) (auto simp: has_prefix_def)
qed simp

text \<open>A key after the prefix in the order, but not starting with it, is after every key that does.\<close>

lemma has_prefix_contiguous: "p \<le> k \<Longrightarrow> \<not> has_prefix p k \<Longrightarrow> has_prefix p k' \<Longrightarrow> k' < k"
proof (induction p arbitrary: k k')
  case (Cons b p)
  then show ?case by (cases k; cases k') (auto simp: has_prefix_def)
qed (simp add: has_prefix_def)

lemma set_takeWhile_contiguous:
  fixes xs :: "('k::linorder \<times> 'v) list"
  assumes "sorted_wrt (<) (map fst xs)" "\<And>k k'. \<not> P k \<Longrightarrow> P k' \<Longrightarrow> k \<in> fst ` set xs \<Longrightarrow> k' < k"
  shows "fst ` set (takeWhile (\<lambda>e. P (fst e)) xs) = {k \<in> fst ` set xs. P k}"
  using assms
proof (induction xs)
  case (Cons e xs)
  have "P (fst e) \<or> (\<forall>k \<in> fst ` set xs. \<not> P k)"
  proof (rule ccontr)
    assume "\<not> (P (fst e) \<or> (\<forall>k \<in> fst ` set xs. \<not> P k))"
    then obtain x where "\<not> P (fst e)" "x \<in> set xs" "P (fst x)" by auto
    then show False
      using Cons.prems(1) Cons.prems(2) [of "fst e" "fst x"] by (auto dest: less_asym)
  qed
  moreover have "fst ` set (takeWhile (\<lambda>e. P (fst e)) xs) = {k \<in> fst ` set xs. P k}"
    using Cons.prems by (intro Cons.IH) auto
  ultimately show ?case by (cases "P (fst e)") auto
qed simp

lemma set_prefix_keys:
  assumes "bt_wf cf"
  shows "set (prefix_keys p cf) = {k \<in> fst ` set cf. has_prefix p k}"
proof -
  have drop: "fst ` set (dropWhile (\<lambda>e. fst e < p) cf) = {k \<in> fst ` set cf. p \<le> k}"
    using assms
  proof (induction cf)
    case (Cons e cf)
    obtain k v where e: "e = (k, v)" by (cases e)
    have "\<not> k < p \<Longrightarrow> \<forall>k' \<in> fst ` set cf. p \<le> k'"
      using Cons.prems by (auto simp: e bt_wf_Cons)
    with Cons show ?case by (cases "k < p") (auto simp: e bt_wf_Cons)
  qed simp
  have "sorted_wrt (<) (map fst (dropWhile (\<lambda>e. fst e < p) cf))"
    using assms by (induction cf) (auto simp: bt_wf_def)
  then have "fst ` set (takeWhile (\<lambda>e. has_prefix p (fst e)) (dropWhile (\<lambda>e. fst e < p) cf))
      = {k \<in> {k \<in> fst ` set cf. p \<le> k}. has_prefix p k}"
    unfolding drop [symmetric]
    by (rule set_takeWhile_contiguous) (use drop has_prefix_contiguous in blast)
  moreover have "prefix_keys p cf
      = map fst (takeWhile (\<lambda>e. has_prefix p (fst e)) (dropWhile (\<lambda>e. fst e < p) cf))"
    by (simp add: prefix_keys_def has_prefix_def case_prod_unfold)
  ultimately show ?thesis by (auto dest: has_prefix_ge)
qed

lemma bt_wf_delete_keys: "bt_wf b \<Longrightarrow> bt_wf (fold (\<lambda>k b. delete_key b k) ks b)"
  by (induction ks arbitrary: b) (auto simp: delete_key_def)

lemma bt_get_delete_keys:
  "bt_get (fold (\<lambda>k b. delete_key b k) ks b) k = (if k \<in> set ks then Some None else bt_get b k)"
  by (induction ks arbitrary: b) (auto simp: delete_key_def bt_get_insert)

section \<open>The hash input determines the slices\<close>

lemma tuple_preimage_inj:
  assumes "\<forall>d \<in> set ds. length d < 2 ^ 64" "\<forall>d \<in> set ds'. length d < 2 ^ 64"
    and "tuple_preimage ds = tuple_preimage ds'"
  shows "ds = ds'"
  using assms
proof (induction ds arbitrary: ds')
  case Nil
  then have "length (tuple_preimage ds') = 0" by (simp add: tuple_preimage_def)
  then show ?case by (cases ds') (auto simp: tuple_preimage_def simp del: length_0_conv)
next
  case (Cons d ds)
  have "length (tuple_preimage ds') \<noteq> 0"
    unfolding Cons.prems(3) [symmetric] by (simp add: tuple_preimage_def del: length_0_conv)
  then obtain e es where ds': "ds' = e # es"
    by (cases ds') (auto simp: tuple_preimage_def)
  have eq: "u64_to_be_bytes (of_nat (length d)) @ d @ tuple_preimage ds
      = u64_to_be_bytes (of_nat (length e)) @ e @ tuple_preimage es"
    using Cons.prems(3) by (simp add: ds' tuple_preimage_def)
  then have "u64_to_be_bytes (of_nat (length d)) = u64_to_be_bytes (of_nat (length e))"
    by (simp add: append_eq_append_conv)
  then have "(of_nat (length d) :: u64) = of_nat (length e)"
    by (metis u64_from_to_be_bytes)
  then have "length d = length e"
    using Cons.prems(1,2) by (simp add: ds' word_eq_iff_unat unat_of_nat)
  then show ?case
    using eq Cons by (auto simp: ds')
qed

section \<open>Properties\<close>

text \<open>C2. The state hash that \<open>write_changes\<close> maintains incrementally, by XOR of the hashes of the
  replaced, deleted and new entries, is after every accepted write the hash computed from scratch over
  the whole state, and the write changes the two column families exactly as its two batches say. Only
  the output length of the hash function is used.\<close>

theorem write_changes_hash_and_content:
  assumes "xof_fills xof" "db_wf xof db" "bt_wf changes" "bt_wf versioning_changes"
    and "write_changes xof wb_size changes versioning_changes change_id reset_history db = Inr db'"
  shows "get_xof_db_hash db' = content_hash xof (state_cf db')
    \<and> (\<forall>k. bt_get (state_cf db') k
         = (case bt_get changes k of Some ov \<Rightarrow> ov | None \<Rightarrow> bt_get (state_cf db) k))
    \<and> (\<forall>k. bt_get (versioning_cf db') k
         = (case bt_get versioning_changes k of Some ov \<Rightarrow> ov | None \<Rightarrow> bt_get (versioning_cf db) k))"
proof -
  obtain cur where cur: "meta_change_id db = Some cur"
    using assms(2) by (auto simp: db_wf_def split: option.splits)
  have ge: "cur \<le> written_change_id change_id cur"
    by (rule write_changes_id_ge [OF cur assms(5)])
  have "state_cf db' = batch_apply changes (state_cf db)"
    "versioning_cf db' = batch_apply versioning_changes (versioning_cf db)"
    by (rule write_changes_ok [OF cur ge, of xof wb_size changes versioning_changes reset_history],
        use assms in simp)+
  then show ?thesis
    using write_changes_db_wf [OF assms] assms(3,4) by (simp add: db_wf_def bt_get_batch_apply)
qed

definition example_xof :: "bytes \<Rightarrow> hash_xof" where
  "example_xof d = replicate HASH_XOF_SIZE_BYTES (of_nat (length d))"

definition example_config :: massa_db_config where
  "example_config = \<lparr>max_history_length = 3, max_versioning_elements_size = 1000,
     max_final_state_elements_size = 1000, enable_metrics = True\<rparr>"

definition example_db :: "(bytes, bytes) btree \<Rightarrow> 'c \<Rightarrow> 'c massa_db" where
  "example_db m c = \<lparr>state_cf = m, versioning_cf = [], meta_change_id = Some c,
     meta_state_hash = Some (content_hash example_xof m), config = example_config,
     change_history = [], change_history_versioning = [], current_batch = [], change_history_sizes = []\<rparr>"

lemma example_xof_fills: "xof_fills example_xof"
  by (simp add: xof_fills_def example_xof_def)

lemma example_db_wf: "bt_wf m \<Longrightarrow> db_wf example_xof (example_db m c)"
  by (simp add: db_wf_def example_db_def hist_ok_Nil get_xof_db_hash_def)

theorem write_changes_hash_and_content_witness:
  "\<exists>db'. write_changes example_xof length [([1], Some [5]), ([2], None)] [] (Some (7::nat)) False
      (example_db [([1], [3]), ([2], [4])] 6) = Inr db'
    \<and> get_xof_db_hash db' = content_hash example_xof (state_cf db')
    \<and> bt_get (state_cf db') [1] = Some [5] \<and> bt_get (state_cf db') [2] = None"
proof -
  let ?db = "example_db [([1], [3]), ([2], [4])] 6 :: nat massa_db"
  obtain db' where w: "write_changes example_xof length [([1], Some [5]), ([2], None)] [] (Some (7::nat)) False ?db = Inr db'"
    by (rule write_changes_ok [of ?db 6 "Some 7"]) (auto simp: example_db_def written_change_id_def)
  have wf: "db_wf example_xof ?db" by (rule example_db_wf) (simp add: bt_wf_Cons)
  from write_changes_hash_and_content [OF example_xof_fills wf _ _ w] w
  show ?thesis by (simp add: bt_wf_Cons)
qed

text \<open>C14. \<open>delete_prefix\<close> removes from the chosen column family exactly the keys that start with the
  prefix, although it stops iterating at the first key without it; nothing else changes.\<close>

theorem delete_prefix_exact:
  assumes "meta_change_id db = Some cur" "cur \<le> written_change_id change_id cur"
    and "bt_wf (state_cf db)" "bt_wf (versioning_cf db)"
  shows "\<exists>db'. delete_prefix xof wb_size p cf change_id db = Inr db'
    \<and> (\<forall>k. bt_get (state_cf db') k = (if cf = STATE_CF \<and> has_prefix p k then None else bt_get (state_cf db) k))
    \<and> (\<forall>k. bt_get (versioning_cf db') k
         = (if cf = VERSIONING_CF \<and> has_prefix p k then None else bt_get (versioning_cf db) k))"
proof -
  define b :: "(bytes, bytes) btree \<Rightarrow> db_batch" where "b m = fold (\<lambda>k b. delete_key b k) (prefix_keys p m) []" for m
  have get: "bt_get (batch_apply (b m) m) k = (if has_prefix p k then None else bt_get m k)"
    if "bt_wf m" for m k
    using bt_get_batch_apply [of "b m" m k] that
    by (auto simp: b_def bt_wf_delete_keys bt_get_delete_keys set_prefix_keys bt_get_eq_None)
  show ?thesis
  proof (cases cf)
    case STATE_CF
    show ?thesis
      by (rule write_changes_ok [OF assms(1,2), of xof wb_size "b (state_cf db)" "[]" False])
        (use assms get STATE_CF in \<open>auto simp: delete_prefix_def write_batch_def result_simps b_def [symmetric]
          batch_apply_def [of "[]"]\<close>)
  next
    case VERSIONING_CF
    show ?thesis
      by (rule write_changes_ok [OF assms(1,2), of xof wb_size "[]" "b (versioning_cf db)" False])
        (use assms get VERSIONING_CF in \<open>auto simp: delete_prefix_def write_batch_def result_simps b_def [symmetric]
          batch_apply_def [of "[]"]\<close>)
  qed
qed

theorem delete_prefix_exact_witness:
  "\<exists>db'. delete_prefix example_xof length [1, 2] STATE_CF None
      (example_db [([1], [0]), ([1, 2], [1]), ([1, 2, 3], [2]), ([1, 3], [3])] (6::nat)) = Inr db'
    \<and> bt_get (state_cf db') [1, 2, 3] = None \<and> bt_get (state_cf db') [1, 3] = Some [3]"
  using delete_prefix_exact [of "example_db [([1], [0]), ([1, 2], [1]), ([1, 2, 3], [2]), ([1, 3], [3])] (6::nat)"
      6 None example_xof length "[1, 2]" STATE_CF]
  by (auto simp: example_db_def written_change_id_def bt_wf_Cons has_prefix_def)

text \<open>C15. The bytes hashed for a tuple of slices determine the slices: no two different tuples are
  hashed from the same input, so a collision of state hashes entries is a collision of BLAKE3.\<close>

theorem compute_from_tuple_collision:
  assumes "\<forall>d \<in> set ds. length d < 2 ^ 64" "\<forall>d \<in> set ds'. length d < 2 ^ 64"
    and "ds \<noteq> ds'" "compute_from_tuple xof ds = compute_from_tuple xof ds'"
  shows "\<exists>a b. a \<noteq> b \<and> xof a = xof b \<and> a = tuple_preimage ds \<and> b = tuple_preimage ds'"
  using assms tuple_preimage_inj [OF assms(1,2)] by (auto simp: compute_from_tuple_def)

theorem compute_from_tuple_collision_witness:
  "\<exists>a b. a \<noteq> b \<and> example_xof a = example_xof b
     \<and> a = tuple_preimage [[1], [2, 3]] \<and> b = tuple_preimage [[1, 2], [3]]"
  by (rule compute_from_tuple_collision)
    (simp_all add: compute_from_tuple_def example_xof_def tuple_preimage_def)

end
