(* ===== verification/Massa_Slot.thy ===== *)
theory Massa_Slot
  imports Massa_Bytes
begin

text \<open>
  \<^verbatim>\<open>massa-models/src/slot.rs\<close>: the slot, its order, its position in cycles, its sortable
  key and the slot arithmetic (next, previous, distance, skip).  The arithmetic is related
  to the global slot number \<open>slot_index\<close>, which counts the slots of all threads in order.
  A Rust panic (division by a zero thread count or cycle length) is the error \<open>Panic\<close>.
\<close>

section \<open>Slots\<close>

datatype slot = Slot (period: u64) (thread: u8)

datatype time_error =
    ConversionError
  | TimeErrorOverflow
  | CheckedOperationError string

datatype models_error =
    PeriodOverflowError
  | ThreadOverflowError
  | TimeOverflowError
  | TimeError time_error
  | DeserializeError string
  | AmountParseError string
  | ErrorRaised string
  | Panic

instantiation slot :: linorder
begin

definition less_eq_slot :: "slot \<Rightarrow> slot \<Rightarrow> bool" where
  "less_eq_slot s t \<longleftrightarrow> period s < period t \<or> period s = period t \<and> thread s \<le> thread t"

definition less_slot :: "slot \<Rightarrow> slot \<Rightarrow> bool" where
  "less_slot s t \<longleftrightarrow> period s < period t \<or> period s = period t \<and> thread s < thread t"

instance
  by intro_classes (auto simp: less_eq_slot_def less_slot_def intro: slot.expand)

end

definition new_last_of_cycle :: "u64 \<Rightarrow> u64 \<Rightarrow> u8 \<Rightarrow> models_error + slot" where
  "new_last_of_cycle cycle periods_per_cycle thread_count =
     rbind (ok_or (checked_mul cycle periods_per_cycle) PeriodOverflowError) (\<lambda>p.
     rbind (ok_or (checked_add p (saturating_sub periods_per_cycle 1)) PeriodOverflowError) (\<lambda>p'.
     Inr (Slot p' (saturating_sub thread_count 1))))"

definition new_first_of_cycle :: "u64 \<Rightarrow> u64 \<Rightarrow> models_error + slot" where
  "new_first_of_cycle cycle periods_per_cycle =
     rbind (ok_or (checked_mul cycle periods_per_cycle) PeriodOverflowError) (\<lambda>p. Inr (Slot p 0))"

definition slot_min :: slot where
  "slot_min = Slot 0 0"

definition slot_max :: "u8 \<Rightarrow> slot" where
  "slot_max thread_count = Slot max_word_of (saturating_sub thread_count 1)"

definition get_cycle :: "slot \<Rightarrow> u64 \<Rightarrow> models_error + u64" where
  "get_cycle s periods_per_cycle =
     (if periods_per_cycle = 0 then Inl Panic else Inr (period s div periods_per_cycle))"

definition is_last_of_cycle :: "slot \<Rightarrow> u64 \<Rightarrow> u8 \<Rightarrow> models_error + bool" where
  "is_last_of_cycle s periods_per_cycle thread_count =
     (if periods_per_cycle = 0 then Inl Panic
      else Inr (period s mod periods_per_cycle = saturating_sub periods_per_cycle 1
                \<and> thread s = saturating_sub thread_count 1))"

definition is_multiple_of :: "u64 \<Rightarrow> u64 \<Rightarrow> bool" where
  "is_multiple_of x m = (if m = 0 then x = 0 else x mod m = 0)"

definition is_first_of_cycle :: "slot \<Rightarrow> u64 \<Rightarrow> bool" where
  "is_first_of_cycle s periods_per_cycle \<longleftrightarrow>
     is_multiple_of (period s) periods_per_cycle \<and> thread s = 0"

definition to_bytes_key :: "slot \<Rightarrow> bytes" where
  "to_bytes_key s = u64_to_be_bytes (period s) @ [thread s]"

definition from_bytes_key :: "bytes \<Rightarrow> slot" where
  "from_bytes_key buffer = Slot (u64_from_be_bytes (take 8 buffer)) (buffer ! 8)"

definition get_next_slot :: "slot \<Rightarrow> u8 \<Rightarrow> models_error + slot" where
  "get_next_slot s thread_count =
     (if thread_count \<le> saturating_add (thread s) 1
      then rbind (ok_or (checked_add (period s) 1) PeriodOverflowError) (\<lambda>p. Inr (Slot p 0))
      else rbind (ok_or (checked_add (thread s) 1) ThreadOverflowError)
             (\<lambda>t. Inr (Slot (period s) t)))"

definition get_prev_slot :: "slot \<Rightarrow> u8 \<Rightarrow> models_error + slot" where
  "get_prev_slot s thread_count =
     (case checked_sub (thread s) 1 of
        Some t \<Rightarrow> Inr (Slot (period s) t)
      | None \<Rightarrow> rbind (ok_or (checked_sub (period s) 1) PeriodOverflowError)
                  (\<lambda>p. Inr (Slot p (saturating_sub thread_count 1))))"

definition slots_since :: "slot \<Rightarrow> slot \<Rightarrow> u8 \<Rightarrow> models_error + u64" where
  "slots_since self s thread_count =
     (if s > self then Inl PeriodOverflowError
      else rbind (ok_or (checked_mul (period self - period s) (u8_to_u64 thread_count)) PeriodOverflowError) (\<lambda>n.
           rbind (ok_or (checked_add n (u8_to_u64 (thread self))) PeriodOverflowError) (\<lambda>n'.
           Inr (saturating_sub n' (u8_to_u64 (thread s))))))"

definition skip :: "slot \<Rightarrow> u64 \<Rightarrow> u8 \<Rightarrow> models_error + slot" where
  "skip s n thread_count =
     (if thread_count = 0 then Inl Panic
      else rbind (ok_or (checked_add (period s) (n div u8_to_u64 thread_count)) PeriodOverflowError) (\<lambda>res_period.
           rbind (ok_or (checked_add (u8_to_u64 (thread s)) (n mod u8_to_u64 thread_count)) ThreadOverflowError) (\<lambda>res_thread.
           if u8_to_u64 thread_count \<le> res_thread
           then rbind (ok_or (checked_add res_period 1) PeriodOverflowError) (\<lambda>res_period'.
                Inr (Slot res_period' (ucast (res_thread - u8_to_u64 thread_count))))
           else Inr (Slot res_period (ucast res_thread)))))"

section \<open>The global slot number\<close>

definition slot_wf :: "u8 \<Rightarrow> slot \<Rightarrow> bool" where
  "slot_wf thread_count s \<longleftrightarrow> thread s < thread_count"

definition slot_index :: "u8 \<Rightarrow> slot \<Rightarrow> nat" where
  "slot_index thread_count s = unat (period s) * unat thread_count + unat (thread s)"

lemma slot_index_less_iff:
  assumes "slot_wf tc s" "slot_wf tc t"
  shows "slot_index tc s < slot_index tc t \<longleftrightarrow> s < t"
proof -
  have th: "unat (thread s) < unat tc" "unat (thread t) < unat tc"
    using assms by (simp_all add: slot_wf_def word_less_nat_alt)
  have gap: "a * unat tc + c < b * unat tc + d" if "a < b" "c < unat tc" for a b c d :: nat
  proof -
    have "a * unat tc + c < (a + 1) * unat tc" using that(2) by simp
    also have "\<dots> \<le> b * unat tc" using that(1) by (intro mult_right_mono) auto
    finally show ?thesis by simp
  qed
  consider "unat (period s) < unat (period t)" | "period s = period t"
    | "unat (period t) < unat (period s)"
    by (metis linorder_neqE_nat word_eq_iff_unat)
  then show ?thesis
  proof cases
    case 1
    then show ?thesis using gap [OF 1 th(1)]
      by (simp add: slot_index_def less_slot_def word_less_nat_alt)
  next
    case 2
    then show ?thesis by (simp add: slot_index_def less_slot_def word_less_nat_alt)
  next
    case 3
    then show ?thesis using gap [OF 3 th(2), of "unat (thread s)"]
      by (auto simp: slot_index_def less_slot_def word_less_nat_alt)
  qed
qed

lemma slot_index_le_iff:
  "slot_wf tc s \<Longrightarrow> slot_wf tc t \<Longrightarrow> slot_index tc s \<le> slot_index tc t \<longleftrightarrow> s \<le> t"
  by (meson linorder_not_le slot_index_less_iff)

lemma slot_index_inject:
  "slot_wf tc s \<Longrightarrow> slot_wf tc t \<Longrightarrow> slot_index tc s = slot_index tc t \<longleftrightarrow> s = t"
  by (metis linorder_neqE nat_less_le slot_index_less_iff)

lemma unat_saturating_sub_one: "unat (saturating_sub w (1 :: 'a::len word)) = unat w - 1"
  by (simp add: unat_saturating_sub)

lemma unat_lt_imp_pos: "unat (a :: 'a::len word) < unat b \<Longrightarrow> 0 < unat b"
  by simp

text \<open>Next and previous move the slot number by one; the only error is the end of time.\<close>

lemma get_next_slot_index:
  assumes "slot_wf tc s" "get_next_slot s tc = Inr t"
  shows "slot_wf tc t \<and> slot_index tc t = slot_index tc s + 1"
proof -
  have th: "unat (thread s) < unat tc"
    using assms(1) by (simp add: slot_wf_def word_less_nat_alt)
  show ?thesis
  proof (cases "tc \<le> saturating_add (thread s) 1")
    case True
    then have "unat tc \<le> unat (thread s) + 1"
      by (simp add: word_le_nat_alt unat_saturating_add)
    with th have tc: "unat tc = unat (thread s) + 1" by simp
    obtain p where "unat p = unat (period s) + 1" "t = Slot p 0"
      using True assms(2) by (auto simp: get_next_slot_def result_simps word_simps)
    with tc show ?thesis
      by (simp add: slot_wf_def slot_index_def word_less_nat_alt algebra_simps)
  next
    case False
    then have lt: "min (unat (thread s) + 1) 255 < unat tc"
      by (simp add: word_le_nat_alt unat_saturating_add)
    obtain t' where t': "unat t' = unat (thread s) + 1" "t = Slot (period s) t'"
      using False assms(2) by (auto simp: get_next_slot_def result_simps word_simps)
    have "unat (thread s) + 1 < unat tc"
      using lt u8_less_256 [of tc] u8_less_256 [of t'] t'(1) by linarith
    with t' show ?thesis
      by (simp add: slot_wf_def slot_index_def word_less_nat_alt)
  qed
qed

lemma get_next_slot_total:
  assumes "slot_wf tc s"
  shows "(\<exists>t. get_next_slot s tc = Inr t)
    \<or> get_next_slot s tc = Inl PeriodOverflowError \<and> s = slot_max tc"
proof (cases "tc \<le> saturating_add (thread s) 1")
  case True
  have th: "unat (thread s) < unat tc"
    using assms by (simp add: slot_wf_def word_less_nat_alt)
  show ?thesis
  proof (cases "checked_add (period s) 1")
    case None
    then have "unat (period s) = 2 ^ 64 - 1"
      using u64_less_2p64 [of "period s"] by (simp add: word_simps)
    moreover have "unat (thread s) = unat (saturating_sub tc 1)"
      using True th by (simp add: word_le_nat_alt unat_saturating_add unat_saturating_sub_one)
    ultimately have "s = slot_max tc"
      by (intro slot.expand) (simp add: slot_max_def word_eq_iff_unat unat_max_word_of)
    with True None show ?thesis by (simp add: get_next_slot_def)
  qed (use True in \<open>simp add: get_next_slot_def\<close>)
next
  case False
  have "unat (thread s) + 1 < 256"
  proof (rule ccontr)
    assume "\<not> ?thesis"
    then have "unat (saturating_add (thread s) 1) = 255"
      by (simp add: unat_saturating_add)
    with False u8_less_256 [of tc] show False by (simp add: word_le_nat_alt)
  qed
  with False show ?thesis by (simp add: get_next_slot_def checked_add_def)
qed

lemma get_prev_slot_index:
  assumes "slot_wf tc s" "get_prev_slot s tc = Inr t"
  shows "slot_wf tc t \<and> slot_index tc t + 1 = slot_index tc s"
proof -
  have th: "unat (thread s) < unat tc"
    using assms(1) by (simp add: slot_wf_def word_less_nat_alt)
  show ?thesis
  proof (cases "checked_sub (thread s) 1")
    case None
    then have "unat (thread s) = 0" by (simp add: word_simps)
    moreover obtain p where "unat (period s) = 1 + unat p" "t = Slot p (saturating_sub tc 1)"
      using assms(2) by (auto simp: get_prev_slot_def None result_simps checked_sub_eq_Some)
    ultimately show ?thesis using th
      by (simp add: slot_wf_def slot_index_def word_less_nat_alt unat_saturating_sub_one
          algebra_simps)
  next
    case (Some t')
    then have "unat (thread s) = 1 + unat t'" by (simp add: word_simps)
    with Some th assms(2) show ?thesis
      by (auto simp: get_prev_slot_def slot_wf_def slot_index_def word_less_nat_alt)
  qed
qed

lemma get_prev_slot_error:
  "get_prev_slot s tc = Inl e \<longleftrightarrow> s = slot_min \<and> e = PeriodOverflowError"
  by (cases s) (auto simp: get_prev_slot_def slot_min_def result_simps word_simps
      checked_sub_def word_le_nat_alt word_eq_iff_unat split: option.splits if_splits)


text \<open>The distance of two slots, where it does not overflow, is the difference of the numbers.\<close>

lemma slots_since_ok:
  assumes "s \<le> u" "slot_wf tc s" "slot_wf tc u" "slots_since u s tc = Inr n"
  shows "slot_index tc s + unat n = slot_index tc u"
proof -
  have le: "slot_index tc s \<le> slot_index tc u"
    using assms(1-3) by (simp add: slot_index_le_iff)
  have p: "period s \<le> period u"
    using assms(1) by (auto simp: less_eq_slot_def)
  obtain m k where "checked_mul (period u - period s) (u8_to_u64 tc) = Some m"
    and "checked_add m (u8_to_u64 (thread u)) = Some k"
    and "n = saturating_sub k (u8_to_u64 (thread s))"
    using assms(1,4) by (auto simp: slots_since_def result_simps split: if_splits)
  then have m: "unat (period u - period s) * unat tc = unat m"
    and k: "unat m + unat (thread u) = unat k" and n: "unat n = unat k - unat (thread s)"
    by (simp_all add: word_simps)
  have "unat m = unat (period u) * unat tc - unat (period s) * unat tc"
    using m p by (simp add: unat_sub_no_underflow diff_mult_distrib)
  moreover have "unat (period s) * unat tc \<le> unat (period u) * unat tc"
    using p by (simp add: word_le_nat_alt)
  ultimately show ?thesis
    using k n le by (simp add: slot_index_def)
qed

lemma slots_since_self: "slots_since s s tc = Inr 0"
proof -
  have "checked_mul (0 :: u64) (u8_to_u64 tc) = Some 0"
    and "checked_add 0 (u8_to_u64 (thread s)) = Some (u8_to_u64 (thread s))"
    by (simp_all add: word_simps)
  then show ?thesis by (simp add: slots_since_def word_eq_iff_unat unat_saturating_sub)
qed

lemma slots_since_total:
  assumes "s \<le> u" "slot_index tc u < 2 ^ 64"
  shows "\<exists>n. slots_since u s tc = Inr n"
proof -
  let ?d = "unat (period u - period s) * unat tc"
  have "period s \<le> period u" using assms(1) by (auto simp: less_eq_slot_def)
  then have "?d \<le> unat (period u) * unat tc"
    by (intro mult_le_mono1) (simp add: unat_sub_no_underflow)
  then have bound: "?d + unat (thread u) < 2 ^ 64"
    using assms(2) unfolding slot_index_def by linarith
  then have mul: "checked_mul (period u - period s) (u8_to_u64 tc)
      = Some ((period u - period s) * u8_to_u64 tc)"
    by (simp add: checked_mul_def)
  have "unat ((period u - period s) * u8_to_u64 tc) = ?d"
    using bound by (subst unat_mul_no_overflow) simp_all
  with bound have "checked_add ((period u - period s) * u8_to_u64 tc) (u8_to_u64 (thread u)) \<noteq> None"
    by (simp add: word_simps)
  with mul assms(1) show ?thesis
    by (auto simp: slots_since_def not_less [symmetric])
qed

lemma unat_ucast_u8: "unat (x :: u64) < 256 \<Longrightarrow> unat (ucast x :: u8) = unat x"
  by (simp add: unsigned_ucast_eq take_bit_nat_eq_self)

text \<open>Skipping \<open>n\<close> slots adds \<open>n\<close> to the slot number.\<close>

lemma skip_index:
  assumes "slot_wf tc s" "skip s n tc = Inr t"
  shows "slot_wf tc t \<and> slot_index tc t = slot_index tc s + unat n"
proof -
  let ?c = "unat tc"
  have th: "unat (thread s) < ?c"
    using assms(1) by (simp add: slot_wf_def word_less_nat_alt)
  then have c0: "tc \<noteq> 0" by auto
  obtain k m where n: "unat n = k * ?c + m" and k: "unat n div ?c = k" and m: "unat n mod ?c = m"
    by (metis div_mult_mod_eq)
  obtain rp rt where rp: "unat rp = unat (period s) + k" and rt: "unat rt = unat (thread s) + m"
    and t: "(if u8_to_u64 tc \<le> rt
      then rbind (ok_or (checked_add rp 1) PeriodOverflowError)
        (\<lambda>rp'. Inr (Slot rp' (ucast (rt - u8_to_u64 tc))))
      else Inr (Slot rp (ucast rt))) = Inr t"
    using assms(2) c0
    by (auto simp: skip_def result_simps word_simps unat_div unat_mod k m simp del: if_split)
  have md: "m < ?c" using th m by auto
  show ?thesis
  proof (cases "u8_to_u64 tc \<le> rt")
    case True
    then have le: "?c \<le> unat rt" by (simp add: word_le_nat_alt)
    have sub: "unat (rt - u8_to_u64 tc) = unat rt - ?c"
      using True by (simp add: unat_sub_no_underflow)
    have lt: "unat rt - ?c < ?c" using rt th md by linarith
    have "unat (ucast (rt - u8_to_u64 tc) :: u8) = unat rt - ?c"
      using lt sub u8_less_256 [of tc] by (subst unat_ucast_u8) linarith+
    moreover obtain rp' where "unat rp' = unat rp + 1" "t = Slot rp' (ucast (rt - u8_to_u64 tc))"
      using True t by (auto simp: result_simps word_simps)
    ultimately show ?thesis
      using lt le rp rt n by (simp add: slot_wf_def slot_index_def word_less_nat_alt algebra_simps)
  next
    case False
    then have lt: "unat rt < ?c" by (simp add: word_le_nat_alt)
    then have "unat (ucast rt :: u8) = unat rt"
      using u8_less_256 [of tc] by (intro unat_ucast_u8) linarith
    with False t lt rp rt n show ?thesis
      by (auto simp: slot_wf_def slot_index_def word_less_nat_alt algebra_simps)
  qed
qed

text \<open>Skipping by the distance of two slots goes from the one to the other.\<close>

lemma skip_slots_since:
  assumes "s \<le> u" "slot_wf tc s" "slot_wf tc u"
    and "slots_since u s tc = Inr n" "skip s n tc = Inr t"
  shows "t = u"
  using slots_since_ok [OF assms(1-4)] skip_index [OF assms(2,5)] assms(3)
  by (metis slot_index_inject)

lemma skip_total:
  assumes "slot_wf tc s" "unat (period s) + unat n div unat tc + 1 < 2 ^ 64"
  shows "\<exists>t. skip s n tc = Inr t"
proof -
  have c0: "tc \<noteq> 0" using assms(1) by (auto simp: slot_wf_def)
  define q where "q = n div u8_to_u64 tc"
  define r where "r = n mod u8_to_u64 tc"
  have q: "unat q = unat n div unat tc" and r: "unat r = unat n mod unat tc"
    by (simp_all add: q_def r_def unat_div unat_mod)
  have "unat tc \<noteq> 0" using c0 by (simp add: unat_eq_0)
  then have "unat r < 256" using r u8_less_256 [of tc]
    by (metis bot_nat_0.not_eq_extremum less_trans mod_less_divisor)
  then have "unat (thread s) + unat r < 2 ^ 64" using u8_less_256 [of "thread s"] by simp
  then obtain rt where "checked_add (u8_to_u64 (thread s)) r = Some rt"
    by (simp add: checked_add_def)
  moreover obtain rp where rp: "checked_add (period s) q = Some rp"
    using assms(2) q by (simp add: checked_add_def)
  moreover have "unat rp + 1 < 2 ^ 64"
    using rp assms(2) q by (simp add: word_simps)
  then obtain rp' where "checked_add rp 1 = Some rp'"
    by (simp add: checked_add_def)
  ultimately show ?thesis
    using c0 unfolding q_def r_def by (simp add: skip_def)
qed

section \<open>Sortable keys\<close>

lemma length_to_bytes_key [simp]: "length (to_bytes_key s) = 9"
  by (simp add: to_bytes_key_def)

lemma from_to_bytes_key: "from_bytes_key (to_bytes_key s) = s"
  by (simp add: to_bytes_key_def from_bytes_key_def nth_append)

lemma to_from_bytes_key:
  assumes "length bs = 9"
  shows "to_bytes_key (from_bytes_key bs) = bs"
proof -
  have "length (take 8 bs) = 8" using assms by simp
  then have "to_bytes_key (from_bytes_key bs) = take 8 bs @ [bs ! 8]"
    by (simp add: to_bytes_key_def from_bytes_key_def u64_to_from_be_bytes)
  also have "\<dots> = take (Suc 8) bs"
    using assms by (intro take_Suc_conv_app_nth [symmetric]) simp
  finally show ?thesis using assms by simp
qed

lemma to_bytes_key_less_iff: "to_bytes_key s < to_bytes_key t \<longleftrightarrow> s < t"
proof -
  have "u64_to_be_bytes (period s) < u64_to_be_bytes (period t) \<longleftrightarrow> period s < period t"
    using be_val_less_iff [of "u64_to_be_bytes (period s)" "u64_to_be_bytes (period t)"]
    by (simp add: word_less_nat_alt)
  moreover have "u64_to_be_bytes (period s) = u64_to_be_bytes (period t) \<longleftrightarrow> period s = period t"
    by (metis u64_from_to_be_bytes)
  ultimately show ?thesis
    by (simp add: to_bytes_key_def append_less_iff less_slot_def)
qed

section \<open>Cycles\<close>

lemma first_last_of_cycle:
  assumes "ppc \<noteq> 0" "tc \<noteq> 0"
    and "new_first_of_cycle c ppc = Inr f" "new_last_of_cycle c ppc tc = Inr l"
  shows "is_first_of_cycle f ppc" "is_last_of_cycle l ppc tc = Inr True"
    "get_cycle f ppc = Inr c" "get_cycle l ppc = Inr c"
    "slot_wf tc s \<Longrightarrow> f \<le> s \<and> s \<le> l \<longleftrightarrow> get_cycle s ppc = Inr c"
proof -
  let ?m = "unat ppc"
  have m0: "0 < ?m" and c0: "0 < unat tc" using assms(1,2) by (simp_all add: unat_gt_0)
  obtain p where f: "f = Slot p 0" and p: "unat p = unat c * ?m"
    using assms(3) by (auto simp: new_first_of_cycle_def result_simps word_simps)
  obtain q where l: "l = Slot q (saturating_sub tc 1)" and q: "unat q = unat c * ?m + (?m - 1)"
    using assms(4)
    by (auto simp: new_last_of_cycle_def result_simps word_simps unat_saturating_sub_one)
  have qd: "unat q div ?m = unat c"
    using q m0 by (simp only: nat_div_eq_iff_bounds) simp
  then have qm: "unat q mod ?m = ?m - 1"
    using q div_mult_mod_eq [of "unat q" ?m] by simp
  show "is_first_of_cycle f ppc"
    using f p by (simp add: is_first_of_cycle_def is_multiple_of_def word_eq_iff_unat unat_mod)
  show "is_last_of_cycle l ppc tc = Inr True"
    using l qm assms(1)
    by (simp add: is_last_of_cycle_def word_eq_iff_unat unat_mod unat_saturating_sub_one)
  show "get_cycle f ppc = Inr c"
    using f p m0 assms(1) by (simp add: get_cycle_def word_eq_iff_unat unat_div)
  show "get_cycle l ppc = Inr c"
    using l qd assms(1) by (simp add: get_cycle_def word_eq_iff_unat unat_div)
  show "f \<le> s \<and> s \<le> l \<longleftrightarrow> get_cycle s ppc = Inr c" if wf: "slot_wf tc s"
  proof -
    have "unat (thread s) \<le> unat tc - 1"
      using wf by (simp add: slot_wf_def word_less_nat_alt)
    then have "f \<le> s \<and> s \<le> l \<longleftrightarrow> unat p \<le> unat (period s) \<and> unat (period s) \<le> unat q"
      using f l by (auto simp: less_eq_slot_def word_less_nat_alt word_le_nat_alt
          unat_saturating_sub_one word_eq_iff_unat)
    also have "\<dots> \<longleftrightarrow> unat (period s) div ?m = unat c"
      using p q by (simp only: nat_div_eq_iff_bounds [OF m0])
    also have "\<dots> \<longleftrightarrow> get_cycle s ppc = Inr c"
      using assms(1) by (simp add: get_cycle_def word_eq_iff_unat unat_div)
    finally show ?thesis .
  qed
qed

section \<open>Properties\<close>

text \<open>C16. Slot arithmetic is arithmetic on slot numbers: for two slots in order, within the range of
  a 64-bit slot count, \<open>slots_since\<close> returns their distance and \<open>skip\<close>ping that many slots from the
  first one lands exactly on the second one.\<close>

theorem slots_since_skip_roundtrip:
  assumes "s \<le> u" "slot_wf tc s" "slot_wf tc u" "slot_index tc u + unat tc < 2 ^ 64"
  shows "\<exists>n. slots_since u s tc = Inr n \<and> unat n = slot_index tc u - slot_index tc s \<and> skip s n tc = Inr u"
proof -
  obtain n where n: "slots_since u s tc = Inr n"
    using slots_since_total [OF assms(1), of tc] assms(4) by auto
  have idx: "slot_index tc s + unat n = slot_index tc u" by (rule slots_since_ok [OF assms(1-3) n])
  have c: "0 < unat tc" using assms(2) by (auto simp: slot_wf_def word_less_nat_alt)
  have "unat (period s) + unat n div unat tc \<le> (unat (period s) * unat tc + unat n) div unat tc"
    using c by simp
  also have "\<dots> \<le> slot_index tc u div unat tc"
    using idx by (intro div_le_mono) (simp add: slot_index_def)
  also have "\<dots> \<le> slot_index tc u" by simp
  finally have "unat (period s) + unat n div unat tc + 1 < 2 ^ 64" using assms(4) c by simp
  then obtain t where t: "skip s n tc = Inr t" using skip_total [OF assms(2)] by blast
  then have "t = u" using skip_slots_since [OF assms(1-3) n] by blast
  with n t idx show ?thesis by (intro exI [of _ n]) simp
qed

theorem slots_since_skip_roundtrip_witness:
  "\<exists>n. slots_since (Slot 7 2) (Slot 5 31) 32 = Inr n \<and> unat n = 35 \<and> skip (Slot 5 31) n 32 = Inr (Slot 7 2)"
  using slots_since_skip_roundtrip [of "Slot 5 31" "Slot 7 2" 32]
  by (simp add: less_eq_slot_def slot_wf_def slot_index_def)

lemma get_next_slot_max:
  assumes "0 < unat tc"
  shows "get_next_slot (slot_max tc) tc = Inl PeriodOverflowError"
proof -
  have "checked_add (max_word_of :: u64) 1 = None" by (simp add: checked_add_def unat_max_word_of)
  moreover have "tc \<le> saturating_add (saturating_sub tc 1) 1"
    using assms u8_less_256 [of tc] by (simp add: word_le_nat_alt unat_saturating_add unat_saturating_sub)
  ultimately show ?thesis by (simp add: get_next_slot_def slot_max_def result_simps)
qed

text \<open>C17. The next and the previous slot change the slot number by one, and they are inverse to each
  other; the next slot exists for every slot but the last one, the previous one for every slot but the
  first one, and those two report a period overflow.\<close>

theorem next_prev_slot:
  assumes "slot_wf tc s"
  shows "(if s = slot_max tc then get_next_slot s tc = Inl PeriodOverflowError
          else \<exists>t. get_next_slot s tc = Inr t \<and> slot_wf tc t \<and> slot_index tc t = slot_index tc s + 1
                 \<and> get_prev_slot t tc = Inr s)
    \<and> (get_prev_slot s tc = Inl PeriodOverflowError \<longleftrightarrow> s = slot_min)"
proof
  show "get_prev_slot s tc = Inl PeriodOverflowError \<longleftrightarrow> s = slot_min"
    by (simp add: get_prev_slot_error)
  have tc: "0 < unat tc" using assms by (auto simp: slot_wf_def word_less_nat_alt)
  show "if s = slot_max tc then get_next_slot s tc = Inl PeriodOverflowError
          else \<exists>t. get_next_slot s tc = Inr t \<and> slot_wf tc t \<and> slot_index tc t = slot_index tc s + 1
                 \<and> get_prev_slot t tc = Inr s"
  proof (cases "\<exists>t. get_next_slot s tc = Inr t")
    case True
    then obtain t where t: "get_next_slot s tc = Inr t" by blast
    note i = get_next_slot_index [OF assms t]
    have "t \<noteq> slot_min" using i by (auto simp: slot_index_def slot_min_def)
    then obtain u where u: "get_prev_slot t tc = Inr u"
      using get_prev_slot_error [of t tc] by (cases "get_prev_slot t tc") auto
    have "u = s"
      using get_prev_slot_index [OF _ u] i assms by (metis add_right_imp_eq slot_index_inject)
    have "s \<noteq> slot_max tc" using get_next_slot_max [OF tc] t by auto
    with t i u \<open>u = s\<close> show ?thesis by auto
  next
    case False
    with get_next_slot_total [OF assms] show ?thesis by auto
  qed
qed

theorem next_prev_slot_witness:
  "\<exists>t. get_next_slot (Slot 3 31) 32 = Inr t \<and> slot_index 32 t = 128 \<and> get_prev_slot t 32 = Inr (Slot 3 31)"
  using next_prev_slot [of 32 "Slot 3 31"]
  by (auto simp: slot_wf_def slot_max_def slot_index_def split: if_splits)

text \<open>C18. The database key of a slot has nine bytes, decodes to the slot, and keys are ordered as
  slots are, so that iterating the database by key visits the slots in order.\<close>

theorem slot_key_roundtrip_order:
  "from_bytes_key (to_bytes_key s) = s \<and> length (to_bytes_key s) = 9
   \<and> (to_bytes_key s < to_bytes_key t \<longleftrightarrow> s < t)"
  by (simp add: from_to_bytes_key to_bytes_key_less_iff)

text \<open>C19. The slots between the first and the last slot of a cycle are exactly the slots whose cycle
  number is that cycle.\<close>

theorem cycle_bounds:
  assumes "ppc \<noteq> 0" "slot_wf tc s"
    and "new_first_of_cycle c ppc = Inr f" "new_last_of_cycle c ppc tc = Inr l"
  shows "(f \<le> s \<and> s \<le> l \<longleftrightarrow> get_cycle s ppc = Inr c)
    \<and> is_first_of_cycle f ppc \<and> is_last_of_cycle l ppc tc = Inr True"
proof -
  have "tc \<noteq> 0" using assms(2) by (auto simp: slot_wf_def)
  from first_last_of_cycle [OF assms(1) this assms(3,4)] assms(2) show ?thesis by blast
qed

theorem cycle_bounds_witness:
  "Slot 4 0 \<le> Slot 5 1 \<and> Slot 5 1 \<le> Slot 7 1 \<and> get_cycle (Slot 5 1) 4 = Inr 1"
  using cycle_bounds [of 4 2 "Slot 5 1" 1 "Slot 4 0" "Slot 7 1"]
  by (simp add: slot_wf_def new_first_of_cycle_def new_last_of_cycle_def result_simps checked_mul_def
      checked_add_def saturating_sub_def less_eq_slot_def get_cycle_def)

end
