(* ===== verification/Massa_Bootstrap_Stream.thy ===== *)
theory Massa_Bootstrap_Stream
  imports Massa_DB Massa_Slot
begin

text \<open>
  Streaming the database to a bootstrapping node while it is being written:
  \<open>get_batch_to_stream\<close>, \<open>get_versioning_batch_to_stream\<close> and \<open>write_batch_bootstrap_client\<close> of
  \<open>massa-db-worker/src/massa_db.rs\<close>, the cursor logic of \<open>stream_bootstrap_information\<close> in
  \<open>massa-bootstrap/src/server.rs\<close> and of the client loop in \<open>massa-bootstrap/src/client.rs\<close>.

  Server writes, exchanges of a part and reconnections of the client interleave arbitrarily; a
  step relation gives the runs of the two nodes. The variable-length integer encoding of lengths
  (a third-party package) is the parameter \<open>venc\<close>, sizes are natural numbers with the saturation
  of \<open>usize\<close> written out. The consensus part of a message and the transport are not represented.

  Shown: whatever the interleaving, the part of the client's database below its cursor becomes the
  server's at every exchange, and when the server declares the bootstrap finished both databases
  have the same content and the same hash.
\<close>

section \<open>Batches\<close>

datatype 'a streaming_step = Started | Ongoing 'a | Finished "'a option"

fun finished :: "'a streaming_step \<Rightarrow> bool" where
  "finished (Finished x) = True"
| "finished Started = False"
| "finished (Ongoing x) = False"

record 'c stream_batch =
  new_elements :: "(bytes, bytes) btree"
  updates_on_previous_elements :: db_batch
  batch_change_id :: 'c

definition stream_batch_is_empty :: "'c stream_batch \<Rightarrow> bool" where
  "stream_batch_is_empty b \<longleftrightarrow> updates_on_previous_elements b = [] \<and> new_elements b = []"

definition usize_max :: nat where
  "usize_max = 2 ^ 64 - 1"

definition BOOTSTRAP_BATCH_ENTRY_OVERHEAD :: nat where
  "BOOTSTRAP_BATCH_ENTRY_OVERHEAD = 96"

definition MIN_EXPECTED_BOOTSTRAP_ELEMENT_WIRE_SIZE :: nat where
  "MIN_EXPECTED_BOOTSTRAP_ELEMENT_WIRE_SIZE = 16"

definition bootstrap_batch_allocation_budget :: "nat \<Rightarrow> nat" where
  "bootstrap_batch_allocation_budget section_wire_size =
     min usize_max (section_wire_size
       + min usize_max (section_wire_size div MIN_EXPECTED_BOOTSTRAP_ELEMENT_WIRE_SIZE
                        * BOOTSTRAP_BATCH_ENTRY_OVERHEAD))"

text \<open>The updates on the keys the client already has: the same code for both column families.\<close>

definition updates_since ::
  "('c::linorder, db_batch) btree \<Rightarrow> 'c \<Rightarrow> bytes streaming_step \<Rightarrow> 'c option
   \<Rightarrow> massa_db_error + db_batch" where
  "updates_since hist cur last_step last_change_id =
     (let bound_key_for_changes = (case last_step of Ongoing max_key \<Rightarrow> Included max_key | _ \<Rightarrow> Unbounded)
      in case (last_step, last_change_id) of
        (Started, _) \<Rightarrow> Inr []
      | (_, Some last_id) \<Rightarrow>
          if cur < last_id then
            Inl (CacheMissError ''we don't have this change yet on this node (it's in the future for us)'')
          else if last_id = cur then Inr []
          else
            (case hist of
               (first, _) # _ \<Rightarrow>
                 if first \<le> last_id then
                   Inr (fold (\<lambda>(c, changes) updates.
                          bt_extend updates (bt_range (Unbounded, bound_key_for_changes) changes))
                        (bt_range (Included last_id, Unbounded) hist) [])
                 else Inl (CacheMissError ''all our changes are strictly after last_change_id, we can't be sure we did not miss any'')
             | [] \<Rightarrow> Inl (CacheMissError ''all our changes are strictly after last_change_id, we can't be sure we did not miss any''))
      | (_, None) \<Rightarrow>
          Inl (DB_TimeError ''State streaming was ongoing or finished, but no last_change_id was provided''))"

definition entry_wire_size :: "(u64 \<Rightarrow> bytes) \<Rightarrow> bytes \<Rightarrow> bytes \<Rightarrow> nat" where
  "entry_wire_size venc k v =
     length k + length v + length (venc (of_nat (length k)) @ venc (of_nat (length v)))"

text \<open>The loop over the iterator, with its size and footprint accumulators.\<close>

fun collect_new_elements ::
  "(u64 \<Rightarrow> bytes) \<Rightarrow> nat \<Rightarrow> bytes option \<Rightarrow> nat \<Rightarrow> nat \<Rightarrow> (bytes, bytes) btree \<Rightarrow> (bytes \<times> bytes) list
   \<Rightarrow> (bytes, bytes) btree" where
  "collect_new_elements venc max_size skip_key sz footprint elements [] = elements"
| "collect_new_elements venc max_size skip_key sz footprint elements ((k, v) # rest) =
     (if skip_key = Some k then collect_new_elements venc max_size skip_key sz footprint elements rest
      else
        let sz = sz + entry_wire_size venc k v;
            footprint = footprint + (entry_wire_size venc k v + BOOTSTRAP_BATCH_ENTRY_OVERHEAD)
        in if sz \<le> max_size
              \<and> (footprint \<le> bootstrap_batch_allocation_budget max_size \<or> elements = [])
           then collect_new_elements venc max_size skip_key sz footprint (bt_insert k v elements) rest
           else elements)"

definition iterator_from :: "bytes streaming_step \<Rightarrow> (bytes, bytes) btree \<Rightarrow> (bytes \<times> bytes) list" where
  "iterator_from last_step cf =
     (case last_step of Ongoing max_key \<Rightarrow> dropWhile (\<lambda>e. fst e < max_key) cf | _ \<Rightarrow> cf)"

definition new_elements_after ::
  "(u64 \<Rightarrow> bytes) \<Rightarrow> nat \<Rightarrow> bytes streaming_step \<Rightarrow> (bytes, bytes) btree \<Rightarrow> (bytes, bytes) btree" where
  "new_elements_after venc max_size last_step cf =
     (if finished last_step then []
      else collect_new_elements venc max_size
             (case last_step of Ongoing max_key \<Rightarrow> Some max_key | _ \<Rightarrow> None) 0 0 []
             (iterator_from last_step cf))"

definition get_batch_to_stream ::
  "(u64 \<Rightarrow> bytes) \<Rightarrow> bytes streaming_step \<Rightarrow> 'c::linorder option \<Rightarrow> 'c massa_db
   \<Rightarrow> massa_db_error + 'c stream_batch" where
  "get_batch_to_stream venc last_state_step last_change_id db =
     rbind (get_change_id db) (\<lambda>cur.
     rbind (updates_since (change_history db) cur last_state_step last_change_id) (\<lambda>updates.
       Inr \<lparr>new_elements = new_elements_after venc (max_final_state_elements_size (config db))
                              last_state_step (state_cf db),
            updates_on_previous_elements = updates,
            batch_change_id = cur\<rparr>))"

definition get_versioning_batch_to_stream ::
  "(u64 \<Rightarrow> bytes) \<Rightarrow> bytes streaming_step \<Rightarrow> 'c::linorder option \<Rightarrow> 'c massa_db
   \<Rightarrow> massa_db_error + 'c stream_batch" where
  "get_versioning_batch_to_stream venc last_versioning_step last_change_id db =
     rbind (get_change_id db) (\<lambda>cur.
     rbind (updates_since (change_history_versioning db) cur last_versioning_step last_change_id) (\<lambda>updates.
       Inr \<lparr>new_elements = new_elements_after venc (max_versioning_elements_size (config db))
                              last_versioning_step (versioning_cf db),
            updates_on_previous_elements = updates,
            batch_change_id = cur\<rparr>))"

section \<open>The client\<close>

definition client_cursor :: "(bytes, bytes) btree \<Rightarrow> bytes streaming_step" where
  "client_cursor elements = (if elements = [] then Finished None else Ongoing (fst (last elements)))"

definition stream_changes :: "'c stream_batch \<Rightarrow> db_batch" where
  "stream_changes b =
     bt_extend (bt_extend [] (updates_on_previous_elements b))
       (map (\<lambda>(k, v). (k, Some v)) (new_elements b))"

definition write_batch_bootstrap_client ::
  "(bytes \<Rightarrow> hash_xof) \<Rightarrow> ('c::linorder write_op list \<Rightarrow> nat) \<Rightarrow> 'c stream_batch \<Rightarrow> 'c stream_batch
   \<Rightarrow> 'c massa_db \<Rightarrow> massa_db_error + ((bytes streaming_step \<times> bytes streaming_step) \<times> 'c massa_db)" where
  "write_batch_bootstrap_client xof wb_size batch versioning_batch db =
     rbind (write_changes xof wb_size (stream_changes batch) (stream_changes versioning_batch)
              (Some (batch_change_id batch)) True db) (\<lambda>db.
       Inr ((client_cursor (new_elements batch), client_cursor (new_elements versioning_batch)), db))"

section \<open>The server loop\<close>

datatype bootstrap_error = Bootstrap_GeneralError string | Bootstrap_SlotTooOld

definition too_old_message :: string where
  "too_old_message = ''all our changes are strictly after last_change_id, we can't be sure we did not miss any''"

definition part_or_error :: "massa_db_error + 'a \<Rightarrow> bootstrap_error + 'a" where
  "part_or_error r = map_err (\<lambda>e. case e of
       CacheMissError s \<Rightarrow> if s = too_old_message then Bootstrap_SlotTooOld
                           else Bootstrap_GeneralError ''Error get_batch_to_stream''
     | _ \<Rightarrow> Bootstrap_GeneralError ''Error get_batch_to_stream'') r"

text \<open>The cursor the server keeps for its next turn.\<close>

definition server_cursor ::
  "bytes streaming_step \<Rightarrow> 'c stream_batch \<Rightarrow> bootstrap_error + bytes streaming_step" where
  "server_cursor last_step part =
     (case (last_step, stream_batch_is_empty part) of
        (Finished _, _) \<Rightarrow> Inr (Finished None)
      | (Ongoing _, True) \<Rightarrow> Inr (Finished None)
      | (Started, True) \<Rightarrow> Inr (Finished None)
      | (Ongoing last_key, False) \<Rightarrow>
          Inr (Ongoing (if new_elements part = [] then last_key else fst (last (new_elements part))))
      | (Started, False) \<Rightarrow>
          if new_elements part = []
          then Inl (Bootstrap_GeneralError ''bootstrap started but we have no new elements to stream'')
          else Inr (Ongoing (fst (last (new_elements part)))))"

record 'c server_session =
  last_slot :: "'c option"
  last_state_step :: "bytes streaming_step"
  last_versioning_step :: "bytes streaming_step"

text \<open>One turn of the loop up to the message: the two parts and the cursors for the next turn.\<close>

definition serve_part ::
  "(u64 \<Rightarrow> bytes) \<Rightarrow> 'c::linorder massa_db \<Rightarrow> 'c server_session
   \<Rightarrow> bootstrap_error + ('c stream_batch \<times> 'c stream_batch \<times> 'c server_session)" where
  "serve_part venc db s =
     rbind (part_or_error (get_batch_to_stream venc (last_state_step s) (last_slot s) db)) (\<lambda>state_part.
     rbind (server_cursor (last_state_step s) state_part) (\<lambda>new_state_step.
     rbind (part_or_error (get_versioning_batch_to_stream venc (last_versioning_step s) (last_slot s) db))
       (\<lambda>versioning_part.
     rbind (server_cursor (last_versioning_step s) versioning_part) (\<lambda>new_versioning_step.
     rbind (map_err (\<lambda>e. Bootstrap_GeneralError ''panic'') (get_change_id db)) (\<lambda>db_slot.
       if (case last_slot s of Some slot \<Rightarrow> db_slot < slot | None \<Rightarrow> False)
       then Inl (Bootstrap_GeneralError ''Bootstrap cursor set to future slot'')
       else Inr (state_part, versioning_part,
                 \<lparr>last_slot = Some db_slot, last_state_step = new_state_step,
                  last_versioning_step = new_versioning_step\<rparr>))))))"

text \<open>The exit test of the loop, for the part of it that concerns the database.\<close>

definition bootstrap_finished :: "'c stream_batch \<Rightarrow> 'c stream_batch \<Rightarrow> 'c server_session \<Rightarrow> bool" where
  "bootstrap_finished state_part versioning_part s \<longleftrightarrow>
     finished (last_state_step s) \<and> finished (last_versioning_step s)
     \<and> stream_batch_is_empty state_part \<and> stream_batch_is_empty versioning_part"

section \<open>What a batch contains\<close>

fun in_bound :: "bytes streaming_step \<Rightarrow> bytes \<Rightarrow> bool" where
  "in_bound Started x = False"
| "in_bound (Ongoing k) x = (x \<le> k)"
| "in_bound (Finished _) x = True"

text \<open>Every entry fits in a part by itself. Without it the stream would end early.\<close>

definition entries_fit :: "(u64 \<Rightarrow> bytes) \<Rightarrow> nat \<Rightarrow> (bytes, bytes) btree \<Rightarrow> bool" where
  "entries_fit venc max_size cf \<longleftrightarrow> (\<forall>(k, v) \<in> set cf. entry_wire_size venc k v \<le> max_size)"

lemma collect_new_elements_prefix:
  "bt_wf (acc @ xs) \<Longrightarrow> \<exists>n. collect_new_elements venc m sk sz fp acc xs
     = acc @ take n (filter (\<lambda>e. sk \<noteq> Some (fst e)) xs)"
proof (induction venc m sk sz fp acc xs rule: collect_new_elements.induct)
  case (1 venc m sk sz fp acc)
  then show ?case by simp
next
  case (2 venc m sk sz fp acc k v rest)
  have snoc: "bt_insert k v acc = acc @ [(k, v)]"
    using 2(3) by (intro bt_insert_snoc) (auto simp: bt_wf_append)
  let ?sz = "sz + entry_wire_size venc k v"
  let ?fp = "fp + (entry_wire_size venc k v + BOOTSTRAP_BATCH_ENTRY_OVERHEAD)"
  consider (skip) "sk = Some k" | (stop) "sk \<noteq> Some k"
      "\<not> (?sz \<le> m \<and> (?fp \<le> bootstrap_batch_allocation_budget m \<or> acc = []))"
    | (take) "sk \<noteq> Some k" "?sz \<le> m \<and> (?fp \<le> bootstrap_batch_allocation_budget m \<or> acc = [])"
    by blast
  then show ?case
  proof cases
    case skip
    with 2 show ?thesis by (auto simp: bt_wf_append bt_wf_Cons)
  next
    case stop
    then show ?thesis by (intro exI [of _ 0]) (auto simp: Let_def)
  next
    case take
    then obtain n where "collect_new_elements venc m sk ?sz ?fp (acc @ [(k, v)]) rest
        = (acc @ [(k, v)]) @ List.take n (filter (\<lambda>e. sk \<noteq> Some (fst e)) rest)"
      using 2(2) [of ?sz ?fp] 2(3) by (auto simp: snoc)
    with take show ?thesis by (intro exI [of _ "Suc n"]) (simp add: Let_def snoc)
  qed
qed

lemma collect_new_elements_keeps: "acc \<noteq> [] \<Longrightarrow> collect_new_elements venc m sk sz fp acc xs \<noteq> []"
proof (induction venc m sk sz fp acc xs rule: collect_new_elements.induct)
  case (2 venc m sk sz fp acc k v rest)
  have "bt_insert k v acc \<noteq> []" by (cases acc) (auto split: prod.splits if_splits)
  with 2 show ?case by (auto simp: Let_def)
qed simp

lemma collect_new_elements_progress:
  "entries_fit venc m xs \<Longrightarrow> collect_new_elements venc m sk 0 fp [] xs = []
     \<Longrightarrow> filter (\<lambda>e. sk \<noteq> Some (fst e)) xs = []"
proof (induction xs arbitrary: fp)
  case (Cons e xs)
  obtain k v where e: "e = (k, v)" by (cases e)
  show ?case
  proof (cases "sk = Some k")
    case False
    with Cons.prems show ?thesis
      using collect_new_elements_keeps [of "[(k, v)]"] by (auto simp: e entries_fit_def Let_def)
  next
    case True
    with Cons show ?thesis by (auto simp: e entries_fit_def)
  qed
qed simp

lemma dropWhile_sorted: "bt_wf cf \<Longrightarrow> dropWhile (\<lambda>e. fst e < k) cf = filter (\<lambda>e. \<not> fst e < k) cf"
proof (induction cf)
  case (Cons e cf)
  then have "\<not> fst e < k \<Longrightarrow> \<forall>e' \<in> set cf. \<not> fst e' < k"
    by (cases e) (force simp: bt_wf_Cons)
  with Cons show ?case by (cases e) (auto simp: bt_wf_Cons filter_id_conv)
qed simp

lemma iterator_from_eq:
  "bt_wf cf \<Longrightarrow> \<not> finished step \<Longrightarrow>
     filter (\<lambda>e. (case step of Ongoing k \<Rightarrow> Some k | _ \<Rightarrow> None) \<noteq> Some (fst e)) (iterator_from step cf)
     = filter (\<lambda>e. \<not> in_bound step (fst e)) cf"
  by (cases step) (auto simp: iterator_from_def dropWhile_sorted intro!: filter_cong)

lemma new_elements_after_prefix:
  assumes "bt_wf cf"
  obtains n where "new_elements_after venc m step cf = take n (filter (\<lambda>e. \<not> in_bound step (fst e)) cf)"
proof (cases "finished step")
  case True
  then show ?thesis using that [of 0] by (cases step) (auto simp: new_elements_after_def)
next
  case False
  have "bt_wf (iterator_from step cf)"
    using assms by (cases step) (auto simp: iterator_from_def dropWhile_sorted bt_wf_filter)
  then obtain n where "new_elements_after venc m step cf
      = take n (filter (\<lambda>e. (case step of Ongoing k \<Rightarrow> Some k | _ \<Rightarrow> None) \<noteq> Some (fst e)) (iterator_from step cf))"
    using collect_new_elements_prefix [of "[]" "iterator_from step cf" venc m] False
    unfolding new_elements_after_def append_Nil by presburger
  then show ?thesis
    using that [of n] by (simp add: iterator_from_eq [OF assms False])
qed

lemma new_elements_after_progress:
  assumes "bt_wf cf" "entries_fit venc m cf" "new_elements_after venc m step cf = []"
  shows "filter (\<lambda>e. \<not> in_bound step (fst e)) cf = []"
proof (cases "finished step")
  case False
  have "entries_fit venc m (iterator_from step cf)"
    using assms(1,2) by (cases step) (auto simp: iterator_from_def entries_fit_def dropWhile_sorted)
  then show ?thesis
    using collect_new_elements_progress assms(3) False
    by (fastforce simp: new_elements_after_def iterator_from_eq [OF assms(1) False, symmetric])
qed (cases step, auto)

lemma bt_get_fold_updates:
  fixes r :: "bytes bound \<times> bytes bound"
  assumes "\<forall>(c, changes) \<in> set hs. bt_wf changes"
  defines "u \<equiv> fold (\<lambda>(c, changes) updates. bt_extend updates (bt_range r changes)) hs []"
  shows "bt_wf u" "bt_get u x = (if range_contains r x then hist_lookup hs x else None)"
proof -
  have "bt_wf u \<and> bt_get u x = (if range_contains r x then hist_lookup hs x else None)"
    using assms(1) unfolding u_def
    by (induction hs rule: rev_induct)
      (auto simp: bt_get_extend_bt bt_get_range hist_lookup_snoc split: option.splits)
  then show "bt_wf u" "bt_get u x = (if range_contains r x then hist_lookup hs x else None)" by auto
qed

lemma sorted_split: "bt_wf hist \<Longrightarrow> hist = filter (\<lambda>e. fst e < c) hist @ filter (\<lambda>e. c \<le> fst e) hist"
proof (induction hist)
  case (Cons e hist)
  then have "c \<le> fst e \<Longrightarrow> filter (\<lambda>e. fst e < c) hist = [] \<and> filter (\<lambda>e. c \<le> fst e) hist = hist"
    by (cases e) (force simp: bt_wf_Cons filter_empty_conv filter_id_conv)
  with Cons show ?case by (cases e) (auto simp: bt_wf_Cons)
qed simp

text \<open>The history no longer reaches back to the client's change id.\<close>

definition forgotten :: "('c::linorder, db_batch) btree \<Rightarrow> 'c \<Rightarrow> 'c \<Rightarrow> bool" where
  "forgotten hist cur c \<longleftrightarrow> c < cur \<and> (hist = [] \<or> c < fst (hd hist))"

lemma updates_since_Inr:
  assumes ok: "hist_ok hist cur cf" and u: "updates_since hist cur step last_id = Inr u"
    and step: "step \<noteq> Started"
  obtains c where "last_id = Some c" "c \<le> cur" "\<not> forgotten hist cur c" "bt_wf u"
    "\<And>x. bt_get u x = (if in_bound step x \<and> c < cur
       then hist_lookup (filter (\<lambda>e. c \<le> fst e) hist) x else None)"
proof -
  obtain c where c: "last_id = Some c"
    using u step by (cases last_id; cases step) (auto simp: updates_since_def)
  have le: "c \<le> cur" using u step by (cases step) (auto simp: updates_since_def c split: if_splits)
  define r :: "bytes bound \<times> bytes bound" where "r = (Unbounded, case step of Ongoing max_key \<Rightarrow> Included max_key | _ \<Rightarrow> Unbounded)"
  have r: "range_contains r x = in_bound step x" for x
    using step by (cases step) (auto simp: r_def)
  define hs where "hs = filter (\<lambda>e. c \<le> fst e) hist"
  have hs: "bt_range (Included c, Unbounded) hist = hs"
    by (auto simp: bt_range_def bt_retain_def hs_def intro!: filter_cong)
  have wf: "\<forall>(c, changes) \<in> set hs. bt_wf changes" using ok by (auto simp: hs_def hist_ok_def)
  show ?thesis
  proof (cases "c = cur")
    case True
    then have "u = []" using u step by (cases step) (auto simp: updates_since_def c)
    with True show ?thesis using that [OF c le] by (auto simp: forgotten_def)
  next
    case False
    then have fold: "u = fold (\<lambda>(c, changes) updates. bt_extend updates (bt_range r changes)) hs []"
      and "\<not> forgotten hist cur c"
      using u step le hs
      by (cases step; auto simp: updates_since_def c r_def forgotten_def split: list.splits if_splits)+
    with False le show ?thesis
      using that [OF c le] bt_get_fold_updates [OF wf, of r] by (auto simp: r hs_def)
  qed
qed

section \<open>Synchronisation of one column family\<close>

definition synced ::
  "('c::linorder, db_batch) btree \<Rightarrow> 'c \<Rightarrow> (bytes, bytes) btree \<Rightarrow> bytes streaming_step \<Rightarrow> 'c option
   \<Rightarrow> (bytes, bytes) btree \<Rightarrow> bool" where
  "synced hist cur cf step last_id client \<longleftrightarrow> bt_wf client \<and>
     (if step = Started then client = []
      else \<exists>c. last_id = Some c \<and> c \<le> cur \<and> (\<forall>x. \<not> in_bound step x \<longrightarrow> bt_get client x = None)
        \<and> (\<forall>x. in_bound step x \<longrightarrow> bt_get client x = bt_get cf x \<or> forgotten hist cur c
              \<or> (\<exists>(i, changes) \<in> set hist. c < i \<and> bt_get changes x \<noteq> None)))"

definition exact :: "(bytes, bytes) btree \<Rightarrow> bytes streaming_step \<Rightarrow> (bytes, bytes) btree \<Rightarrow> bool" where
  "exact cf step client \<longleftrightarrow> bt_wf client \<and> step \<noteq> Started \<and>
     (\<forall>x. bt_get client x = (if in_bound step x then bt_get cf x else None))"

lemma exact_synced: "exact cf step client \<Longrightarrow> synced hist cur cf step (Some cur) client"
  by (auto simp: exact_def synced_def)

lemma exact_finished: "exact cf (Finished k) client \<Longrightarrow> bt_wf cf \<Longrightarrow> client = cf"
  by (rule bt_eqI) (auto simp: exact_def)

lemma stream_changes_wf: "bt_wf (stream_changes b)"
  by (simp add: stream_changes_def)

lemma bt_get_map_Some: "bt_get (map (\<lambda>(k, v). (k, Some v)) xs) x = map_option Some (bt_get xs x)"
  by (induction xs) auto

lemma bt_get_stream_changes:
  assumes "bt_wf (new_elements b)" "bt_wf (updates_on_previous_elements b)"
  shows "bt_get (stream_changes b) x =
    (case bt_get (new_elements b) x of Some v \<Rightarrow> Some (Some v)
     | None \<Rightarrow> bt_get (updates_on_previous_elements b) x)"
proof -
  have n: "bt_wf (map (\<lambda>(k, v). (k, Some v)) (new_elements b))"
    using assms(1) by (simp add: bt_wf_def comp_def case_prod_unfold)
  show ?thesis
    using bt_get_extend_bt [of "bt_extend [] (updates_on_previous_elements b)", OF _ n] assms(2)
    by (simp add: stream_changes_def bt_get_extend_bt bt_get_map_Some split: option.splits)
qed

text \<open>After the updates, every key within the old bound has the server's value.\<close>

lemma updates_restore:
  assumes ok: "hist_ok hist cur cf" and sy: "synced hist cur cf step last_id client"
    and u: "updates_since hist cur step last_id = Inr u"
  shows "bt_wf u" "(case bt_get u x of Some ov \<Rightarrow> ov | None \<Rightarrow> bt_get client x)
    = (if in_bound step x then bt_get cf x else None)"
proof -
  have "bt_wf u \<and> (case bt_get u x of Some ov \<Rightarrow> ov | None \<Rightarrow> bt_get client x)
    = (if in_bound step x then bt_get cf x else None)"
  proof (cases "step = Started")
    case True
    with u sy show ?thesis by (auto simp: updates_since_def synced_def)
  next
    case False
    obtain c where c: "last_id = Some c" "c \<le> cur" "\<not> forgotten hist cur c" and wf: "bt_wf u"
      and get: "\<And>x. bt_get u x = (if in_bound step x \<and> c < cur
        then hist_lookup (filter (\<lambda>e. c \<le> fst e) hist) x else None)"
      by (rule updates_since_Inr [OF ok u False]) (rule that)
    have sync: "\<not> in_bound step x \<Longrightarrow> bt_get client x = None"
      "in_bound step x \<Longrightarrow> bt_get client x = bt_get cf x
        \<or> (\<exists>(i, changes) \<in> set hist. c < i \<and> bt_get changes x \<noteq> None)"
      using sy c(1,3) False unfolding synced_def by simp_all
    have hist: "hist = filter (\<lambda>e. fst e < c) hist @ filter (\<lambda>e. c \<le> fst e) hist"
      using ok by (intro sorted_split) (simp add: hist_ok_def)
    have "hist_ok (filter (\<lambda>e. c \<le> fst e) hist) cur cf"
      by (rule hist_ok_suffix [of "filter (\<lambda>e. fst e < c) hist"]) (simp only: hist [symmetric] ok)
    then have latest: "hist_lookup (filter (\<lambda>e. c \<le> fst e) hist) x = Some ov \<Longrightarrow> bt_get cf x = ov" for ov
      by (simp add: hist_ok_def)
    have later: "c < cur" if "(i, changes) \<in> set hist" "c < i" for i changes
      using ok that by (auto simp: hist_ok_def)
    have quiet: "bt_get client x = bt_get cf x"
      if "in_bound step x" "bt_get u x = None"
    proof (cases "\<exists>(i, changes) \<in> set hist. c < i \<and> bt_get changes x \<noteq> None")
      case True
      then obtain i changes where i: "(i, changes) \<in> set hist" "c < i" "bt_get changes x \<noteq> None" by auto
      then have "hist_lookup (filter (\<lambda>e. c \<le> fst e) hist) x \<noteq> None"
        by (auto simp: hist_lookup_eq_None intro: less_imp_le)
      with i that later show ?thesis by (simp add: get)
    next
      case False
      with sync(2) that show ?thesis by blast
    qed
    show ?thesis
    proof (cases "bt_get u x")
      case None
      with quiet sync(1) wf show ?thesis by (cases "in_bound step x") simp_all
    next
      case (Some ov)
      with latest wf show ?thesis by (auto simp: get split: if_splits)
    qed
  qed
  then show "bt_wf u" "(case bt_get u x of Some ov \<Rightarrow> ov | None \<Rightarrow> bt_get client x)
    = (if in_bound step x then bt_get cf x else None)" by auto
qed

lemma in_bound_mono: "in_bound step x \<Longrightarrow> y \<le> x \<Longrightarrow> in_bound step y"
  by (cases step) auto

lemma bt_prefix_facts:
  assumes "bt_wf (N @ D)"
  shows "e \<in> set N \<Longrightarrow> fst e \<le> fst (last N)"
    and "N \<noteq> [] \<Longrightarrow> e \<in> set (N @ D) \<Longrightarrow> fst e \<le> fst (last N) \<Longrightarrow> e \<in> set N"
proof -
  show "e \<in> set N \<Longrightarrow> fst e \<le> fst (last N)"
    using assms by (cases N rule: rev_cases) (auto simp: bt_wf_append less_imp_le)
  show "e \<in> set N" if "N \<noteq> []" "e \<in> set (N @ D)" "fst e \<le> fst (last N)"
  proof (rule ccontr)
    assume "e \<notin> set N"
    then have "fst e \<in> fst ` set D" using that(2) by auto
    moreover have "fst (last N) \<in> fst ` set N" using that(1) by simp
    ultimately have "fst (last N) < fst e" using assms unfolding bt_wf_append by blast
    with that(3) show False by simp
  qed
qed

lemma new_elements_after_facts:
  assumes wf: "bt_wf cf" and N: "N = new_elements_after venc m step cf"
  shows "bt_wf N"
    and "bt_get N x = Some v \<Longrightarrow> bt_get cf x = Some v"
    and "N \<noteq> [] \<Longrightarrow> x \<le> fst (last N) \<Longrightarrow> \<not> in_bound step x \<Longrightarrow> bt_get N x = None \<Longrightarrow> bt_get cf x = None"
    and "N \<noteq> [] \<Longrightarrow> fst (last N) < x \<Longrightarrow> bt_get N x = None \<and> \<not> in_bound step x"
proof -
  obtain D where D: "N @ D = filter (\<lambda>e. \<not> in_bound step (fst e)) cf"
    using new_elements_after_prefix [OF wf, of venc m step] append_take_drop_id unfolding N by metis
  have wfND: "bt_wf (N @ D)" by (simp only: D bt_wf_filter [OF wf])
  then show wfN: "bt_wf N" by (simp add: bt_wf_append)
  have ND: "e \<in> set (N @ D) \<longleftrightarrow> e \<in> set cf \<and> \<not> in_bound step (fst e)" for e
    unfolding D by simp
  show "bt_get cf x = Some v" if "bt_get N x = Some v"
    using that ND [of "(x, v)"] by (simp add: bt_get_eq_Some [OF wfN] bt_get_eq_Some [OF wf])
  show "bt_get cf x = None" if "N \<noteq> []" "x \<le> fst (last N)" "\<not> in_bound step x" "bt_get N x = None"
  proof (rule ccontr)
    assume "bt_get cf x \<noteq> None"
    then obtain v where "(x, v) \<in> set cf" by (auto simp: bt_get_eq_Some [OF wf])
    then have "(x, v) \<in> set N"
      using that(2,3) ND [of "(x, v)"] by (intro bt_prefix_facts(2) [OF wfND that(1)]) auto
    with that(4) show False by (simp add: bt_get_eq_Some [OF wfN, symmetric])
  qed
  show "bt_get N x = None \<and> \<not> in_bound step x" if "N \<noteq> []" "fst (last N) < x"
  proof
    show "bt_get N x = None"
      using bt_prefix_facts(1) [OF wfND] that(2) by (fastforce simp: bt_get_eq_None)
    have "\<not> in_bound step (fst (last N))" using ND [of "last N"] that(1) by simp
    then show "\<not> in_bound step x" using in_bound_mono [of step x "fst (last N)"] that(2) by (auto dest: less_imp_le)
  qed
qed

lemma exchange_exact:
  assumes ok: "hist_ok hist cur cf" and wf: "bt_wf cf" and fit: "entries_fit venc m cf"
    and sy: "synced hist cur cf step last_id client"
    and u: "updates_since hist cur step last_id = Inr (updates_on_previous_elements b)"
    and N: "new_elements b = new_elements_after venc m step cf"
  defines "client' \<equiv> batch_apply (stream_changes b) client"
  shows "exact cf (client_cursor (new_elements b)) client'"
    and "server_cursor step b = Inr step' \<Longrightarrow> exact cf step' client'"
proof -
  note facts = new_elements_after_facts [OF wf N]
  have get: "bt_get client' x = (if in_bound step x \<or> bt_get (new_elements b) x \<noteq> None then bt_get cf x else None)" for x
    using updates_restore(2) [OF ok sy u, of x] facts(2) [of x]
    by (auto simp: client'_def bt_get_batch_apply stream_changes_wf
        bt_get_stream_changes [OF facts(1) updates_restore(1) [OF ok sy u]] split: option.splits)
  have wf': "bt_wf client'" using sy by (simp add: client'_def synced_def)
  have nonempty: "exact cf (Ongoing (fst (last (new_elements b)))) client'" if "new_elements b \<noteq> []"
  proof -
    have "bt_get client' x = (if x \<le> fst (last (new_elements b)) then bt_get cf x else None)" for x
      using facts(3,4) [OF that, of x] get [of x] by (cases "x \<le> fst (last (new_elements b))") auto
    with wf' show ?thesis by (simp add: exact_def)
  qed
  have rest: "bt_get cf x = None" if "new_elements b = []" "\<not> in_bound step x" for x
  proof -
    have "\<forall>e \<in> set cf. in_bound step (fst e)"
      using new_elements_after_progress [OF wf fit] N that(1) by (metis (lifting) filter_empty_conv)
    with that(2) show ?thesis by (auto simp: bt_get_eq_None)
  qed
  have empty: "exact cf (Finished None) client'" if "new_elements b = []"
    using rest [OF that] get wf' by (auto simp: exact_def that)
  have fin: "exact cf (Finished None) client'" if "finished step"
    using get wf' that by (cases step) (auto simp: exact_def)
  have same: "exact cf step client'" if "new_elements b = []" "step = Ongoing k" for k
    using get wf' that by (auto simp: exact_def)
  show "exact cf (client_cursor (new_elements b)) client'"
    using nonempty empty by (simp add: client_cursor_def)
  show "exact cf step' client'" if "server_cursor step b = Inr step'"
    using that nonempty empty fin same
    by (cases step) (auto simp: server_cursor_def stream_batch_is_empty_def split: if_splits bool.splits)
qed

lemma forgotten_suffix:
  assumes "bt_wf (a @ b)" "forgotten (a @ b) cur c" "cur \<le> cur'"
  shows "forgotten b cur' c"
  using assms by (cases a; cases b) (auto simp: forgotten_def bt_wf_append bt_wf_Cons)

text \<open>A write with a greater change id keeps the relation: what it changes is in the history, or
  the history has forgotten the client.\<close>

lemma synced_write:
  assumes sy: "synced hist cur cf step last_id client" and ok: "hist_ok hist cur cf"
    and less: "cur < c" and cs: "bt_wf cs"
  shows "synced (keep_last n (record_changes c cs hist)) c (batch_apply cs cf) step last_id client"
proof (cases "step = Started")
  case True
  with sy show ?thesis by (simp add: synced_def)
next
  case False
  obtain l where l: "last_id = Some l" "l \<le> cur" "\<And>x. \<not> in_bound step x \<Longrightarrow> bt_get client x = None"
    and sync: "\<And>x. in_bound step x \<Longrightarrow> bt_get client x = bt_get cf x \<or> forgotten hist cur l
      \<or> (\<exists>(i, changes) \<in> set hist. l < i \<and> bt_get changes x \<noteq> None)"
    using sy False by (auto simp: synced_def)
  have wf: "bt_wf hist" and below: "\<forall>c' \<in> fst ` set hist. c' < c"
    using ok less by (auto simp: hist_ok_def)
  have rec: "record_changes c cs hist = hist @ [(c, cs)]"
    using below by (rule_tac record_changes_cases [OF wf, of c cs]) (auto simp: less_imp_le)
  obtain a where a: "hist @ [(c, cs)] = a @ keep_last n (hist @ [(c, cs)])"
    using keep_last_suffix by blast
  define hist' where "hist' = keep_last n (hist @ [(c, cs)])"
  have split: "hist @ [(c, cs)] = a @ hist'" using a by (simp add: hist'_def)
  have wf': "bt_wf (a @ hist')"
    using wf below by (simp add: split [symmetric] bt_wf_append bt_wf_Cons)
  have lc: "l < c" using l(2) less by simp
  have lost: "forgotten hist' c l \<or> (i, changes) \<in> set hist'"
    if "(i, changes) \<in> set (hist @ [(c, cs)])" "l < i" for i changes
  proof (cases "(i, changes) \<in> set a")
    case True
    with wf' have "\<forall>k \<in> fst ` set hist'. i < k" by (force simp: bt_wf_append)
    with that(2) lc show ?thesis by (cases hist') (auto simp: forgotten_def)
  next
    case False
    with that(1) show ?thesis by (simp add: split)
  qed
  have "forgotten (hist @ [(c, cs)]) c l" if "forgotten hist cur l"
    using that lc by (cases hist) (auto simp: forgotten_def)
  then have forg: "forgotten hist cur l \<Longrightarrow> forgotten hist' c l"
    using forgotten_suffix [OF wf', of c l c] by (simp add: split)
  have "bt_get client x = bt_get (batch_apply cs cf) x \<or> forgotten hist' c l
      \<or> (\<exists>(i, changes) \<in> set hist'. l < i \<and> bt_get changes x \<noteq> None)" if x: "in_bound step x" for x
  proof (cases "bt_get cs x")
    case None
    with sync [OF x] forg lost show ?thesis by (auto simp: bt_get_batch_apply [OF cs]) blast
  next
    case (Some ov)
    with lost [of c cs] lc show ?thesis by auto
  qed
  with l lc sy False show ?thesis by (simp add: synced_def rec hist'_def [symmetric])
qed

section \<open>Runs of a server and a client\<close>

record 'c bootstrap_run =
  server_db :: "'c massa_db"
  session :: "'c server_session"
  client_db :: "'c massa_db"
  next_message :: "'c server_session"

text \<open>
  The three things that happen, in any order: the server's node writes a batch for a later slot; a
  part is served and written by the client, which notes the message it would reconnect with; the
  client reconnects and the server takes the cursors of that message.
\<close>

inductive bootstrap_step ::
  "(bytes \<Rightarrow> hash_xof) \<Rightarrow> ('c::linorder write_op list \<Rightarrow> nat) \<Rightarrow> (u64 \<Rightarrow> bytes)
   \<Rightarrow> 'c bootstrap_run \<Rightarrow> 'c bootstrap_run \<Rightarrow> bool"
  for xof wb_size venc where
  server_write:
    "meta_change_id (server_db r) = Some cur \<Longrightarrow> cur < c \<Longrightarrow> bt_wf cs \<Longrightarrow> bt_wf vcs
     \<Longrightarrow> write_batch xof wb_size cs vcs (Some c) (server_db r) = Inr db
     \<Longrightarrow> entries_fit venc (max_final_state_elements_size (config db)) (state_cf db)
     \<Longrightarrow> entries_fit venc (max_versioning_elements_size (config db)) (versioning_cf db)
     \<Longrightarrow> bootstrap_step xof wb_size venc r (r\<lparr>server_db := db\<rparr>)"
| exchange:
    "serve_part venc (server_db r) (session r) = Inr (state_part, versioning_part, s)
     \<Longrightarrow> \<not> bootstrap_finished state_part versioning_part s
     \<Longrightarrow> write_batch_bootstrap_client xof wb_size state_part versioning_part (client_db r)
         = Inr ((cursor, versioning_cursor), db)
     \<Longrightarrow> bootstrap_step xof wb_size venc r
           (r\<lparr>session := s, client_db := db,
              next_message := \<lparr>last_slot = last_slot s, last_state_step = cursor,
                               last_versioning_step = versioning_cursor\<rparr>\<rparr>)"
| reconnect:
    "bootstrap_step xof wb_size venc r (r\<lparr>session := next_message r\<rparr>)"

definition bootstrap_start ::
  "(bytes \<Rightarrow> hash_xof) \<Rightarrow> (u64 \<Rightarrow> bytes) \<Rightarrow> 'c::linorder bootstrap_run \<Rightarrow> bool" where
  "bootstrap_start xof venc r \<longleftrightarrow>
     db_wf xof (server_db r) \<and> db_wf xof (client_db r)
     \<and> entries_fit venc (max_final_state_elements_size (config (server_db r))) (state_cf (server_db r))
     \<and> entries_fit venc (max_versioning_elements_size (config (server_db r))) (versioning_cf (server_db r))
     \<and> state_cf (client_db r) = [] \<and> versioning_cf (client_db r) = []
     \<and> the (meta_change_id (client_db r)) \<le> the (meta_change_id (server_db r))
     \<and> session r = \<lparr>last_slot = None, last_state_step = Started, last_versioning_step = Started\<rparr>
     \<and> next_message r = session r"

definition session_synced :: "'c::linorder massa_db \<Rightarrow> 'c massa_db \<Rightarrow> 'c server_session \<Rightarrow> bool" where
  "session_synced srv cli s \<longleftrightarrow> (\<exists>cur. meta_change_id srv = Some cur
     \<and> synced (change_history srv) cur (state_cf srv) (last_state_step s) (last_slot s) (state_cf cli)
     \<and> synced (change_history_versioning srv) cur (versioning_cf srv) (last_versioning_step s) (last_slot s)
         (versioning_cf cli))"

definition run_inv ::
  "(bytes \<Rightarrow> hash_xof) \<Rightarrow> (u64 \<Rightarrow> bytes) \<Rightarrow> 'c::linorder bootstrap_run \<Rightarrow> bool" where
  "run_inv xof venc r \<longleftrightarrow>
     db_wf xof (server_db r) \<and> db_wf xof (client_db r)
     \<and> entries_fit venc (max_final_state_elements_size (config (server_db r))) (state_cf (server_db r))
     \<and> entries_fit venc (max_versioning_elements_size (config (server_db r))) (versioning_cf (server_db r))
     \<and> the (meta_change_id (client_db r)) \<le> the (meta_change_id (server_db r))
     \<and> session_synced (server_db r) (client_db r) (session r)
     \<and> session_synced (server_db r) (client_db r) (next_message r)"

lemma db_wfD:
  assumes "db_wf xof db"
  obtains cur where "meta_change_id db = Some cur" "bt_wf (state_cf db)" "bt_wf (versioning_cf db)"
    "hist_ok (change_history db) cur (state_cf db)"
    "hist_ok (change_history_versioning db) cur (versioning_cf db)"
    "get_xof_db_hash db = content_hash xof (state_cf db)"
  using assms by (auto simp: db_wf_def split: option.splits)

lemma run_inv_start: "bootstrap_start xof venc r \<Longrightarrow> run_inv xof venc r"
  by (auto simp: bootstrap_start_def run_inv_def session_synced_def synced_def elim!: db_wfD)

lemma run_inv_write:
  assumes inv: "run_inv xof venc r" and xof: "xof_fills xof"
    and cur: "meta_change_id (server_db r) = Some cur" and less: "cur < c" and wf: "bt_wf cs" "bt_wf vcs"
    and w: "write_batch xof wb_size cs vcs (Some c) (server_db r) = Inr db"
    and fit: "entries_fit venc (max_final_state_elements_size (config db)) (state_cf db)"
      "entries_fit venc (max_versioning_elements_size (config db)) (versioning_cf db)"
  shows "run_inv xof venc (r\<lparr>server_db := db\<rparr>)"
proof -
  let ?srv = "server_db r"
  have w': "write_changes xof wb_size cs vcs (Some c) False ?srv = Inr db"
    using w by (auto simp: write_batch_def result_simps)
  have db: "db_wf xof db" using write_changes_db_wf [OF xof _ wf w'] inv by (simp add: run_inv_def)
  have ok: "hist_ok (change_history ?srv) cur (state_cf ?srv)"
    "hist_ok (change_history_versioning ?srv) cur (versioning_cf ?srv)"
    using inv cur by (auto simp: run_inv_def elim!: db_wfD)
  have id: "cur \<le> written_change_id (Some c) cur" using less by (simp add: written_change_id_def)
  have parts: "meta_change_id db = Some c" "state_cf db = batch_apply cs (state_cf ?srv)"
      "versioning_cf db = batch_apply vcs (versioning_cf ?srv)"
      "change_history db = keep_last (max_history_length (config ?srv)) (record_changes c cs (change_history ?srv))"
      "change_history_versioning db
        = keep_last (max_history_length (config ?srv)) (record_changes c vcs (change_history_versioning ?srv))"
    by (rule write_changes_ok [OF cur id, of xof wb_size cs vcs False],
        use w' in \<open>simp add: written_change_id_def\<close>)+
  have "session_synced db cli s" if "session_synced ?srv cli s" for cli s
    using that synced_write [OF _ ok(1) less wf(1)] synced_write [OF _ ok(2) less wf(2)]
    by (auto simp: session_synced_def parts cur)
  with inv db fit less cur show ?thesis
    by (auto simp: run_inv_def parts intro: order_trans less_imp_le)
qed

lemma serve_part_Inr:
  assumes "serve_part venc srv s = Inr (sp, vp, s')" and cur: "meta_change_id srv = Some cur"
  shows "updates_since (change_history srv) cur (last_state_step s) (last_slot s)
      = Inr (updates_on_previous_elements sp)"
    and "new_elements sp = new_elements_after venc (max_final_state_elements_size (config srv))
      (last_state_step s) (state_cf srv)"
    and "updates_since (change_history_versioning srv) cur (last_versioning_step s) (last_slot s)
      = Inr (updates_on_previous_elements vp)"
    and "new_elements vp = new_elements_after venc (max_versioning_elements_size (config srv))
      (last_versioning_step s) (versioning_cf srv)"
    and "server_cursor (last_state_step s) sp = Inr (last_state_step s')"
    and "server_cursor (last_versioning_step s) vp = Inr (last_versioning_step s')"
    and "last_slot s' = Some cur" and "batch_change_id sp = cur"
  using assms
  by (auto simp: serve_part_def part_or_error_def get_batch_to_stream_def get_change_id_def
      get_versioning_batch_to_stream_def result_simps split: if_splits)

text \<open>Writing the parts makes the client exact for the cursors of both sides.\<close>

lemma serve_part_exact:
  assumes inv: "run_inv xof venc r" and sv: "serve_part venc (server_db r) (session r) = Inr (sp, vp, s)"
  defines "state' \<equiv> batch_apply (stream_changes sp) (state_cf (client_db r))"
    and "versioning' \<equiv> batch_apply (stream_changes vp) (versioning_cf (client_db r))"
  shows "exact (state_cf (server_db r)) (last_state_step s) state'"
    and "exact (state_cf (server_db r)) (client_cursor (new_elements sp)) state'"
    and "exact (versioning_cf (server_db r)) (last_versioning_step s) versioning'"
    and "exact (versioning_cf (server_db r)) (client_cursor (new_elements vp)) versioning'"
proof -
  obtain cur where db: "meta_change_id (server_db r) = Some cur" "bt_wf (state_cf (server_db r))"
      "bt_wf (versioning_cf (server_db r))"
      "hist_ok (change_history (server_db r)) cur (state_cf (server_db r))"
      "hist_ok (change_history_versioning (server_db r)) cur (versioning_cf (server_db r))"
    using inv by (auto simp: run_inv_def elim: db_wfD)
  note p = serve_part_Inr [OF sv db(1)]
  have fit: "entries_fit venc (max_final_state_elements_size (config (server_db r))) (state_cf (server_db r))"
      "entries_fit venc (max_versioning_elements_size (config (server_db r))) (versioning_cf (server_db r))"
    using inv by (simp_all add: run_inv_def)
  have sy: "synced (change_history (server_db r)) cur (state_cf (server_db r)) (last_state_step (session r))
        (last_slot (session r)) (state_cf (client_db r))"
      "synced (change_history_versioning (server_db r)) cur (versioning_cf (server_db r))
        (last_versioning_step (session r)) (last_slot (session r)) (versioning_cf (client_db r))"
    using inv db(1) by (simp_all add: run_inv_def session_synced_def)
  note e = exchange_exact [OF db(4,2) fit(1) sy(1) p(1,2)]
  note ev = exchange_exact [OF db(5,3) fit(2) sy(2) p(3,4)]
  show "exact (state_cf (server_db r)) (last_state_step s) state'"
    unfolding state'_def by (rule e(2) [OF p(5)])
  show "exact (state_cf (server_db r)) (client_cursor (new_elements sp)) state'"
    unfolding state'_def by (rule e(1))
  show "exact (versioning_cf (server_db r)) (last_versioning_step s) versioning'"
    unfolding versioning'_def by (rule ev(2) [OF p(6)])
  show "exact (versioning_cf (server_db r)) (client_cursor (new_elements vp)) versioning'"
    unfolding versioning'_def by (rule ev(1))
qed

lemma client_write_accepted:
  assumes inv: "run_inv xof venc r" and xof: "xof_fills xof"
    and sv: "serve_part venc (server_db r) (session r) = Inr (sp, vp, s)"
  obtains db where
    "write_batch_bootstrap_client xof wb_size sp vp (client_db r)
       = Inr ((client_cursor (new_elements sp), client_cursor (new_elements vp)), db)"
    "db_wf xof db" "meta_change_id db = meta_change_id (server_db r)"
    "state_cf db = batch_apply (stream_changes sp) (state_cf (client_db r))"
    "versioning_cf db = batch_apply (stream_changes vp) (versioning_cf (client_db r))"
proof -
  obtain cur where cur: "meta_change_id (server_db r) = Some cur"
    using inv by (auto simp: run_inv_def elim: db_wfD)
  obtain ci where ci: "meta_change_id (client_db r) = Some ci"
    using inv by (auto simp: run_inv_def elim: db_wfD)
  note p = serve_part_Inr [OF sv cur]
  have le: "ci \<le> written_change_id (Some cur) ci"
    using inv cur ci by (simp add: run_inv_def written_change_id_def)
  have wf: "db_wf xof db" if "write_changes xof wb_size (stream_changes sp) (stream_changes vp)
      (Some cur) True (client_db r) = Inr db" for db
    using write_changes_db_wf [OF xof _ stream_changes_wf stream_changes_wf that] inv
    by (simp add: run_inv_def)
  show ?thesis
    by (rule write_changes_ok [OF ci le, of xof wb_size "stream_changes sp" "stream_changes vp" True])
      (rule that, auto simp: write_batch_bootstrap_client_def result_simps p(8) cur wf
        written_change_id_def)
qed

lemma run_inv_exchange:
  assumes inv: "run_inv xof venc r" and xof: "xof_fills xof"
    and sv: "serve_part venc (server_db r) (session r) = Inr (sp, vp, s)"
    and w: "write_batch_bootstrap_client xof wb_size sp vp (client_db r) = Inr ((c1, c2), db)"
  shows "run_inv xof venc (r\<lparr>session := s, client_db := db,
    next_message := \<lparr>last_slot = last_slot s, last_state_step = c1, last_versioning_step = c2\<rparr>\<rparr>)"
proof -
  obtain cur where cur: "meta_change_id (server_db r) = Some cur"
    using inv by (auto simp: run_inv_def elim: db_wfD)
  note e = serve_part_exact [OF inv sv]
  show ?thesis
    by (rule client_write_accepted [OF inv xof sv, of wb_size])
      (use w e inv cur serve_part_Inr(7) [OF sv cur] in
        \<open>auto simp: run_inv_def session_synced_def intro: exact_synced\<close>)
qed

lemma run_inv_step:
  "bootstrap_step xof wb_size venc r r' \<Longrightarrow> xof_fills xof \<Longrightarrow> run_inv xof venc r \<Longrightarrow> run_inv xof venc r'"
proof (induction rule: bootstrap_step.induct)
  case (server_write r cur c cs vcs db)
  then show ?case by (intro run_inv_write) auto
next
  case (exchange r sp vp s c1 c2 db)
  then show ?case by (intro run_inv_exchange) auto
next
  case (reconnect r)
  then show ?case by (simp add: run_inv_def)
qed

lemma run_inv_reachable:
  assumes "(bootstrap_step xof wb_size venc)\<^sup>*\<^sup>* r0 r" "bootstrap_start xof venc r0" "xof_fills xof"
  shows "run_inv xof venc r"
  using assms by (induction rule: rtranclp_induct) (auto intro: run_inv_start run_inv_step)

section \<open>The stream ends when the server is quiet\<close>

text \<open>A session is fresh when its cursors were computed for the current content of the server.\<close>

definition fresh_step :: "bytes streaming_step \<Rightarrow> 'c option \<Rightarrow> 'c massa_db \<Rightarrow> bool" where
  "fresh_step step slot srv \<longleftrightarrow> step = Started \<or> slot = meta_change_id srv"

definition fresh_session :: "'c massa_db \<Rightarrow> 'c server_session \<Rightarrow> bool" where
  "fresh_session srv s \<longleftrightarrow> fresh_step (last_state_step s) (last_slot s) srv
     \<and> fresh_step (last_versioning_step s) (last_slot s) srv
     \<and> (last_slot s = None \<or> last_slot s = meta_change_id srv)"

definition remaining :: "bytes streaming_step \<Rightarrow> (bytes, bytes) btree \<Rightarrow> nat" where
  "remaining step cf = length (filter (\<lambda>e. \<not> in_bound step (fst e)) cf) + (if finished step then 0 else 1)"

lemma updates_since_fresh:
  "meta_change_id srv = Some cur \<Longrightarrow> fresh_step step slot srv \<Longrightarrow> updates_since hist cur step slot = Inr []"
  by (cases step) (auto simp: updates_since_def fresh_step_def)

lemma remaining_after:
  assumes wf: "bt_wf cf" and N: "N = new_elements_after venc m step cf"
    and c: "server_cursor step \<lparr>new_elements = N, updates_on_previous_elements = [], batch_change_id = cur\<rparr> = Inr step'"
  shows "finished step \<longrightarrow> N = []" and "if finished step then finished step' \<and> remaining step' cf = 0
    else remaining step' cf < remaining step cf"
proof -
  show fin: "finished step \<longrightarrow> N = []" by (simp add: N new_elements_after_def)
  have le: "length (filter (\<lambda>e. \<not> in_bound (Ongoing (fst (last N))) (fst e)) cf)
      < length (filter (\<lambda>e. \<not> in_bound step (fst e)) cf)" if ne: "N \<noteq> []"
  proof -
    note f = new_elements_after_facts [OF wf N]
    have "filter (\<lambda>e. \<not> in_bound (Ongoing (fst (last N))) (fst e)) cf
        = filter (\<lambda>e. \<not> fst e \<le> fst (last N)) (filter (\<lambda>e. \<not> in_bound step (fst e)) cf)"
      using f(4) [OF ne] by (auto intro!: filter_cong)
    moreover obtain n where "N = take n (filter (\<lambda>e. \<not> in_bound step (fst e)) cf)"
      unfolding N by (rule new_elements_after_prefix [OF wf])
    then have "set N \<subseteq> set (filter (\<lambda>e. \<not> in_bound step (fst e)) cf)"
      by (simp only: set_take_subset)
    then have "last N \<in> set (filter (\<lambda>e. \<not> in_bound step (fst e)) cf)"
      using last_in_set [OF ne] by blast
    then have "length (filter (\<lambda>e. \<not> fst e \<le> fst (last N)) (filter (\<lambda>e. \<not> in_bound step (fst e)) cf))
        < length (filter (\<lambda>e. \<not> in_bound step (fst e)) cf)"
      by (rule length_filter_less) simp
    ultimately show ?thesis by simp
  qed
  show "if finished step then finished step' \<and> remaining step' cf = 0
    else remaining step' cf < remaining step cf"
    using c le fin by (cases step)
      (auto simp: server_cursor_def stream_batch_is_empty_def remaining_def split: if_splits bool.splits)
qed

lemma server_cursor_quiet:
  "\<exists>step'. server_cursor step \<lparr>new_elements = N, updates_on_previous_elements = [], batch_change_id = cur\<rparr> = Inr step'"
  by (cases step) (auto simp: server_cursor_def stream_batch_is_empty_def split: bool.splits)

lemma serve_part_quiet:
  assumes cur: "meta_change_id srv = Some cur" and fresh: "fresh_session srv s"
  obtains sp vp s' where "serve_part venc srv s = Inr (sp, vp, s')"
    "sp = \<lparr>new_elements = new_elements_after venc (max_final_state_elements_size (config srv)) (last_state_step s)
             (state_cf srv), updates_on_previous_elements = [], batch_change_id = cur\<rparr>"
    "vp = \<lparr>new_elements = new_elements_after venc (max_versioning_elements_size (config srv)) (last_versioning_step s)
             (versioning_cf srv), updates_on_previous_elements = [], batch_change_id = cur\<rparr>"
    "server_cursor (last_state_step s) sp = Inr (last_state_step s')"
    "server_cursor (last_versioning_step s) vp = Inr (last_versioning_step s')"
    "last_slot s' = Some cur"
proof -
  let ?N = "new_elements_after venc (max_final_state_elements_size (config srv)) (last_state_step s) (state_cf srv)"
  let ?V = "new_elements_after venc (max_versioning_elements_size (config srv)) (last_versioning_step s) (versioning_cf srv)"
  have u: "updates_since (change_history srv) cur (last_state_step s) (last_slot s) = Inr []"
    "updates_since (change_history_versioning srv) cur (last_versioning_step s) (last_slot s) = Inr []"
    using fresh by (simp_all add: fresh_session_def updates_since_fresh [OF cur])
  obtain s1 where s1: "server_cursor (last_state_step s)
      \<lparr>new_elements = ?N, updates_on_previous_elements = [], batch_change_id = cur\<rparr> = Inr s1"
    by (rule exE [OF server_cursor_quiet])
  obtain s2 where s2: "server_cursor (last_versioning_step s)
      \<lparr>new_elements = ?V, updates_on_previous_elements = [], batch_change_id = cur\<rparr> = Inr s2"
    by (rule exE [OF server_cursor_quiet])
  show ?thesis
    by (rule that [of _ _ "\<lparr>last_slot = Some cur, last_state_step = s1, last_versioning_step = s2\<rparr>"])
      (use s1 s2 u cur fresh in \<open>auto simp: serve_part_def part_or_error_def get_batch_to_stream_def
        get_versioning_batch_to_stream_def get_change_id_def result_simps fresh_session_def\<close>)
qed

lemma quiet_run_finishes:
  assumes "run_inv xof venc r" "xof_fills xof" "fresh_session (server_db r) (session r)"
  shows "\<exists>r' sp vp s. (bootstrap_step xof wb_size venc)\<^sup>*\<^sup>* r r' \<and> server_db r' = server_db r
    \<and> serve_part venc (server_db r') (session r') = Inr (sp, vp, s) \<and> bootstrap_finished sp vp s"
  using assms
proof (induction "remaining (last_state_step (session r)) (state_cf (server_db r))
    + remaining (last_versioning_step (session r)) (versioning_cf (server_db r))" arbitrary: r rule: less_induct)
  case less
  let ?srv = "server_db r" and ?s = "session r"
  obtain cur where cur: "meta_change_id ?srv = Some cur" and wf: "bt_wf (state_cf ?srv)" "bt_wf (versioning_cf ?srv)"
    using less(2) by (auto simp: run_inv_def elim: db_wfD)
  obtain sp vp s where sv: "serve_part venc ?srv ?s = Inr (sp, vp, s)"
    and sp: "sp = \<lparr>new_elements = new_elements_after venc (max_final_state_elements_size (config ?srv))
        (last_state_step ?s) (state_cf ?srv), updates_on_previous_elements = [], batch_change_id = cur\<rparr>"
    and vp: "vp = \<lparr>new_elements = new_elements_after venc (max_versioning_elements_size (config ?srv))
        (last_versioning_step ?s) (versioning_cf ?srv), updates_on_previous_elements = [], batch_change_id = cur\<rparr>"
    and c: "server_cursor (last_state_step ?s) sp = Inr (last_state_step s)"
      "server_cursor (last_versioning_step ?s) vp = Inr (last_versioning_step s)" "last_slot s = Some cur"
    by (rule serve_part_quiet [OF cur less(4), of venc])
  note m1 = remaining_after [OF wf(1) refl, OF c(1) [unfolded sp]]
  note m2 = remaining_after [OF wf(2) refl, OF c(2) [unfolded vp]]
  show ?case
  proof (cases "bootstrap_finished sp vp s")
    case True
    with sv show ?thesis by blast
  next
    case False
    have "\<not> finished (last_state_step ?s) \<or> \<not> finished (last_versioning_step ?s)"
      using False m1 m2 by (auto simp: bootstrap_finished_def stream_batch_is_empty_def sp vp)
    then have less': "remaining (last_state_step s) (state_cf ?srv) + remaining (last_versioning_step s) (versioning_cf ?srv)
        < remaining (last_state_step ?s) (state_cf ?srv) + remaining (last_versioning_step ?s) (versioning_cf ?srv)"
      using m1(2) m2(2) by (auto split: if_splits)
    obtain c1 c2 db where w: "write_batch_bootstrap_client xof wb_size sp vp (client_db r) = Inr ((c1, c2), db)"
      by (rule client_write_accepted [OF less(2,3) sv, of wb_size])
    define r1 where "r1 = r\<lparr>session := s, client_db := db,
      next_message := \<lparr>last_slot = last_slot s, last_state_step = c1, last_versioning_step = c2\<rparr>\<rparr>"
    have step: "bootstrap_step xof wb_size venc r r1"
      unfolding r1_def by (rule bootstrap_step.exchange [OF sv False w])
    have "fresh_session ?srv s" using c(3) cur by (simp add: fresh_session_def fresh_step_def)
    then obtain r' sp' vp' s' where "(bootstrap_step xof wb_size venc)\<^sup>*\<^sup>* r1 r'" "server_db r' = ?srv"
        "serve_part venc (server_db r') (session r') = Inr (sp', vp', s')" "bootstrap_finished sp' vp' s'"
      using less(1) [of r1] less' run_inv_step [OF step less(3,2)] less(3) by (auto simp: r1_def)
    with step show ?thesis by (meson converse_rtranclp_into_rtranclp)
  qed
qed

section \<open>Properties\<close>




definition example_venc :: "u64 \<Rightarrow> bytes" where
  "example_venc n = leb128 (unat n)"

definition example_run :: "slot bootstrap_run" where
  "example_run = \<lparr>server_db = example_db [([1], [2]), ([1, 0], [3])] (Slot 5 0),
     session = \<lparr>last_slot = None, last_state_step = Started, last_versioning_step = Started\<rparr>,
     client_db = example_db [] (Slot 0 0),
     next_message = \<lparr>last_slot = None, last_state_step = Started, last_versioning_step = Started\<rparr>\<rparr>"

lemma example_run_start: "bootstrap_start example_xof example_venc example_run"
  by (simp add: bootstrap_start_def example_run_def example_db_wf bt_wf_Cons)
    (simp add: example_db_def example_config_def entries_fit_def entry_wire_size_def example_venc_def
      leb128.simps less_eq_slot_def)

lemma example_run_fresh: "fresh_session (server_db example_run) (session example_run)"
  by (simp add: fresh_session_def fresh_step_def example_run_def)




section \<open>Limits of the stream\<close>

text \<open>An entry larger than the part size, first in a batch, is not taken: the batch is empty and the
  client considers its stream finished although entries remain.\<close>

lemma oversized_entry_ends_stream:
  "m < entry_wire_size venc k v \<Longrightarrow>
     client_cursor (new_elements_after venc m Started ((k, v) # rest)) = Finished None"
  by (simp add: new_elements_after_def iterator_from_def client_cursor_def Let_def)

text \<open>Nothing is sent again to a client that is at the server's change id, whatever was written
  under that id since.\<close>

lemma same_change_id_not_resent: "step \<noteq> Started \<Longrightarrow> updates_since hist cur step (Some cur) = Inr []"
  by (cases step) (auto simp: updates_since_def)

end
