(* ===== verification/Massa_Types.thy ===== *)
theory Massa_Types
  imports Massa_Prelude
begin

text \<open>
  \<^verbatim>\<open>massa-models/src/types.rs\<close>: the change enumerations \<open>SetUpdateOrDelete\<close>,
  \<open>SetOrDelete\<close> and \<open>SetOrKeep\<close> and what it means to apply one change after another.
  \<open>T::default()\<close> and the two \<open>Applicable::apply\<close> implementations that the Rust
  code finds through trait bounds are arguments.  The locale \<open>applicable\<close> states the
  contract of such a pair of implementations; inside it, merging changes is shown to be
  composition of their effects on an optional value.
\<close>

datatype ('t, 'v) set_update_or_delete = SUD_Set 't | SUD_Update 'v | SUD_Delete

datatype 't set_or_delete = SOD_Set 't | SOD_Delete

datatype 't set_or_keep = SOK_Set 't | SOK_Keep

fun sud_apply ::
    "'t \<Rightarrow> ('t \<Rightarrow> 'v \<Rightarrow> 't) \<Rightarrow> ('v \<Rightarrow> 'v \<Rightarrow> 'v)
      \<Rightarrow> ('t, 'v) set_update_or_delete \<Rightarrow> ('t, 'v) set_update_or_delete
      \<Rightarrow> ('t, 'v) set_update_or_delete" where
  "sud_apply dflt apply_t apply_v self (SUD_Set x) = SUD_Set x"
| "sud_apply dflt apply_t apply_v self (SUD_Update u) =
     (case self of
        SUD_Set cur \<Rightarrow> SUD_Set (apply_t cur u)
      | SUD_Update cur \<Rightarrow> SUD_Update (apply_v cur u)
      | SUD_Delete \<Rightarrow> SUD_Set (apply_t dflt u))"
| "sud_apply dflt apply_t apply_v self SUD_Delete = SUD_Delete"

definition sod_apply :: "'t set_or_delete \<Rightarrow> 't set_or_delete \<Rightarrow> 't set_or_delete" where
  "sod_apply self other = other"

fun sok_apply :: "'t set_or_keep \<Rightarrow> 't set_or_keep \<Rightarrow> 't set_or_keep" where
  "sok_apply self (SOK_Set v) = SOK_Set v"
| "sok_apply self SOK_Keep = self"

fun sok_apply_to :: "'t set_or_keep \<Rightarrow> 't \<Rightarrow> 't" where
  "sok_apply_to (SOK_Set v) x = v"
| "sok_apply_to SOK_Keep x = x"

text \<open>\<open>HashMap::extend\<close> and \<open>BTreeMap::extend\<close>: the entries of the argument win.\<close>

definition map_extend :: "('k \<rightharpoonup> 'v) \<Rightarrow> ('k \<rightharpoonup> 'v) \<Rightarrow> 'k \<rightharpoonup> 'v" where
  "map_extend m other = (\<lambda>k. case other k of Some v \<Rightarrow> Some v | None \<Rightarrow> m k)"

lemma map_extend_assoc: "map_extend (map_extend a b) c = map_extend a (map_extend b c)"
  by (auto simp: map_extend_def fun_eq_iff split: option.splits)

lemma map_extend_empty [simp]: "map_extend m Map.empty = m" "map_extend Map.empty m = m"
  by (auto simp: map_extend_def fun_eq_iff split: option.splits)

lemma map_extend_apply: "map_extend m n k = (case n k of Some v \<Rightarrow> Some v | None \<Rightarrow> m k)"
  by (simp add: map_extend_def)

lemma sok_apply_to_apply: "sok_apply_to (sok_apply a b) x = sok_apply_to b (sok_apply_to a x)"
  by (cases b) auto

lemma sok_apply_assoc: "sok_apply (sok_apply a b) c = sok_apply a (sok_apply b c)"
  by (cases c) auto

section \<open>The effect of a change on an optional value\<close>

fun sud_effect ::
    "'t \<Rightarrow> ('t \<Rightarrow> 'v \<Rightarrow> 't) \<Rightarrow> ('t, 'v) set_update_or_delete \<Rightarrow> 't option \<Rightarrow> 't option" where
  "sud_effect dflt apply_t (SUD_Set x) cur = Some x"
| "sud_effect dflt apply_t (SUD_Update u) cur =
     Some (apply_t (case cur of None \<Rightarrow> dflt | Some x \<Rightarrow> x) u)"
| "sud_effect dflt apply_t SUD_Delete cur = None"

locale applicable =
  fixes dflt :: 't
    and apply_t :: "'t \<Rightarrow> 'v \<Rightarrow> 't"
    and apply_v :: "'v \<Rightarrow> 'v \<Rightarrow> 'v"
  assumes apply_t_apply_v: "apply_t x (apply_v u v) = apply_t (apply_t x u) v"
    and apply_v_assoc: "apply_v (apply_v u v) w = apply_v u (apply_v v w)"
begin

lemma sud_effect_apply:
  "sud_effect dflt apply_t (sud_apply dflt apply_t apply_v a b) x
     = sud_effect dflt apply_t b (sud_effect dflt apply_t a x)"
  by (cases b; cases a) (auto simp: apply_t_apply_v)

lemma sud_apply_assoc:
  "sud_apply dflt apply_t apply_v (sud_apply dflt apply_t apply_v a b) c
     = sud_apply dflt apply_t apply_v a (sud_apply dflt apply_t apply_v b c)"
  by (cases c; cases b; cases a) (auto simp: apply_t_apply_v apply_v_assoc)

end

section \<open>Maps of changes\<close>

text \<open>
  A change set is a map from keys to changes.  \<open>changes_merge\<close> is the loop of
  \<open>LedgerChanges::apply\<close> and its siblings: an incoming change is applied to the change that
  is already there, or inserted.  \<open>changes_effect\<close> is what a change set does to a store.
\<close>

definition changes_merge ::
    "('c \<Rightarrow> 'c \<Rightarrow> 'c) \<Rightarrow> ('k \<rightharpoonup> 'c) \<Rightarrow> ('k \<rightharpoonup> 'c) \<Rightarrow> 'k \<rightharpoonup> 'c" where
  "changes_merge ap self changes = (\<lambda>k.
     case changes k of
       None \<Rightarrow> self k
     | Some change \<Rightarrow> (case self k of
           Some cur \<Rightarrow> Some (ap cur change)
         | None \<Rightarrow> Some change))"

fun changes_merge_loop ::
    "('c \<Rightarrow> 'c \<Rightarrow> 'c) \<Rightarrow> ('k \<rightharpoonup> 'c) \<Rightarrow> ('k \<times> 'c) list \<Rightarrow> 'k \<rightharpoonup> 'c" where
  "changes_merge_loop ap self [] = self"
| "changes_merge_loop ap self ((k, change) # rest) =
     changes_merge_loop ap
       (self(k \<mapsto> (case self k of Some cur \<Rightarrow> ap cur change | None \<Rightarrow> change))) rest"

definition changes_effect ::
    "('c \<Rightarrow> 't option \<Rightarrow> 't option) \<Rightarrow> ('k \<rightharpoonup> 'c) \<Rightarrow> ('k \<rightharpoonup> 't) \<Rightarrow> 'k \<rightharpoonup> 't" where
  "changes_effect eff changes store = (\<lambda>k.
     case changes k of None \<Rightarrow> store k | Some change \<Rightarrow> eff change (store k))"

text \<open>The loop does not depend on the order in which the hash map is iterated.\<close>

lemma changes_merge_loop_eq:
  "distinct (map fst kvs) \<Longrightarrow>
     changes_merge_loop ap self kvs = changes_merge ap self (map_of kvs)"
proof (induction kvs arbitrary: self)
  case Nil
  then show ?case by (simp add: changes_merge_def)
next
  case (Cons kc kvs)
  obtain k c where kc: "kc = (k, c)" by (cases kc)
  have fresh: "map_of kvs k = None"
    using Cons.prems kc by (simp add: map_of_eq_None_iff)
  show ?case
    using Cons fresh by (auto simp: kc changes_merge_def fun_eq_iff split: option.splits)
qed

lemma changes_effect_empty [simp]: "changes_effect eff Map.empty store = store"
  by (simp add: changes_effect_def)

locale change_algebra =
  fixes ap :: "'c \<Rightarrow> 'c \<Rightarrow> 'c"
    and eff :: "'c \<Rightarrow> 't option \<Rightarrow> 't option"
  assumes eff_ap: "eff (ap a b) x = eff b (eff a x)"
    and ap_assoc: "ap (ap a b) c = ap a (ap b c)"
begin

lemma changes_effect_merge:
  "changes_effect eff (changes_merge ap c d) store
     = changes_effect eff d (changes_effect eff c store)"
  by (auto simp: changes_effect_def changes_merge_def fun_eq_iff eff_ap split: option.splits)

lemma changes_merge_assoc:
  "changes_merge ap (changes_merge ap c d) e = changes_merge ap c (changes_merge ap d e)"
  by (auto simp: changes_merge_def fun_eq_iff ap_assoc split: option.splits)

end

text \<open>Every applicable pair gives a change algebra.\<close>

sublocale applicable \<subseteq> sud: change_algebra
  "sud_apply dflt apply_t apply_v" "sud_effect dflt apply_t"
  by unfold_locales (rule sud_effect_apply, rule sud_apply_assoc)

end
