(* ===== verification/Massa_Serialization.thy ===== *)
theory Massa_Serialization
  imports Massa_Bytes Massa_Types
begin

text \<open>
  The binary format: \<^verbatim>\<open>massa-serialization/src/lib.rs\<close>, the generic (de)serializers of
  \<^verbatim>\<open>massa-models/src/serialization.rs\<close> and of \<^verbatim>\<open>massa-models/src/types.rs\<close>.

  A serializer gives the bytes it appends to the buffer, or an error.  A deserializer is a parser that
  gives the rest of the input and the value; the trace that the parser library attaches to an error is
  left out.  The variable-length integers come from a third-party package: its encoder and its decoder
  are the fields of the parameter \<open>varint_lib\<close>, and \<open>varint_ok\<close> states what the package
  documents (decoding inverts encoding, and only minimal encodings are accepted).

  The locale \<open>codec\<close> is the contract of a serializer and its deserializer, \<open>canonical_codec\<close>
  adds that no other input is accepted; each combinator takes contracts to contracts.
\<close>

section \<open>Serializers and deserializers\<close>

datatype serialize_error = NumberTooBig | SerializeGeneralError | StringTooBig

type_synonym 'a serializer = "'a \<Rightarrow> serialize_error + bytes"
type_synonym 'a deserializer = "bytes \<Rightarrow> (bytes \<times> 'a) option"

text \<open>The calls of a \<open>serialize\<close> body, in order, until the first error.\<close>

fun ser_seq :: "(serialize_error + bytes) list \<Rightarrow> serialize_error + bytes" where
  "ser_seq [] = Inr []"
| "ser_seq (r # rs) = rbind r (\<lambda>x. rbind (ser_seq rs) (\<lambda>y. Inr (x @ y)))"

text \<open>The parser combinators.\<close>

definition dret :: "'a \<Rightarrow> 'a deserializer" where
  "dret v = (\<lambda>input. Some (input, v))"

definition dbind :: "'a deserializer \<Rightarrow> ('a \<Rightarrow> 'b deserializer) \<Rightarrow> 'b deserializer" where
  "dbind d f = (\<lambda>input. case d input of None \<Rightarrow> None | Some (rest, v) \<Rightarrow> f v rest)"

definition dfail :: "'a deserializer" where
  "dfail = (\<lambda>input. None)"

definition dtake :: "nat \<Rightarrow> bytes deserializer" where
  "dtake n = (\<lambda>input. if n \<le> length input then Some (drop n input, take n input) else None)"

definition dbyte :: "u8 deserializer" where
  "dbyte = (\<lambda>input. case input of [] \<Rightarrow> None | b # rest \<Rightarrow> Some (rest, b))"

fun dcount :: "nat \<Rightarrow> 'a deserializer \<Rightarrow> 'a list deserializer" where
  "dcount 0 d = dret []"
| "dcount (Suc n) d = dbind d (\<lambda>x. dbind (dcount n d) (\<lambda>xs. dret (x # xs)))"

definition length_data :: "'a::len word deserializer \<Rightarrow> bytes deserializer" where
  "length_data d = dbind d (\<lambda>n. dtake (unat n))"

definition length_count :: "'a::len word deserializer \<Rightarrow> 'b deserializer \<Rightarrow> 'b list deserializer" where
  "length_count len d = dbind len (\<lambda>n. dcount (unat n) d)"

lemma dbind_simps [simp]:
  "dbind (dret v) f input = f v input"
  "dret v input = Some (input, v)"
  "dfail input = None"
  by (simp_all add: dbind_def dret_def dfail_def)

lemma dbind_Some: "d input = Some (rest, v) \<Longrightarrow> dbind d f input = f v rest"
  by (simp add: dbind_def)

lemma dbind_eq_Some: "dbind d f input = Some (rest, w) \<longleftrightarrow> (\<exists>r v. d input = Some (r, v) \<and> f v r = Some (rest, w))"
  by (auto simp: dbind_def split: option.splits)

lemma dtake_append [simp]: "n = length xs \<Longrightarrow> dtake n (xs @ rest) = Some (rest, xs)"
  by (simp add: dtake_def)

lemma dtake_eq_Some: "dtake n input = Some (rest, xs) \<longleftrightarrow> input = xs @ rest \<and> length xs = n"
  by (auto simp: dtake_def)

lemma dbyte_simps [simp]: "dbyte (b # rest) = Some (rest, b)" "dbyte [] = None"
  by (simp_all add: dbyte_def)

lemma dbind_dbyte [simp]:
  "dbind dbyte f (b # rest) = f b rest"
  "dbind dbyte f [] = None"
  by (simp_all add: dbind_def)

lemma dbyte_eq_Some: "dbyte input = Some (rest, b) \<longleftrightarrow> input = b # rest"
  by (auto simp: dbyte_def split: list.splits)

section \<open>Variable-length integers\<close>

record varint_lib =
  venc :: "nat \<Rightarrow> nat \<Rightarrow> bytes"
  vdec :: "nat \<Rightarrow> bytes \<Rightarrow> (bytes \<times> nat) option"

definition varint_ok :: "varint_lib \<Rightarrow> bool" where
  "varint_ok V \<longleftrightarrow>
     (\<forall>w n rest. n < 2 ^ w \<longrightarrow> vdec V w (venc V w n @ rest) = Some (rest, n))
     \<and> (\<forall>w input rest n. vdec V w input = Some (rest, n) \<longrightarrow> n < 2 ^ w \<and> input = venc V w n @ rest)"

definition varint_ser :: "varint_lib \<Rightarrow> 'a::len word serializer" where
  "varint_ser V value = Inr (venc V LENGTH('a) (unat value))"

definition varint_deser :: "varint_lib \<Rightarrow> 'a::len word bound \<times> 'a word bound \<Rightarrow> 'a word deserializer" where
  "varint_deser V rng = (\<lambda>input.
     case vdec V LENGTH('a) input of
       None \<Rightarrow> None
     | Some (rest, n) \<Rightarrow>
         let value = of_nat n in if range_contains rng value then Some (rest, value) else None)"

abbreviation full_range :: "'a::len word bound \<times> 'a word bound" where
  "full_range \<equiv> (Included 0, Included max_word_of)"

section \<open>Generic serializers\<close>

fun option_ser :: "'a serializer \<Rightarrow> 'a option serializer" where
  "option_ser s (Some value) = ser_seq [Inr [49], s value]"
| "option_ser s None = Inr [48]"

definition option_deser :: "'a deserializer \<Rightarrow> 'a option deserializer" where
  "option_deser d = dbind dbyte (\<lambda>tag.
     if tag = 48 then dret None
     else if tag = 49 then dbind d (\<lambda>v. dret (Some v))
     else dfail)"

definition bool_ser :: "bool serializer" where
  "bool_ser value = Inr [if value then 1 else 0]"

definition bool_deser :: "bool deserializer" where
  "bool_deser = dbind dbyte (\<lambda>first.
     if first = 1 then dret True else if first = 0 then dret False else dfail)"

definition vec_u8_ser :: "varint_lib \<Rightarrow> bytes serializer" where
  "vec_u8_ser V value =
     (if length value < 2 ^ 64
      then ser_seq [varint_ser V (of_nat (length value) :: u64), Inr value]
      else Inl NumberTooBig)"

definition vec_u8_deser :: "varint_lib \<Rightarrow> u64 bound \<times> u64 bound \<Rightarrow> bytes deserializer" where
  "vec_u8_deser V rng = length_data (varint_deser V rng)"

definition vec_ser :: "varint_lib \<Rightarrow> 'a serializer \<Rightarrow> 'a list serializer" where
  "vec_ser V s value = ser_seq (varint_ser V (of_nat (length value) :: u64) # map s value)"

definition vec_deser :: "varint_lib \<Rightarrow> 'a deserializer \<Rightarrow> u64 bound \<times> u64 bound \<Rightarrow> 'a list deserializer" where
  "vec_deser V d rng = length_count (varint_deser V rng) d"

text \<open>
  A Rust \<open>String\<close> is its UTF-8 bytes.  \<open>utf8_valid\<close> is the check of \<open>String::from_utf8\<close>:
  well-formed sequences of one to four bytes, no overlong form, no surrogate, at most \<open>U+10FFFF\<close>.
\<close>

abbreviation utf8_cont :: "u8 \<Rightarrow> bool" where
  "utf8_cont b \<equiv> 128 \<le> b \<and> b \<le> 191"

fun utf8_valid :: "bytes \<Rightarrow> bool" where
  "utf8_valid [] \<longleftrightarrow> True"
| "utf8_valid (a # input) \<longleftrightarrow>
     (if a < 128 then utf8_valid input
      else if 194 \<le> a \<and> a \<le> 223 then
        (case input of b # rest \<Rightarrow> utf8_cont b \<and> utf8_valid rest | _ \<Rightarrow> False)
      else if 224 \<le> a \<and> a \<le> 239 then
        (case input of
           b # c # rest \<Rightarrow>
             (if a = 224 then 160 \<le> b \<and> b \<le> 191 else if a = 237 then 128 \<le> b \<and> b \<le> 159 else utf8_cont b)
             \<and> utf8_cont c \<and> utf8_valid rest
         | _ \<Rightarrow> False)
      else if 240 \<le> a \<and> a \<le> 244 then
        (case input of
           b # c # d # rest \<Rightarrow>
             (if a = 240 then 144 \<le> b \<and> b \<le> 191 else if a = 244 then 128 \<le> b \<and> b \<le> 143 else utf8_cont b)
             \<and> utf8_cont c \<and> utf8_cont d \<and> utf8_valid rest
         | _ \<Rightarrow> False)
      else False)"

definition string_u16_ser :: "varint_lib \<Rightarrow> bytes serializer" where
  "string_u16_ser V value =
     (if length value < 2 ^ 16
      then ser_seq [varint_ser V (of_nat (length value) :: u16), Inr value]
      else Inl StringTooBig)"

definition string_u16_deser :: "varint_lib \<Rightarrow> u16 bound \<times> u16 bound \<Rightarrow> bytes deserializer" where
  "string_u16_deser V rng =
     dbind (length_data (varint_deser V rng)) (\<lambda>data. if utf8_valid data then dret data else dfail)"

section \<open>Serializers of changes\<close>

fun sud_ser :: "'t serializer \<Rightarrow> 'v serializer \<Rightarrow> ('t, 'v) set_update_or_delete serializer" where
  "sud_ser st sv (SUD_Set value) = ser_seq [Inr [0], st value]"
| "sud_ser st sv (SUD_Update value) = ser_seq [Inr [1], sv value]"
| "sud_ser st sv SUD_Delete = Inr [2]"

definition sud_deser ::
    "'t deserializer \<Rightarrow> 'v deserializer \<Rightarrow> ('t, 'v) set_update_or_delete deserializer" where
  "sud_deser dt dv = dbind dbyte (\<lambda>tag.
     if tag = 0 then dbind dt (\<lambda>value. dret (SUD_Set value))
     else if tag = 1 then dbind dv (\<lambda>value. dret (SUD_Update value))
     else if tag = 2 then dret SUD_Delete
     else dfail)"

fun sod_ser :: "'t serializer \<Rightarrow> 't set_or_delete serializer" where
  "sod_ser s (SOD_Set value) = ser_seq [Inr [0], s value]"
| "sod_ser s SOD_Delete = Inr [1]"

definition sod_deser :: "'t deserializer \<Rightarrow> 't set_or_delete deserializer" where
  "sod_deser d = dbind dbyte (\<lambda>tag.
     if tag = 0 then dbind d (\<lambda>value. dret (SOD_Set value))
     else if tag = 1 then dret SOD_Delete
     else dfail)"

fun sok_ser :: "'t serializer \<Rightarrow> 't set_or_keep serializer" where
  "sok_ser s (SOK_Set value) = ser_seq [Inr [0], s value]"
| "sok_ser s SOK_Keep = Inr [1]"

definition sok_deser :: "'t deserializer \<Rightarrow> 't set_or_keep deserializer" where
  "sok_deser d = dbind dbyte (\<lambda>tag.
     if tag = 0 then dbind d (\<lambda>value. dret (SOK_Set value))
     else if tag = 1 then dret SOK_Keep
     else dfail)"

section \<open>The contract\<close>

locale codec =
  fixes ser :: "'a serializer" and deser :: "'a deserializer" and ok :: "'a \<Rightarrow> bool"
  assumes ser_total: "ok v \<Longrightarrow> \<exists>b. ser v = Inr b"
    and deser_ser: "ok v \<Longrightarrow> ser v = Inr b \<Longrightarrow> deser (b @ rest) = Some (rest, v)"
begin

lemma prefix_free:
  assumes "ok v" "ok w" "ser v = Inr b" "ser w = Inr c" "b @ r = c @ s"
  shows "v = w \<and> r = s"
  using deser_ser [OF assms(1,3), of r] deser_ser [OF assms(2,4), of s] assms(5) by simp

lemma ser_inj: "ok v \<Longrightarrow> ok w \<Longrightarrow> ser v = ser w \<Longrightarrow> v = w"
  using ser_total [of v] prefix_free [of v w _ _ "[]" "[]"] by force

end

locale canonical_codec = codec +
  assumes deser_only: "deser input = Some (rest, v) \<Longrightarrow> ok v \<and> (\<exists>b. ser v = Inr b \<and> input = b @ rest)"
begin

lemma deser_iff: "deser input = Some (rest, v) \<longleftrightarrow> ok v \<and> (\<exists>b. ser v = Inr b \<and> input = b @ rest)"
  using deser_only deser_ser by blast

end

lemma canonical_codec_iff:
  "canonical_codec s d ok \<longleftrightarrow>
     (\<forall>v. ok v \<longrightarrow> (\<exists>b. s v = Inr b))
     \<and> (\<forall>input rest v. d input = Some (rest, v) \<longleftrightarrow> ok v \<and> (\<exists>b. s v = Inr b \<and> input = b @ rest))"
  by (auto simp: canonical_codec_def canonical_codec_axioms_def codec_def)

lemma canonical_codecI:
  assumes "\<And>v. ok v \<Longrightarrow> \<exists>b. s v = Inr b"
    and "\<And>input rest v. d input = Some (rest, v) \<longleftrightarrow> ok v \<and> (\<exists>b. s v = Inr b \<and> input = b @ rest)"
  shows "canonical_codec s d ok"
  using assms by (simp add: canonical_codec_iff)

lemmas canonical_deser_iff = canonical_codec.deser_iff
lemmas canonical_ser_total = codec.ser_total [OF canonical_codec.axioms(1)]

lemma ser_seq_Cons_Inr: "ser_seq (r # rs) = Inr b \<longleftrightarrow> (\<exists>x y. r = Inr x \<and> ser_seq rs = Inr y \<and> b = x @ y)"
  by (auto simp: result_simps)

declare ser_seq.simps(2) [simp del]
declare ser_seq_Cons_Inr [simp]

lemma ser_seq_Inr_simps [simp]:
  "ser_seq (Inr x # rs) = rbind (ser_seq rs) (\<lambda>y. Inr (x @ y))"
  "ser_seq (Inl e # rs) = Inl e"
  by (simp_all add: ser_seq.simps)

lemma ser_seq_total: "(\<exists>b. ser_seq rs = Inr b) \<longleftrightarrow> list_all (\<lambda>r. \<exists>b. r = Inr b) rs"
  by (induction rs) auto

lemma if_apply: "(if c then f else g) x = (if c then f x else g x)"
  by simp

lemmas deser_simps = dbind_eq_Some dtake_eq_Some result_simps if_apply

lemma dbind_canonical:
  "canonical_codec s d ok \<Longrightarrow>
     dbind d f input = Some (rest, w) \<longleftrightarrow>
     (\<exists>v b r. ok v \<and> s v = Inr b \<and> input = b @ r \<and> f v r = Some (rest, w))"
  by (auto simp: dbind_eq_Some canonical_deser_iff)

lemma dbind_intro:
  "canonical_codec s d ok \<Longrightarrow> s v = Inr b \<Longrightarrow> ok v \<Longrightarrow> f v r = Some (rest, w) \<Longrightarrow>
     dbind d f (b @ r) = Some (rest, w)"
  by (auto simp: dbind_canonical)

interpretation bool_codec: canonical_codec bool_ser bool_deser "\<lambda>_. True"
proof (rule canonical_codecI)
  fix v input rest
  show "\<exists>b. bool_ser v = Inr b" by (simp add: bool_ser_def)
  show "bool_deser input = Some (rest, v) \<longleftrightarrow> True \<and> (\<exists>b. bool_ser v = Inr b \<and> input = b @ rest)"
    by (cases v; cases input) (auto simp: bool_ser_def bool_deser_def deser_simps split: if_splits)
qed

lemma codec_varint:
  assumes "varint_ok V"
  shows "canonical_codec (varint_ser V) (varint_deser V rng) (range_contains rng)"
proof (rule canonical_codecI)
  fix v :: "'a word" and rest input
  show "\<exists>b. varint_ser V v = Inr b" by (simp add: varint_ser_def)
  have dec: "vdec V LENGTH('a) input = Some (rest, n) \<longleftrightarrow> n < 2 ^ LENGTH('a) \<and> input = venc V LENGTH('a) n @ rest" for n
    using assms unfolding varint_ok_def by blast
  have "varint_deser V rng input = Some (rest, v) \<longleftrightarrow>
      (\<exists>n. vdec V LENGTH('a) input = Some (rest, n) \<and> v = of_nat n \<and> range_contains rng v)"
    by (auto simp: varint_deser_def Let_def split: option.splits if_splits)
  also have "\<dots> \<longleftrightarrow> range_contains rng v \<and> input = venc V LENGTH('a) (unat v) @ rest"
    unfolding dec using unat_lt_2p [of v] by (auto simp: unat_of_nat intro: exI [of _ "unat v"])
  finally show "varint_deser V rng input = Some (rest, v)
      \<longleftrightarrow> range_contains rng v \<and> (\<exists>b. varint_ser V v = Inr b \<and> input = b @ rest)"
    by (simp add: varint_ser_def)
qed

lemma codec_option:
  assumes "canonical_codec s d ok"
  shows "canonical_codec (option_ser s) (option_deser d) (pred_option ok)"
proof (rule canonical_codecI)
  fix v :: "'a option" and rest input
  show "pred_option ok v \<Longrightarrow> \<exists>b. option_ser s v = Inr b"
    using canonical_ser_total [OF assms] by (cases v) (auto simp: result_simps)
  show "option_deser d input = Some (rest, v)
      \<longleftrightarrow> pred_option ok v \<and> (\<exists>b. option_ser s v = Inr b \<and> input = b @ rest)"
    by (cases v; cases input) (auto simp: option_deser_def deser_simps canonical_deser_iff [OF assms] split: if_splits)
qed

lemma codec_sok:
  assumes "canonical_codec s d ok"
  shows "canonical_codec (sok_ser s) (sok_deser d) (pred_set_or_keep ok)"
proof (rule canonical_codecI)
  fix v :: "'a set_or_keep" and rest input
  show "pred_set_or_keep ok v \<Longrightarrow> \<exists>b. sok_ser s v = Inr b"
    using canonical_ser_total [OF assms] by (cases v) (auto simp: result_simps)
  show "sok_deser d input = Some (rest, v)
      \<longleftrightarrow> pred_set_or_keep ok v \<and> (\<exists>b. sok_ser s v = Inr b \<and> input = b @ rest)"
    by (cases v; cases input) (auto simp: sok_deser_def deser_simps canonical_deser_iff [OF assms] split: if_splits)
qed

lemma codec_sod:
  assumes "canonical_codec s d ok"
  shows "canonical_codec (sod_ser s) (sod_deser d) (pred_set_or_delete ok)"
proof (rule canonical_codecI)
  fix v :: "'a set_or_delete" and rest input
  show "pred_set_or_delete ok v \<Longrightarrow> \<exists>b. sod_ser s v = Inr b"
    using canonical_ser_total [OF assms] by (cases v) (auto simp: result_simps)
  show "sod_deser d input = Some (rest, v)
      \<longleftrightarrow> pred_set_or_delete ok v \<and> (\<exists>b. sod_ser s v = Inr b \<and> input = b @ rest)"
    by (cases v; cases input) (auto simp: sod_deser_def deser_simps canonical_deser_iff [OF assms] split: if_splits)
qed

lemma codec_sud:
  assumes "canonical_codec st dt okt" "canonical_codec sv dv okv"
  shows "canonical_codec (sud_ser st sv) (sud_deser dt dv) (pred_set_update_or_delete okt okv)"
proof (rule canonical_codecI)
  fix v :: "('a, 'b) set_update_or_delete" and rest input
  show "pred_set_update_or_delete okt okv v \<Longrightarrow> \<exists>b. sud_ser st sv v = Inr b"
    using canonical_ser_total [OF assms(1)] canonical_ser_total [OF assms(2)] by (cases v) (auto simp: result_simps)
  show "sud_deser dt dv input = Some (rest, v)
      \<longleftrightarrow> pred_set_update_or_delete okt okv v \<and> (\<exists>b. sud_ser st sv v = Inr b \<and> input = b @ rest)"
    by (cases v; cases input) (auto simp: sud_deser_def deser_simps canonical_deser_iff [OF assms(1)]
        canonical_deser_iff [OF assms(2)] split: if_splits)
qed

text \<open>Data preceded by its length.\<close>

lemma unat_eq_iff_of_nat: "unat n = k \<longleftrightarrow> k < 2 ^ LENGTH('a) \<and> n = of_nat k" for n :: "'a::len word"
  by (auto simp: unat_of_nat)

lemma length_data_eq_Some:
  assumes "varint_ok V"
  shows "length_data (varint_deser V (rng :: 'a::len word bound \<times> 'a word bound)) input = Some (rest, data) \<longleftrightarrow>
    length data < 2 ^ LENGTH('a) \<and> range_contains rng (of_nat (length data))
    \<and> input = venc V LENGTH('a) (length data) @ data @ rest"
  by (auto simp: length_data_def deser_simps canonical_deser_iff [OF codec_varint [OF assms]] varint_ser_def
      unat_eq_iff_of_nat eq_commute [of "length data"] unat_of_nat)

lemma codec_vec_u8:
  assumes "varint_ok V"
  shows "canonical_codec (vec_u8_ser V) (vec_u8_deser V rng)
    (\<lambda>v. length v < 2 ^ 64 \<and> range_contains rng (of_nat (length v)))"
  by (rule canonical_codecI)
    (auto simp: vec_u8_ser_def vec_u8_deser_def length_data_eq_Some [OF assms] varint_ser_def unat_of_nat)

lemma codec_string_u16:
  assumes "varint_ok V"
  shows "canonical_codec (string_u16_ser V) (string_u16_deser V rng)
    (\<lambda>v. length v < 2 ^ 16 \<and> range_contains rng (of_nat (length v)) \<and> utf8_valid v)"
  by (rule canonical_codecI)
    (auto simp: string_u16_ser_def string_u16_deser_def length_data_eq_Some [OF assms] varint_ser_def
      unat_of_nat deser_simps split: if_splits)

text \<open>Lists.\<close>

lemma dcount_eq_Some:
  assumes "canonical_codec s d ok"
  shows "dcount n d input = Some (rest, xs) \<longleftrightarrow>
    length xs = n \<and> list_all ok xs \<and> (\<exists>b. ser_seq (map s xs) = Inr b \<and> input = b @ rest)"
proof (induction n arbitrary: input xs)
  case (Suc n)
  then show ?case by (cases xs) (auto simp: deser_simps canonical_deser_iff [OF assms])
qed auto

lemma codec_vec:
  assumes "varint_ok V" "canonical_codec s d ok"
  shows "canonical_codec (vec_ser V s) (vec_deser V d rng)
    (\<lambda>v. length v < 2 ^ 64 \<and> range_contains rng (of_nat (length v)) \<and> list_all ok v)"
proof (rule canonical_codecI)
  fix v input rest
  have "list_all ok v \<Longrightarrow> \<exists>b. ser_seq (map s v) = Inr b"
    using canonical_ser_total [OF assms(2)] by (induction v) auto
  then show "length v < 2 ^ 64 \<and> range_contains rng (of_nat (length v)) \<and> list_all ok v \<Longrightarrow> \<exists>b. vec_ser V s v = Inr b"
    by (auto simp: vec_ser_def varint_ser_def)
  show "vec_deser V d rng input = Some (rest, v) \<longleftrightarrow>
      (length v < 2 ^ 64 \<and> range_contains rng (of_nat (length v)) \<and> list_all ok v)
      \<and> (\<exists>b. vec_ser V s v = Inr b \<and> input = b @ rest)"
    by (auto simp: vec_deser_def vec_ser_def length_count_def deser_simps dcount_eq_Some [OF assms(2)]
        canonical_deser_iff [OF codec_varint [OF assms(1)]] varint_ser_def
        unat_eq_iff_of_nat eq_commute [of "length v"] unat_of_nat)
qed

section \<open>An instance of the integer package\<close>

definition example_varint :: varint_lib where
  "example_varint =
     \<lparr>venc = \<lambda>w n. leb128 n,
      vdec = \<lambda>w input. case unleb128 input of
          None \<Rightarrow> None
        | Some (rest, n) \<Rightarrow> if n < 2 ^ w \<and> input = leb128 n @ rest then Some (rest, n) else None\<rparr>"

lemma varint_ok_example: "varint_ok example_varint"
  by (auto simp: varint_ok_def example_varint_def unleb128_leb128 split: option.splits if_splits)

end
