(* ===== verification/Massa_Amount.thy ===== *)
theory Massa_Amount
  imports Massa_Slot
begin

text \<open>
  \<^verbatim>\<open>massa-models/src/amount.rs\<close>: amounts of coins, a fixed-point number with nine decimals
  over a raw \<open>u64\<close>.  The conversions through the third-party \<open>Decimal\<close> type are not
  modelled; \<open>const_init\<close>, which computes over \<open>u128\<close>, is.
\<close>

type_synonym amount = u64

definition AMOUNT_DECIMAL_SCALE :: u32 where
  "AMOUNT_DECIMAL_SCALE = 9"

definition AMOUNT_DECIMAL_FACTOR :: u64 where
  "AMOUNT_DECIMAL_FACTOR = 10 ^ 9"

definition amount_zero :: amount where
  [massa_defs]: "amount_zero = 0"

definition amount_saturating_add :: "amount \<Rightarrow> amount \<Rightarrow> amount" where
  [massa_defs]: "amount_saturating_add self a = saturating_add self a"

definition amount_saturating_sub :: "amount \<Rightarrow> amount \<Rightarrow> amount" where
  [massa_defs]: "amount_saturating_sub self a = saturating_sub self a"

definition amount_is_zero :: "amount \<Rightarrow> bool" where
  [massa_defs]: "amount_is_zero self \<longleftrightarrow> self = 0"

definition amount_checked_sub :: "amount \<Rightarrow> amount \<Rightarrow> amount option" where
  [massa_defs]: "amount_checked_sub self a = checked_sub self a"

definition amount_checked_add :: "amount \<Rightarrow> amount \<Rightarrow> amount option" where
  [massa_defs]: "amount_checked_add self a = checked_add self a"

definition amount_checked_mul_u64 :: "amount \<Rightarrow> u64 \<Rightarrow> amount option" where
  [massa_defs]: "amount_checked_mul_u64 self factor = checked_mul self factor"

definition amount_saturating_mul_u64 :: "amount \<Rightarrow> u64 \<Rightarrow> amount" where
  [massa_defs]: "amount_saturating_mul_u64 self factor = saturating_mul self factor"

definition amount_checked_div_u64 :: "amount \<Rightarrow> u64 \<Rightarrow> amount option" where
  [massa_defs]: "amount_checked_div_u64 self factor = checked_div self factor"

definition amount_checked_div :: "amount \<Rightarrow> amount \<Rightarrow> u64 option" where
  [massa_defs]: "amount_checked_div self divisor = checked_div self divisor"

definition amount_checked_rem :: "amount \<Rightarrow> amount \<Rightarrow> amount option" where
  [massa_defs]: "amount_checked_rem self divisor = checked_rem self divisor"

definition amount_checked_rem_u64 :: "amount \<Rightarrow> u64 \<Rightarrow> amount option" where
  [massa_defs]: "amount_checked_rem_u64 self divisor = checked_rem self divisor"

text \<open>The \<open>u128\<close> product cannot overflow; the three panics are the error \<open>Panic\<close>.\<close>

definition const_init :: "u64 \<Rightarrow> u32 \<Rightarrow> models_error + amount" where
  "const_init mantissa scale =
     (let raw_mantissa = (ucast mantissa :: u128) * ucast AMOUNT_DECIMAL_FACTOR in
      if 2 ^ 128 \<le> (10 :: nat) ^ unat scale then Inl Panic
      else let scale_factor = (of_nat (10 ^ unat scale) :: u128) in
           if raw_mantissa mod scale_factor \<noteq> 0 then Inl Panic
           else let res = raw_mantissa div scale_factor in
                if res \<le> ucast (max_word_of :: u64) then Inr (ucast res) else Inl Panic)"

lemma unat_ucast_u64_u128: "unat (ucast (x :: u64) :: u128) = unat x"
  by transfer (simp add: take_bit_take_bit)

lemma unat_ucast_u128_u64: "unat (x :: u128) < 2 ^ 64 \<Longrightarrow> unat (ucast x :: u64) = unat x"
  by (simp add: unsigned_ucast_eq take_bit_nat_eq_self)

text \<open>\<open>const_init\<close> succeeds exactly when the decimal has an exact raw representation.\<close>

lemma const_init_iff:
  "const_init mantissa scale = Inr a \<longleftrightarrow>
     (10 :: nat) ^ unat scale < 2 ^ 128 \<and> unat a * 10 ^ unat scale = unat mantissa * 10 ^ 9"
proof (cases "(10 :: nat) ^ unat scale < 2 ^ 128")
  case False
  then show ?thesis by (simp add: const_init_def Let_def)
next
  case True
  define raw where "raw = (ucast mantissa :: u128) * ucast AMOUNT_DECIMAL_FACTOR"
  define sf where "sf = (of_nat (10 ^ unat scale) :: u128)"
  have f: "unat AMOUNT_DECIMAL_FACTOR = 10 ^ 9" by (simp add: AMOUNT_DECIMAL_FACTOR_def)
  have "unat mantissa * 10 ^ 9 < 2 ^ 64 * (2 ^ 64 :: nat)"
    using u64_less_2p64 [of mantissa] by (intro mult_strict_mono) simp_all
  then have raw: "unat raw = unat mantissa * 10 ^ 9"
    unfolding raw_def by (subst unat_mul_no_overflow) (simp_all add: unat_ucast_u64_u128 f)
  have sf: "unat sf = 10 ^ unat scale" using True by (simp add: sf_def unat_of_nat del: of_nat_power)
  have md: "raw mod sf = 0 \<longleftrightarrow> unat mantissa * 10 ^ 9 mod 10 ^ unat scale = 0"
    by (simp add: word_eq_iff_unat unat_mod raw sf)
  define q where "q = raw div sf"
  have q: "unat q = unat mantissa * 10 ^ 9 div 10 ^ unat scale"
    by (simp add: q_def unat_div raw sf)
  have mx: "q \<le> ucast (max_word_of :: u64) \<longleftrightarrow> unat q < 2 ^ 64"
    by (auto simp: word_le_nat_alt unat_ucast_u64_u128 unat_max_word_of)
  have eq: "const_init mantissa scale =
      (if raw mod sf \<noteq> 0 then Inl Panic
       else if q \<le> ucast (max_word_of :: u64) then Inr (ucast q) else Inl Panic)"
    using True by (simp add: const_init_def Let_def raw_def sf_def q_def)
  show ?thesis
  proof
    assume r: "const_init mantissa scale = Inr a"
    with eq md mx have "unat mantissa * 10 ^ 9 mod 10 ^ unat scale = 0" "unat a = unat q"
      by (auto simp: unat_ucast_u128_u64 split: if_splits)
    with True q show "(10 :: nat) ^ unat scale < 2 ^ 128
        \<and> unat a * 10 ^ unat scale = unat mantissa * 10 ^ 9"
      by (metis div_mult_mod_eq add.right_neutral)
  next
    assume r: "(10 :: nat) ^ unat scale < 2 ^ 128
        \<and> unat a * 10 ^ unat scale = unat mantissa * 10 ^ 9"
    then have "unat mantissa * 10 ^ 9 mod 10 ^ unat scale = 0" "unat q = unat a"
      unfolding q by (metis mod_mult_self2_is_0, metis nonzero_mult_div_cancel_right
          power_not_zero zero_neq_numeral)
    then have "raw mod sf = 0" "q \<le> ucast (max_word_of :: u64)" "ucast q = a"
      using md mx u64_less_2p64 [of a]
      by (simp_all add: word_eq_iff_unat [of "ucast q"] unat_ucast_u128_u64)
    then show "const_init mantissa scale = Inr a" by (simp add: eq)
  qed
qed

section \<open>Properties\<close>

text \<open>C23. \<open>const_init(mantissa, scale)\<close> returns the amount whose raw value divided by the decimal
  factor is exactly the decimal \<open>mantissa / 10^scale\<close>, and it panics exactly when that decimal is not
  representable: too many decimals, or too large.\<close>

theorem const_init_exact:
  "(const_init mantissa scale = Inr a \<longleftrightarrow>
      (10 :: nat) ^ unat scale < 2 ^ 128 \<and> unat a * 10 ^ unat scale = unat mantissa * 10 ^ 9)
   \<and> (const_init mantissa scale = Inl e \<longrightarrow> e = Panic)"
  using const_init_iff by (auto simp: const_init_def Let_def split: if_splits)

theorem const_init_exact_witness: "const_init 15 1 = Inr 1500000000"
  using const_init_exact [of 15 1 1500000000] by simp

end
