(* ===== verification/Massa_Ledger_Changes.thy ===== *)
theory Massa_Ledger_Changes
  imports Massa_Types Massa_Amount Massa_BTree
begin

text \<open>
  \<^verbatim>\<open>massa-ledger-exports/src/ledger_entry.rs\<close> and \<^verbatim>\<open>ledger_changes.rs\<close>: ledger entries,
  updates of an entry, and \<open>LedgerChanges\<close>, the compressed description of everything an
  execution did to the ledger.  \<open>ledger_apply\<close> is the effect of a change set on a ledger;
  each operation on change sets is characterised by it.  The fallback closures \<open>f\<close> of the
  \<open>*_or_else\<close> readers are pure reads of the next layer and are passed as values.
\<close>

section \<open>Addresses, entries and updates\<close>

datatype address = Address_User bytes | Address_SC bytes

instantiation address :: linorder
begin

fun less_eq_address :: "address \<Rightarrow> address \<Rightarrow> bool" where
  "less_eq_address (Address_User a) (Address_User b) = (a \<le> b)"
| "less_eq_address (Address_User a) (Address_SC b) = True"
| "less_eq_address (Address_SC a) (Address_User b) = False"
| "less_eq_address (Address_SC a) (Address_SC b) = (a \<le> b)"

definition less_address :: "address \<Rightarrow> address \<Rightarrow> bool" where
  "less_address a b \<longleftrightarrow> a \<le> b \<and> \<not> b \<le> (a :: address)"

instance
proof
  fix a b c :: address
  show "a < b \<longleftrightarrow> a \<le> b \<and> \<not> b \<le> a" by (simp add: less_address_def)
  show "a \<le> a" by (cases a) auto
  show "a \<le> b \<Longrightarrow> b \<le> c \<Longrightarrow> a \<le> c" by (cases a; cases b; cases c) auto
  show "a \<le> b \<Longrightarrow> b \<le> a \<Longrightarrow> a = b" by (cases a; cases b) auto
  show "a \<le> b \<or> b \<le> a" by (cases a; cases b) auto
qed

end

record ledger_entry =
  le_balance :: amount
  le_bytecode :: bytes
  le_datastore :: "(bytes, bytes) fmap"

record ledger_entry_update =
  leu_balance :: "amount set_or_keep"
  leu_bytecode :: "bytes set_or_keep"
  leu_datastore :: "(bytes, bytes set_or_delete) fmap"

definition ledger_entry_default :: ledger_entry where
  "ledger_entry_default = \<lparr>le_balance = 0, le_bytecode = [], le_datastore = fmempty\<rparr>"

definition ledger_entry_update_default :: ledger_entry_update where
  "ledger_entry_update_default =
     \<lparr>leu_balance = SOK_Keep, leu_bytecode = SOK_Keep, leu_datastore = fmempty\<rparr>"

definition datastore_step :: "bytes \<times> bytes set_or_delete \<Rightarrow> (bytes, bytes) fmap \<Rightarrow> (bytes, bytes) fmap" where
  "datastore_step = (\<lambda>(key, value_update) ds.
     case value_update of
       SOD_Set v \<Rightarrow> fmupd key v ds
     | SOD_Delete \<Rightarrow> fmdrop key ds)"

definition datastore_apply ::
    "(bytes, bytes) fmap \<Rightarrow> (bytes, bytes set_or_delete) fmap \<Rightarrow> (bytes, bytes) fmap" where
  "datastore_apply ds upd = fold datastore_step (fm_entries upd) ds"

definition ledger_entry_apply :: "ledger_entry \<Rightarrow> ledger_entry_update \<Rightarrow> ledger_entry" where
  "ledger_entry_apply self update =
     \<lparr>le_balance = sok_apply_to (leu_balance update) (le_balance self),
      le_bytecode = sok_apply_to (leu_bytecode update) (le_bytecode self),
      le_datastore = datastore_apply (le_datastore self) (leu_datastore update)\<rparr>"

definition ledger_entry_update_apply ::
    "ledger_entry_update \<Rightarrow> ledger_entry_update \<Rightarrow> ledger_entry_update" where
  "ledger_entry_update_apply self update =
     \<lparr>leu_balance = sok_apply (leu_balance self) (leu_balance update),
      leu_bytecode = sok_apply (leu_bytecode self) (leu_bytecode update),
      leu_datastore = leu_datastore self ++\<^sub>f leu_datastore update\<rparr>"

type_synonym ledger_change = "(ledger_entry, ledger_entry_update) set_update_or_delete"
type_synonym ledger_changes = "address \<rightharpoonup> ledger_change"
type_synonym ledger = "address \<rightharpoonup> ledger_entry"

abbreviation ledger_change_apply :: "ledger_change \<Rightarrow> ledger_change \<Rightarrow> ledger_change" where
  "ledger_change_apply \<equiv> sud_apply ledger_entry_default ledger_entry_apply ledger_entry_update_apply"

abbreviation ledger_change_effect :: "ledger_change \<Rightarrow> ledger_entry option \<Rightarrow> ledger_entry option" where
  "ledger_change_effect \<equiv> sud_effect ledger_entry_default ledger_entry_apply"

section \<open>LedgerChanges\<close>

definition ledger_changes_apply :: "ledger_changes \<Rightarrow> ledger_changes \<Rightarrow> ledger_changes" where
  "ledger_changes_apply self changes = changes_merge ledger_change_apply self changes"

definition create_address :: "ledger_changes \<Rightarrow> address \<Rightarrow> ledger_changes" where
  "create_address self addr = self(addr \<mapsto> SUD_Set ledger_entry_default)"

definition get_balance_or_else :: "ledger_changes \<Rightarrow> address \<Rightarrow> amount option \<Rightarrow> amount option" where
  "get_balance_or_else self addr f =
     (case self addr of
        Some (SUD_Set v) \<Rightarrow> Some (le_balance v)
      | Some (SUD_Update u) \<Rightarrow> (case leu_balance u of SOK_Set v \<Rightarrow> Some v | SOK_Keep \<Rightarrow> f)
      | Some SUD_Delete \<Rightarrow> None
      | None \<Rightarrow> f)"

definition get_bytecode_or_else :: "ledger_changes \<Rightarrow> address \<Rightarrow> bytes option \<Rightarrow> bytes option" where
  "get_bytecode_or_else self addr f =
     (case self addr of
        Some (SUD_Set v) \<Rightarrow> Some (le_bytecode v)
      | Some (SUD_Update u) \<Rightarrow> (case leu_bytecode u of SOK_Set v \<Rightarrow> Some v | SOK_Keep \<Rightarrow> f)
      | Some SUD_Delete \<Rightarrow> None
      | None \<Rightarrow> f)"

definition entry_exists_or_else :: "ledger_changes \<Rightarrow> address \<Rightarrow> bool \<Rightarrow> bool" where
  "entry_exists_or_else self addr f =
     (case self addr of
        Some (SUD_Set _) \<Rightarrow> True
      | Some (SUD_Update _) \<Rightarrow> True
      | Some SUD_Delete \<Rightarrow> False
      | None \<Rightarrow> f)"

definition lc_set_balance :: "ledger_changes \<Rightarrow> address \<Rightarrow> amount \<Rightarrow> ledger_changes" where
  "lc_set_balance self addr balance = self(addr \<mapsto>
     (case self addr of
        Some (SUD_Set v) \<Rightarrow> SUD_Set (v\<lparr>le_balance := balance\<rparr>)
      | Some (SUD_Update u) \<Rightarrow> SUD_Update (u\<lparr>leu_balance := SOK_Set balance\<rparr>)
      | Some SUD_Delete \<Rightarrow> SUD_Set (ledger_entry_default\<lparr>le_balance := balance\<rparr>)
      | None \<Rightarrow> SUD_Update (ledger_entry_update_default\<lparr>leu_balance := SOK_Set balance\<rparr>)))"

definition lc_set_bytecode :: "ledger_changes \<Rightarrow> address \<Rightarrow> bytes \<Rightarrow> ledger_changes" where
  "lc_set_bytecode self addr bytecode = self(addr \<mapsto>
     (case self addr of
        Some (SUD_Set v) \<Rightarrow> SUD_Set (v\<lparr>le_bytecode := bytecode\<rparr>)
      | Some (SUD_Update u) \<Rightarrow> SUD_Update (u\<lparr>leu_bytecode := SOK_Set bytecode\<rparr>)
      | Some SUD_Delete \<Rightarrow> SUD_Set (ledger_entry_default\<lparr>le_bytecode := bytecode\<rparr>)
      | None \<Rightarrow> SUD_Update (ledger_entry_update_default\<lparr>leu_bytecode := SOK_Set bytecode\<rparr>)))"

definition get_data_entry_or_else ::
    "ledger_changes \<Rightarrow> address \<Rightarrow> bytes \<Rightarrow> bytes option \<Rightarrow> bytes option" where
  "get_data_entry_or_else self addr key f =
     (case self addr of
        Some (SUD_Set v) \<Rightarrow> fmlookup (le_datastore v) key
      | Some (SUD_Update u) \<Rightarrow>
          (case fmlookup (leu_datastore u) key of
             Some (SOD_Set v) \<Rightarrow> Some v
           | Some SOD_Delete \<Rightarrow> None
           | None \<Rightarrow> f)
      | Some SUD_Delete \<Rightarrow> None
      | None \<Rightarrow> f)"

definition has_writes :: "ledger_changes \<Rightarrow> address \<Rightarrow> bytes option \<Rightarrow> bool" where
  "has_writes self addr key =
     (case self addr of
        Some (SUD_Set v) \<Rightarrow> (case key of None \<Rightarrow> True | Some k \<Rightarrow> fmlookup (le_datastore v) k \<noteq> None)
      | Some (SUD_Update u) \<Rightarrow> (case key of None \<Rightarrow> True | Some k \<Rightarrow> fmlookup (leu_datastore u) k \<noteq> None)
      | Some SUD_Delete \<Rightarrow> True
      | None \<Rightarrow> False)"

definition has_data_entry_or_else :: "ledger_changes \<Rightarrow> address \<Rightarrow> bytes \<Rightarrow> bool \<Rightarrow> bool" where
  "has_data_entry_or_else self addr key f =
     (case self addr of
        Some (SUD_Set v) \<Rightarrow> fmlookup (le_datastore v) key \<noteq> None
      | Some (SUD_Update u) \<Rightarrow>
          (case fmlookup (leu_datastore u) key of
             Some (SOD_Set _) \<Rightarrow> True
           | Some SOD_Delete \<Rightarrow> False
           | None \<Rightarrow> f)
      | Some SUD_Delete \<Rightarrow> False
      | None \<Rightarrow> f)"

definition lc_set_data_entry :: "ledger_changes \<Rightarrow> address \<Rightarrow> bytes \<Rightarrow> bytes \<Rightarrow> ledger_changes" where
  "lc_set_data_entry self addr key data = self(addr \<mapsto>
     (case self addr of
        Some (SUD_Set v) \<Rightarrow> SUD_Set (v\<lparr>le_datastore := fmupd key data (le_datastore v)\<rparr>)
      | Some (SUD_Update u) \<Rightarrow>
          SUD_Update (u\<lparr>leu_datastore := fmupd key (SOD_Set data) (leu_datastore u)\<rparr>)
      | Some SUD_Delete \<Rightarrow> SUD_Set (ledger_entry_default\<lparr>le_datastore := fmupd key data fmempty\<rparr>)
      | None \<Rightarrow> SUD_Update
          (ledger_entry_update_default\<lparr>leu_datastore := fmupd key (SOD_Set data) fmempty\<rparr>)))"

definition lc_delete_data_entry :: "ledger_changes \<Rightarrow> address \<Rightarrow> bytes \<Rightarrow> ledger_changes" where
  "lc_delete_data_entry self addr key = self(addr \<mapsto>
     (case self addr of
        Some (SUD_Set v) \<Rightarrow> SUD_Set (v\<lparr>le_datastore := fmdrop key (le_datastore v)\<rparr>)
      | Some (SUD_Update u) \<Rightarrow>
          SUD_Update (u\<lparr>leu_datastore := fmupd key SOD_Delete (leu_datastore u)\<rparr>)
      | Some SUD_Delete \<Rightarrow> SUD_Delete
      | None \<Rightarrow> SUD_Update
          (ledger_entry_update_default\<lparr>leu_datastore := fmupd key SOD_Delete fmempty\<rparr>)))"

lemmas ledger_changes_defs =
  create_address_def get_balance_or_else_def get_bytecode_or_else_def entry_exists_or_else_def
  lc_set_balance_def lc_set_bytecode_def get_data_entry_or_else_def has_data_entry_or_else_def
  lc_set_data_entry_def lc_delete_data_entry_def

section \<open>The effect of change sets\<close>

lemma fmlookup_datastore_apply:
  "fmlookup (datastore_apply ds upd) key =
     (case fmlookup upd key of
        Some (SOD_Set v) \<Rightarrow> Some v
      | Some SOD_Delete \<Rightarrow> None
      | None \<Rightarrow> fmlookup ds key)"
proof -
  have "fmlookup (fold datastore_step kvs ds) key =
     (case map_of kvs key of
        Some (SOD_Set v) \<Rightarrow> Some v
      | Some SOD_Delete \<Rightarrow> None
      | None \<Rightarrow> fmlookup ds key)" if "distinct (map fst kvs)" for kvs
    using that
  proof (induction kvs arbitrary: ds)
    case (Cons e kvs)
    obtain k u where e: "e = (k, u)" by (cases e)
    from Cons.prems have "map_of kvs k = None" by (simp add: e map_of_eq_None_iff)
    with Cons show ?case
      by (auto simp: e datastore_step_def split: set_or_delete.splits option.splits)
  qed simp
  from this [OF distinct_fm_entries] show ?thesis
    by (simp add: datastore_apply_def map_of_fm_entries)
qed

lemma datastore_apply_extend:
  "datastore_apply ds (u ++\<^sub>f v) = datastore_apply (datastore_apply ds u) v"
  by (rule fmap_ext) (auto simp: fmlookup_datastore_apply intro: fmdomI split: option.splits set_or_delete.splits)

lemma datastore_apply_simps [simp]:
  "datastore_apply ds fmempty = ds"
  "datastore_apply ds (fmupd k (SOD_Set v) u) = fmupd k v (datastore_apply ds u)"
  "datastore_apply ds (fmupd k SOD_Delete u) = fmdrop k (datastore_apply ds u)"
  by (rule fmap_ext; auto simp: fmlookup_datastore_apply)+

lemma ledger_entry_apply_update:
  "ledger_entry_apply x (ledger_entry_update_apply u v)
     = ledger_entry_apply (ledger_entry_apply x u) v"
  by (simp add: ledger_entry_apply_def ledger_entry_update_apply_def sok_apply_to_apply
      datastore_apply_extend)

lemma ledger_entry_update_apply_assoc:
  "ledger_entry_update_apply (ledger_entry_update_apply u v) w
     = ledger_entry_update_apply u (ledger_entry_update_apply v w)"
  by (simp add: ledger_entry_update_apply_def sok_apply_assoc)

interpretation le: applicable ledger_entry_default ledger_entry_apply ledger_entry_update_apply
  by unfold_locales (rule ledger_entry_apply_update, rule ledger_entry_update_apply_assoc)

definition ledger_apply :: "ledger_changes \<Rightarrow> ledger \<Rightarrow> ledger" where
  "ledger_apply changes L = changes_effect ledger_change_effect changes L"

definition entry_or_default :: "ledger_entry option \<Rightarrow> ledger_entry" where
  "entry_or_default e = (case e of None \<Rightarrow> ledger_entry_default | Some x \<Rightarrow> x)"

lemma entry_or_default_simps [simp]:
  "entry_or_default None = ledger_entry_default" "entry_or_default (Some x) = x"
  by (simp_all add: entry_or_default_def)

text \<open>Merging change sets composes their effects, and merging is associative.\<close>

lemma ledger_apply_merge:
  "ledger_apply (ledger_changes_apply c d) L = ledger_apply d (ledger_apply c L)"
  by (simp add: ledger_apply_def ledger_changes_apply_def le.sud.changes_effect_merge)

lemma ledger_changes_apply_assoc:
  "ledger_changes_apply (ledger_changes_apply c d) e
     = ledger_changes_apply c (ledger_changes_apply d e)"
  by (simp add: ledger_changes_apply_def le.sud.changes_merge_assoc)

lemma ledger_apply_empty [simp]: "ledger_apply Map.empty L = L"
  by (simp add: ledger_apply_def)

lemma ledger_changes_apply_empty [simp]: "ledger_changes_apply c Map.empty = c"
  by (simp add: ledger_changes_apply_def changes_merge_def)

lemma ledger_changes_apply_empty_left [simp]: "ledger_changes_apply Map.empty c = c"
  by (auto simp: ledger_changes_apply_def changes_merge_def fun_eq_iff split: option.splits)

text \<open>
  The setters act on the resulting ledger as one assignment, creating a default entry
  where there is none.
\<close>

lemma ledger_entry_apply_field_simps [simp]:
  "ledger_entry_apply e (u\<lparr>leu_balance := SOK_Set b\<rparr>) = (ledger_entry_apply e u)\<lparr>le_balance := b\<rparr>"
  "ledger_entry_apply e (u\<lparr>leu_bytecode := SOK_Set bc\<rparr>) = (ledger_entry_apply e u)\<lparr>le_bytecode := bc\<rparr>"
  "ledger_entry_apply e (u\<lparr>leu_datastore := d\<rparr>)
     = (ledger_entry_apply e u)\<lparr>le_datastore := datastore_apply (le_datastore e) d\<rparr>"
  "ledger_entry_apply e ledger_entry_update_default = e"
  by (simp_all add: ledger_entry_apply_def ledger_entry_update_default_def)

lemma le_datastore_ledger_entry_apply:
  "le_datastore (ledger_entry_apply e u) = datastore_apply (le_datastore e) (leu_datastore u)"
  by (simp add: ledger_entry_apply_def)

lemma ledger_apply_set_balance:
  "ledger_apply (lc_set_balance c a b) L
     = (ledger_apply c L)(a \<mapsto> (entry_or_default (ledger_apply c L a))\<lparr>le_balance := b\<rparr>)"
  by (auto simp: ledger_apply_def changes_effect_def lc_set_balance_def fun_eq_iff
      entry_or_default_def split: option.splits set_update_or_delete.splits)

lemma ledger_apply_set_bytecode:
  "ledger_apply (lc_set_bytecode c a b) L
     = (ledger_apply c L)(a \<mapsto> (entry_or_default (ledger_apply c L a))\<lparr>le_bytecode := b\<rparr>)"
  by (auto simp: ledger_apply_def changes_effect_def lc_set_bytecode_def fun_eq_iff
      entry_or_default_def split: option.splits set_update_or_delete.splits)

lemma ledger_apply_set_data_entry:
  "ledger_apply (lc_set_data_entry c a k v) L
     = (let e = entry_or_default (ledger_apply c L a)
        in (ledger_apply c L)(a \<mapsto> e\<lparr>le_datastore := fmupd k v (le_datastore e)\<rparr>))"
  by (auto simp: ledger_apply_def changes_effect_def lc_set_data_entry_def fun_eq_iff Let_def
      entry_or_default_def le_datastore_ledger_entry_apply ledger_entry_default_def
      split: option.splits set_update_or_delete.splits)

lemma ledger_apply_create_address:
  "ledger_apply (create_address c a) L = (ledger_apply c L)(a \<mapsto> ledger_entry_default)"
  by (auto simp: ledger_apply_def changes_effect_def create_address_def fun_eq_iff)

text \<open>
  Deleting a datastore entry removes the key where the ledger entry exists.  Where the
  address has no entry and no pending change, the recorded update creates an empty one.
\<close>

lemma ledger_apply_delete_data_entry:
  "ledger_apply (lc_delete_data_entry c a k) L
     = (if c a = Some SUD_Delete then ledger_apply c L
        else let e = entry_or_default (ledger_apply c L a)
             in (ledger_apply c L)(a \<mapsto> e\<lparr>le_datastore := fmdrop k (le_datastore e)\<rparr>))"
  by (auto simp: ledger_apply_def changes_effect_def lc_delete_data_entry_def fun_eq_iff Let_def
      entry_or_default_def le_datastore_ledger_entry_apply ledger_entry_default_def
      split: option.splits set_update_or_delete.splits)

section \<open>Reading through a change set\<close>

text \<open>
  The readers look at the change set first and fall back on the layer below.  They agree
  with the ledger that results from applying the changes as long as no update targets an
  entry that does not exist below, which every operation of the speculative ledger ensures.
\<close>

definition updates_exist :: "ledger_changes \<Rightarrow> ledger \<Rightarrow> bool" where
  "updates_exist c L \<longleftrightarrow> (\<forall>a u. c a = Some (SUD_Update u) \<longrightarrow> L a \<noteq> None)"

lemma updates_existD: "updates_exist c L \<Longrightarrow> c a = Some (SUD_Update u) \<Longrightarrow> \<exists>e. L a = Some e"
  by (auto simp: updates_exist_def)

lemma updates_exist_empty [simp]: "updates_exist Map.empty L"
  by (simp add: updates_exist_def)

lemma get_balance_or_else_effect:
  "updates_exist c L \<Longrightarrow>
     get_balance_or_else c a (map_option le_balance (L a)) = map_option le_balance (ledger_apply c L a)"
  by (auto simp: get_balance_or_else_def ledger_apply_def changes_effect_def ledger_entry_apply_def
      dest: updates_existD split: option.splits set_update_or_delete.splits set_or_keep.splits)

lemma get_bytecode_or_else_effect:
  "updates_exist c L \<Longrightarrow>
     get_bytecode_or_else c a (map_option le_bytecode (L a)) = map_option le_bytecode (ledger_apply c L a)"
  by (auto simp: get_bytecode_or_else_def ledger_apply_def changes_effect_def ledger_entry_apply_def
      dest: updates_existD split: option.splits set_update_or_delete.splits set_or_keep.splits)

lemma entry_exists_or_else_effect:
  "entry_exists_or_else c a (L a \<noteq> None) \<longleftrightarrow> ledger_apply c L a \<noteq> None"
  by (auto simp: entry_exists_or_else_def ledger_apply_def changes_effect_def
      split: option.splits set_update_or_delete.splits)

definition data_of :: "ledger_entry option \<Rightarrow> bytes \<Rightarrow> bytes option" where
  "data_of e k = (case e of None \<Rightarrow> None | Some x \<Rightarrow> fmlookup (le_datastore x) k)"

lemma get_data_entry_or_else_effect:
  "get_data_entry_or_else c a k (data_of (L a) k) = data_of (ledger_apply c L a) k"
  by (auto simp: get_data_entry_or_else_def data_of_def ledger_apply_def changes_effect_def
      ledger_entry_apply_def fmlookup_datastore_apply ledger_entry_default_def
      split: option.splits set_update_or_delete.splits set_or_delete.splits)

lemma has_data_entry_or_else_effect:
  "has_data_entry_or_else c a k (data_of (L a) k \<noteq> None) \<longleftrightarrow> data_of (ledger_apply c L a) k \<noteq> None"
  by (auto simp: has_data_entry_or_else_def data_of_def ledger_apply_def changes_effect_def
      ledger_entry_apply_def fmlookup_datastore_apply ledger_entry_default_def
      split: option.splits set_update_or_delete.splits set_or_delete.splits)

text \<open>Which updates a setter introduces.\<close>

lemma updates_exist_setters:
  assumes "updates_exist c L"
  shows "updates_exist (create_address c a) L"
    "entry_exists_or_else c a (L a \<noteq> None) \<Longrightarrow> updates_exist (lc_set_balance c a b) L"
    "entry_exists_or_else c a (L a \<noteq> None) \<Longrightarrow> updates_exist (lc_set_bytecode c a bc) L"
    "entry_exists_or_else c a (L a \<noteq> None) \<Longrightarrow> updates_exist (lc_set_data_entry c a k v) L"
    "entry_exists_or_else c a (L a \<noteq> None) \<Longrightarrow> updates_exist (lc_delete_data_entry c a k) L"
  using assms
  by (auto simp: updates_exist_def ledger_changes_defs
      split: option.splits set_update_or_delete.splits if_splits)

lemma updates_exist_merge:
  assumes "updates_exist c L" "updates_exist d (ledger_apply c L)"
  shows "updates_exist (ledger_changes_apply c d) L"
  unfolding updates_exist_def
proof (intro allI impI)
  fix a u
  assume up: "ledger_changes_apply c d a = Some (SUD_Update u)"
  show "L a \<noteq> None"
  proof (cases "c a")
    case None
    with up have "d a = Some (SUD_Update u)"
      by (auto simp: ledger_changes_apply_def changes_merge_def split: option.splits)
    with assms(2) have "ledger_apply c L a \<noteq> None" by (auto simp: updates_exist_def)
    with None show ?thesis by (simp add: ledger_apply_def changes_effect_def)
  next
    case (Some x)
    with up have "\<exists>v. x = SUD_Update v"
      by (cases x; cases "the (d a)")
        (auto simp: ledger_changes_apply_def changes_merge_def split: option.splits)
    with Some assms(1) show ?thesis by (auto simp: updates_exist_def)
  qed
qed

section \<open>Properties\<close>

text \<open>C12. Merging two sets of ledger changes and applying the result to a ledger is applying the first
  set and then the second one, and merging is associative: the changes of consecutive slots can be
  grouped in any way.\<close>

theorem ledger_changes_compose:
  "ledger_apply (ledger_changes_apply c d) L = ledger_apply d (ledger_apply c L)
   \<and> ledger_changes_apply (ledger_changes_apply c d) e = ledger_changes_apply c (ledger_changes_apply d e)"
  by (simp add: ledger_apply_merge ledger_changes_apply_assoc)

text \<open>C13. Reading the balance, the bytecode, the existence and a datastore entry of an address through a
  set of changes, falling back on the ledger below, gives what the ledger with the changes applied
  contains, provided no update is recorded for an address that has no entry.\<close>

theorem ledger_changes_readers:
  assumes "updates_exist c L"
  shows "get_balance_or_else c a (map_option le_balance (L a)) = map_option le_balance (ledger_apply c L a)
    \<and> get_bytecode_or_else c a (map_option le_bytecode (L a)) = map_option le_bytecode (ledger_apply c L a)
    \<and> (entry_exists_or_else c a (L a \<noteq> None) \<longleftrightarrow> ledger_apply c L a \<noteq> None)
    \<and> get_data_entry_or_else c a k (data_of (L a) k) = data_of (ledger_apply c L a) k"
  using get_balance_or_else_effect [OF assms] get_bytecode_or_else_effect [OF assms]
    entry_exists_or_else_effect get_data_entry_or_else_effect by blast

theorem ledger_changes_readers_witness:
  "get_balance_or_else (lc_set_balance Map.empty (Address_User [1]) 7) (Address_User [1]) (Some 3)
     = map_option le_balance (ledger_apply (lc_set_balance Map.empty (Address_User [1]) 7)
         [Address_User [1] \<mapsto> ledger_entry_default\<lparr>le_balance := 3\<rparr>] (Address_User [1]))"
  using ledger_changes_readers [of "lc_set_balance Map.empty (Address_User [1]) 7"
      "[Address_User [1] \<mapsto> ledger_entry_default\<lparr>le_balance := 3\<rparr>]" "Address_User [1]"]
  by (simp add: updates_exist_def lc_set_balance_def)

end
