(* ===== verification/Massa_Codecs.thy ===== *)
theory Massa_Codecs
  imports Massa_Serialization Massa_Ledger_Changes
begin

text \<open>
  The binary forms of slots, amounts, hashes and addresses: \<^verbatim>\<open>SlotSerializer\<close>,
  \<^verbatim>\<open>AmountSerializer\<close>, \<^verbatim>\<open>HashDeserializer\<close>, \<^verbatim>\<open>AddressSerializer\<close> and their deserializers.  Each
  pair is shown to be an exact codec: the deserializer accepts exactly the serializations of the values
  it is meant for, followed by anything.
\<close>

section \<open>Slots, amounts, addresses\<close>

definition slot_ser :: "varint_lib \<Rightarrow> slot serializer" where
  "slot_ser V s = ser_seq [varint_ser V (period s), Inr [thread s]]"

definition slot_deser :: "varint_lib \<Rightarrow> u64 bound \<times> u64 bound \<Rightarrow> u8 bound \<times> u8 bound \<Rightarrow> slot deserializer" where
  "slot_deser V range_period range_thread =
     dbind (varint_deser V range_period) (\<lambda>period.
     dbind dbyte (\<lambda>thread.
     if range_contains range_thread thread then dret (Slot period thread) else dfail))"

definition amount_ser :: "varint_lib \<Rightarrow> amount serializer" where
  "amount_ser V a = varint_ser V a"

definition amount_deser :: "varint_lib \<Rightarrow> amount bound \<times> amount bound \<Rightarrow> amount deserializer" where
  "amount_deser V = (\<lambda>(min_amount, max_amount).
     let min = (case min_amount of Unbounded \<Rightarrow> Included 0 | b \<Rightarrow> b);
         max = (case max_amount of Unbounded \<Rightarrow> Included max_word_of | b \<Rightarrow> b)
     in varint_deser V (min, max))"

definition HASH_SIZE_BYTES :: nat where
  "HASH_SIZE_BYTES = 32"

definition hash_deser :: "bytes deserializer" where
  "hash_deser = dtake HASH_SIZE_BYTES"

definition USER_PREFIX :: u64 where "USER_PREFIX = 0"
definition SC_PREFIX :: u64 where "SC_PREFIX = 1"
definition ADDRESS_VERSION :: u64 where "ADDRESS_VERSION = 0"

fun address_ser :: "varint_lib \<Rightarrow> address serializer" where
  "address_ser V (Address_User hash) =
     ser_seq [varint_ser V USER_PREFIX, varint_ser V ADDRESS_VERSION, Inr hash]"
| "address_ser V (Address_SC hash) =
     ser_seq [varint_ser V SC_PREFIX, varint_ser V ADDRESS_VERSION, Inr hash]"

definition versioned_address_deser :: "varint_lib \<Rightarrow> bytes deserializer" where
  "versioned_address_deser V = (\<lambda>buffer.
     if length buffer < 2 then None
     else dbind (varint_deser V (Included 0, Excluded max_word_of)) (\<lambda>addr_vers.
       if addr_vers = ADDRESS_VERSION then hash_deser else dfail) buffer)"

definition address_deser :: "varint_lib \<Rightarrow> address deserializer" where
  "address_deser V = (\<lambda>buffer.
     if length buffer < 2 then None
     else dbind (varint_deser V (Included 0, Included 1)) (\<lambda>addr_type.
       if addr_type = USER_PREFIX then dbind (versioned_address_deser V) (\<lambda>h. dret (Address_User h))
       else if addr_type = SC_PREFIX then dbind (versioned_address_deser V) (\<lambda>h. dret (Address_SC h))
       else dfail) buffer)"

definition address_ok :: "address \<Rightarrow> bool" where
  "address_ok a \<longleftrightarrow> (case a of Address_User h \<Rightarrow> length h = HASH_SIZE_BYTES | Address_SC h \<Rightarrow> length h = HASH_SIZE_BYTES)"

lemma codec_slot:
  assumes "varint_ok V"
  shows "canonical_codec (slot_ser V) (slot_deser V rp rt)
    (\<lambda>s. range_contains rp (period s) \<and> range_contains rt (thread s))"
proof (rule canonical_codecI)
  fix s input rest
  show "\<exists>b. slot_ser V s = Inr b" by (simp add: slot_ser_def varint_ser_def)
  show "slot_deser V rp rt input = Some (rest, s) \<longleftrightarrow>
      (range_contains rp (period s) \<and> range_contains rt (thread s)) \<and> (\<exists>b. slot_ser V s = Inr b \<and> input = b @ rest)"
    by (cases s) (auto simp: slot_deser_def slot_ser_def varint_ser_def deser_simps dbyte_eq_Some
        canonical_deser_iff [OF codec_varint [OF assms]] split: if_splits)
qed

lemma codec_amount:
  assumes "varint_ok V"
  shows "canonical_codec (amount_ser V) (amount_deser V rng) (range_contains rng)"
proof -
  obtain lo hi where rng: "rng = (lo, hi)" by (cases rng)
  have "canonical_codec (varint_ser V) (amount_deser V rng) (range_contains rng)"
    using codec_varint [OF assms, of "(case lo of Unbounded \<Rightarrow> Included 0 | b \<Rightarrow> b,
        case hi of Unbounded \<Rightarrow> Included max_word_of | b \<Rightarrow> b)"]
    by (cases lo; cases hi) (simp_all add: amount_deser_def rng canonical_codec_iff)
  then show ?thesis by (simp add: amount_ser_def [abs_def])
qed

lemma versioned_address_deser_eq_Some:
  assumes "varint_ok V"
  shows "versioned_address_deser V input = Some (rest, h) \<longleftrightarrow>
    length h = HASH_SIZE_BYTES \<and> input = venc V 64 0 @ h @ rest"
  by (auto simp: versioned_address_deser_def hash_deser_def deser_simps varint_ser_def ADDRESS_VERSION_def
      HASH_SIZE_BYTES_def canonical_deser_iff [OF codec_varint [OF assms]] word_gt_0 split: if_splits)

lemma codec_address:
  assumes "varint_ok V"
  shows "canonical_codec (address_ser V) (address_deser V) address_ok"
proof (rule canonical_codecI)
  fix a input rest
  show "\<exists>b. address_ser V a = Inr b" by (cases a) (simp_all add: varint_ser_def)
  have ser: "address_ser V a = Inr (venc V 64 (case a of Address_User _ \<Rightarrow> 0 | Address_SC _ \<Rightarrow> 1)
      @ venc V 64 0 @ (case a of Address_User h \<Rightarrow> h | Address_SC h \<Rightarrow> h))"
    by (cases a) (simp_all add: varint_ser_def USER_PREFIX_def SC_PREFIX_def ADDRESS_VERSION_def)
  show "address_deser V input = Some (rest, a) \<longleftrightarrow> address_ok a \<and> (\<exists>b. address_ser V a = Inr b \<and> input = b @ rest)"
  proof
    assume "address_deser V input = Some (rest, a)"
    then show "address_ok a \<and> (\<exists>b. address_ser V a = Inr b \<and> input = b @ rest)"
      unfolding ser
      by (auto simp: address_deser_def address_ok_def deser_simps varint_ser_def USER_PREFIX_def SC_PREFIX_def
          versioned_address_deser_eq_Some [OF assms] canonical_deser_iff [OF codec_varint [OF assms]]
          split: if_splits)
  next
    assume "address_ok a \<and> (\<exists>b. address_ser V a = Inr b \<and> input = b @ rest)"
    then have ok: "address_ok a"
      and input: "input = venc V 64 (case a of Address_User _ \<Rightarrow> 0 | Address_SC _ \<Rightarrow> 1)
        @ venc V 64 0 @ (case a of Address_User h \<Rightarrow> h | Address_SC h \<Rightarrow> h) @ rest"
      by (auto simp: ser)
    have "varint_deser V (Included 0, Included 1) input
        = Some (venc V 64 0 @ (case a of Address_User h \<Rightarrow> h | Address_SC h \<Rightarrow> h) @ rest,
                (case a of Address_User _ \<Rightarrow> 0 | Address_SC _ \<Rightarrow> (1 :: u64)))"
      by (cases a) (simp_all add: input canonical_deser_iff [OF codec_varint [OF assms]] varint_ser_def)
    moreover have "2 \<le> length input" using ok by (cases a) (auto simp: input address_ok_def HASH_SIZE_BYTES_def)
    ultimately show "address_deser V input = Some (rest, a)"
      using ok by (cases a) (simp_all add: address_deser_def dbind_Some address_ok_def USER_PREFIX_def SC_PREFIX_def
          dbind_eq_Some versioned_address_deser_eq_Some [OF assms])
  qed
qed

end
