(* ===== verification/Massa_Deferred_Calls.thy ===== *)
theory Massa_Deferred_Calls
  imports Massa_Codecs
begin

text \<open>
  Deferred calls and their changes: \<^verbatim>\<open>massa-deferred-calls/src\<close> (\<^verbatim>\<open>config.rs\<close>, \<^verbatim>\<open>call.rs\<close>,
  \<^verbatim>\<open>slot_changes.rs\<close>, \<^verbatim>\<open>registry_changes.rs\<close>, the calls of a slot of \<^verbatim>\<open>lib.rs\<close>) and \<^verbatim>\<open>DeferredCallId\<close> of
  \<^verbatim>\<open>massa-models\<close>.  The binary form of a call is an exact codec.
\<close>

section \<open>Calls and identifiers\<close>

record deferred_config =
  dcc_thread_count :: u8
  dcc_max_function_name_length :: u16
  dcc_max_future_slots :: u64
  dcc_base_fee_max_max_change_denominator :: u64
  dcc_min_gas_increment :: u64
  dcc_min_gas_cost :: u64
  dcc_call_cst_gas_cost :: u64
  dcc_global_overbooking_penalty :: amount
  dcc_slot_overbooking_penalty :: amount
  dcc_max_parameter_size :: u32
  dcc_max_pool_changes :: u64
  dcc_max_gas :: u64
  dcc_ledger_cost_per_byte :: amount

record deferred_call =
  dcall_sender_address :: address
  dcall_target_slot :: slot
  dcall_target_address :: address
  dcall_target_function :: bytes
  dcall_parameters :: bytes
  dcall_coins :: amount
  dcall_max_gas :: u64
  dcall_fee :: amount
  dcall_cancelled :: bool

definition get_effective_gas :: "deferred_call \<Rightarrow> u64 \<Rightarrow> u64" where
  "get_effective_gas self alloc_gas_cost = saturating_add (dcall_max_gas self) alloc_gas_cost"

definition get_storage_cost :: "amount \<Rightarrow> u64 \<Rightarrow> u16 \<Rightarrow> amount" where
  "get_storage_cost cost_per_byte params_size max_function_name_length =
     (let total_size = saturating_add (saturating_add params_size (ucast max_function_name_length)) 111
      in amount_saturating_mul_u64 cost_per_byte total_size)"

type_synonym deferred_call_id = bytes

definition call_id_ser :: "varint_lib \<Rightarrow> deferred_call_id serializer" where
  "call_id_ser V value = vec_u8_ser V value"

definition call_id_deser :: "varint_lib \<Rightarrow> deferred_call_id deserializer" where
  "call_id_deser V = vec_u8_deser V (Included 0, Included 128)"

definition call_id_get_slot :: "varint_lib \<Rightarrow> u8 \<Rightarrow> deferred_call_id \<Rightarrow> slot option" where
  "call_id_get_slot V thread_count self =
     (case varint_deser V (full_range :: u64 bound \<times> u64 bound) self of
        None \<Rightarrow> None
      | Some (rest, version) \<Rightarrow>
          map_option snd (slot_deser V full_range (Included 0, Excluded thread_count) rest))"

definition call_id_new :: "varint_lib \<Rightarrow> u64 \<Rightarrow> slot \<Rightarrow> u64 \<Rightarrow> bytes \<Rightarrow> serialize_error option + deferred_call_id" where
  "call_id_new V version target_slot index trail_hash =
     (if version = 0
      then map_err Some (ser_seq [varint_ser V version, slot_ser V target_slot,
             Inr (u64_to_be_bytes index), Inr trail_hash])
      else Inl None)"

definition deferred_call_ser :: "varint_lib \<Rightarrow> deferred_call serializer" where
  "deferred_call_ser V value =
     ser_seq [address_ser V (dcall_sender_address value),
       slot_ser V (dcall_target_slot value),
       address_ser V (dcall_target_address value),
       string_u16_ser V (dcall_target_function value),
       vec_u8_ser V (dcall_parameters value),
       amount_ser V (dcall_coins value),
       varint_ser V (dcall_max_gas value),
       amount_ser V (dcall_fee value),
       bool_ser (dcall_cancelled value)]"

text \<open>The component deserializers of \<open>DeferredCallDeserializer\<close>.\<close>

definition cd_slot :: "varint_lib \<Rightarrow> deferred_config \<Rightarrow> slot deserializer" where
  "cd_slot V C = slot_deser V full_range (Included 0, Excluded (dcc_thread_count C))"

definition cd_function :: "varint_lib \<Rightarrow> deferred_config \<Rightarrow> bytes deserializer" where
  "cd_function V C = string_u16_deser V (Included 0, Included (dcc_max_function_name_length C))"

definition cd_parameters :: "varint_lib \<Rightarrow> deferred_config \<Rightarrow> bytes deserializer" where
  "cd_parameters V C = vec_u8_deser V (Included 0, Included (ucast (dcc_max_parameter_size C)))"

definition cd_amount :: "varint_lib \<Rightarrow> amount deserializer" where
  "cd_amount V = amount_deser V full_range"

definition cd_u64 :: "varint_lib \<Rightarrow> u64 deserializer" where
  "cd_u64 V = varint_deser V full_range"

definition deferred_call_deser :: "varint_lib \<Rightarrow> deferred_config \<Rightarrow> deferred_call deserializer" where
  "deferred_call_deser V C =
     dbind (address_deser V) (\<lambda>sender_address.
     dbind (cd_slot V C) (\<lambda>target_slot.
     dbind (address_deser V) (\<lambda>target_address.
     dbind (cd_function V C) (\<lambda>target_function.
     dbind (cd_parameters V C) (\<lambda>parameters.
     dbind (cd_amount V) (\<lambda>coins.
     dbind (cd_u64 V) (\<lambda>max_gas.
     dbind (cd_amount V) (\<lambda>fee.
     dbind bool_deser (\<lambda>cancelled.
     dret \<lparr>dcall_sender_address = sender_address, dcall_target_slot = target_slot,
           dcall_target_address = target_address, dcall_target_function = target_function,
           dcall_parameters = parameters, dcall_coins = coins, dcall_max_gas = max_gas,
           dcall_fee = fee, dcall_cancelled = cancelled\<rparr>)))))))))"

section \<open>Changes\<close>

type_synonym call_change = "deferred_call set_or_delete"

record slot_changes =
  sc_calls :: "(deferred_call_id, call_change) btree"
  sc_effective_slot_gas :: "u64 set_or_keep"
  sc_base_fee :: "amount set_or_keep"

definition slot_changes_default :: slot_changes where
  "slot_changes_default = \<lparr>sc_calls = [], sc_effective_slot_gas = SOK_Keep, sc_base_fee = SOK_Keep\<rparr>"

definition sok_value :: "'a set_or_keep \<Rightarrow> 'a option" where
  "sok_value x = (case x of SOK_Set v \<Rightarrow> Some v | SOK_Keep \<Rightarrow> None)"

definition sc_delete_call :: "deferred_call_id \<Rightarrow> slot_changes \<Rightarrow> slot_changes" where
  "sc_delete_call cid self = self\<lparr>sc_calls := bt_insert cid SOD_Delete (sc_calls self)\<rparr>"

definition sc_set_call :: "deferred_call_id \<Rightarrow> deferred_call \<Rightarrow> slot_changes \<Rightarrow> slot_changes" where
  "sc_set_call cid call self = self\<lparr>sc_calls := bt_insert cid (SOD_Set call) (sc_calls self)\<rparr>"

definition sc_set_effective_slot_gas :: "u64 \<Rightarrow> slot_changes \<Rightarrow> slot_changes" where
  "sc_set_effective_slot_gas gas self = self\<lparr>sc_effective_slot_gas := SOK_Set gas\<rparr>"

definition sc_set_base_fee :: "amount \<Rightarrow> slot_changes \<Rightarrow> slot_changes" where
  "sc_set_base_fee base_fee self = self\<lparr>sc_base_fee := SOK_Set base_fee\<rparr>"

record registry_changes =
  rc_slots_change :: "(slot, slot_changes) btree"
  rc_effective_total_gas :: "u128 set_or_keep"
  rc_exec_stats :: "u64 \<times> u64 \<times> u64"

definition registry_changes_default :: registry_changes where
  "registry_changes_default =
     \<lparr>rc_slots_change = [], rc_effective_total_gas = SOK_Keep, rc_exec_stats = (0, 0, 0)\<rparr>"

definition rc_entry :: "slot \<Rightarrow> (slot_changes \<Rightarrow> slot_changes) \<Rightarrow> registry_changes \<Rightarrow> registry_changes" where
  "rc_entry target_slot f self =
     self\<lparr>rc_slots_change := bt_update_or slot_changes_default f target_slot (rc_slots_change self)\<rparr>"

definition rc_delete_call :: "slot \<Rightarrow> deferred_call_id \<Rightarrow> registry_changes \<Rightarrow> registry_changes" where
  "rc_delete_call target_slot cid self = rc_entry target_slot (sc_delete_call cid) self"

definition rc_set_call :: "deferred_call_id \<Rightarrow> deferred_call \<Rightarrow> registry_changes \<Rightarrow> registry_changes" where
  "rc_set_call cid call self = rc_entry (dcall_target_slot call) (sc_set_call cid call) self"

definition rc_get_call_change :: "registry_changes \<Rightarrow> slot \<Rightarrow> deferred_call_id \<Rightarrow> call_change option" where
  "rc_get_call_change self target_slot cid =
     Option.bind (bt_get (rc_slots_change self) target_slot) (\<lambda>s. bt_get (sc_calls s) cid)"

definition rc_get_effective_slot_gas :: "registry_changes \<Rightarrow> slot \<Rightarrow> u64 option" where
  "rc_get_effective_slot_gas self target_slot =
     Option.bind (bt_get (rc_slots_change self) target_slot) (\<lambda>s. sok_value (sc_effective_slot_gas s))"

definition rc_set_effective_slot_gas :: "slot \<Rightarrow> u64 \<Rightarrow> registry_changes \<Rightarrow> registry_changes" where
  "rc_set_effective_slot_gas target_slot gas self = rc_entry target_slot (sc_set_effective_slot_gas gas) self"

definition rc_set_slot_base_fee :: "slot \<Rightarrow> amount \<Rightarrow> registry_changes \<Rightarrow> registry_changes" where
  "rc_set_slot_base_fee target_slot base_fee self = rc_entry target_slot (sc_set_base_fee base_fee) self"

definition rc_get_slot_base_fee :: "registry_changes \<Rightarrow> slot \<Rightarrow> amount option" where
  "rc_get_slot_base_fee self target_slot =
     Option.bind (bt_get (rc_slots_change self) target_slot) (\<lambda>s. sok_value (sc_base_fee s))"

definition rc_set_effective_total_gas :: "u128 \<Rightarrow> registry_changes \<Rightarrow> registry_changes" where
  "rc_set_effective_total_gas gas self = self\<lparr>rc_effective_total_gas := SOK_Set gas\<rparr>"

definition rc_get_effective_total_gas :: "registry_changes \<Rightarrow> u128 option" where
  "rc_get_effective_total_gas self = sok_value (rc_effective_total_gas self)"

section \<open>The calls of a slot\<close>

record deferred_slot_calls =
  dsc_slot :: slot
  dsc_slot_calls :: "(deferred_call_id, deferred_call) btree"
  dsc_effective_slot_gas :: u64
  dsc_slot_base_fee :: amount

definition slot_calls_new :: "slot \<Rightarrow> deferred_slot_calls" where
  "slot_calls_new slot = \<lparr>dsc_slot = slot, dsc_slot_calls = [], dsc_effective_slot_gas = 0, dsc_slot_base_fee = 0\<rparr>"

fun call_change_step ::
    "deferred_call_id \<times> call_change \<Rightarrow> (deferred_call_id, deferred_call) btree \<Rightarrow> (deferred_call_id, deferred_call) btree" where
  "call_change_step (cid, SOD_Set call) calls = bt_insert cid call calls"
| "call_change_step (cid, SOD_Delete) calls = bt_remove cid calls"

definition slot_calls_apply_changes :: "registry_changes \<Rightarrow> deferred_slot_calls \<Rightarrow> deferred_slot_calls" where
  "slot_calls_apply_changes changes self =
     (case bt_get (rc_slots_change changes) (dsc_slot self) of
        None \<Rightarrow> self
      | Some slot_changes \<Rightarrow>
          self\<lparr>dsc_slot_calls := fold call_change_step (sc_calls slot_changes) (dsc_slot_calls self),
               dsc_effective_slot_gas := sok_apply_to (sc_effective_slot_gas slot_changes) (dsc_effective_slot_gas self),
               dsc_slot_base_fee := sok_apply_to (sc_base_fee slot_changes) (dsc_slot_base_fee self)\<rparr>)"

section \<open>The binary form of calls\<close>

definition call_ok :: "deferred_config \<Rightarrow> deferred_call \<Rightarrow> bool" where
  "call_ok C c \<longleftrightarrow> address_ok (dcall_sender_address c) \<and> address_ok (dcall_target_address c)
     \<and> thread (dcall_target_slot c) < dcc_thread_count C
     \<and> length (dcall_target_function c) \<le> unat (dcc_max_function_name_length C) \<and> utf8_valid (dcall_target_function c)
     \<and> length (dcall_parameters c) \<le> unat (dcc_max_parameter_size C)"

lemma of_nat_le_word: "n < 2 ^ LENGTH('a) \<and> (of_nat n :: 'a::len word) \<le> w \<longleftrightarrow> n \<le> unat w"
proof
  assume "n < 2 ^ LENGTH('a) \<and> (of_nat n :: 'a word) \<le> w"
  then show "n \<le> unat w" by (auto simp: word_le_nat_alt unat_of_nat)
next
  assume *: "n \<le> unat w"
  then have "n < 2 ^ LENGTH('a)" using unat_lt_2p [of w] by (rule le_less_trans)
  with * show "n < 2 ^ LENGTH('a) \<and> (of_nat n :: 'a word) \<le> w" by (simp add: word_le_nat_alt unat_of_nat)
qed

lemma unat_u32_to_u64 [simp]: "unat (ucast (w :: u32) :: u64) = unat w"
  by transfer (simp add: take_bit_take_bit)

lemma codec_cd_slot:
  "varint_ok V \<Longrightarrow> canonical_codec (slot_ser V) (cd_slot V C) (\<lambda>s. thread s < dcc_thread_count C)"
  using codec_slot [of V full_range "(Included 0, Excluded (dcc_thread_count C))"] by (simp add: cd_slot_def)

lemma codec_cd_function:
  assumes "varint_ok V"
  shows "canonical_codec (string_u16_ser V) (cd_function V C)
    (\<lambda>f. length f \<le> unat (dcc_max_function_name_length C) \<and> utf8_valid f)"
proof -
  have "length f < 2 ^ 16 \<and> range_contains (Included 0, Included (dcc_max_function_name_length C)) (of_nat (length f)) \<and> utf8_valid f
      \<longleftrightarrow> length f \<le> unat (dcc_max_function_name_length C) \<and> utf8_valid f" for f
    using of_nat_le_word [of "length f" "dcc_max_function_name_length C"] by auto
  then show ?thesis using codec_string_u16 [OF assms, of "(Included 0, Included (dcc_max_function_name_length C))"]
    by (simp add: cd_function_def)
qed

lemma codec_cd_parameters:
  assumes "varint_ok V"
  shows "canonical_codec (vec_u8_ser V) (cd_parameters V C) (\<lambda>x. length x \<le> unat (dcc_max_parameter_size C))"
proof -
  have "length x < 2 ^ 64 \<and> range_contains (Included 0, Included (ucast (dcc_max_parameter_size C) :: u64)) (of_nat (length x))
      \<longleftrightarrow> length x \<le> unat (dcc_max_parameter_size C)" for x :: bytes
    using of_nat_le_word [of "length x" "ucast (dcc_max_parameter_size C) :: u64"] by simp
  then show ?thesis using codec_vec_u8 [OF assms, of "(Included 0, Included (ucast (dcc_max_parameter_size C)))"]
    by (simp add: cd_parameters_def)
qed

lemma codec_cd_amount: "varint_ok V \<Longrightarrow> canonical_codec (amount_ser V) (cd_amount V) (\<lambda>_. True)"
  using codec_amount [of V full_range] by (simp add: cd_amount_def canonical_codec_iff)

lemma codec_cd_u64: "varint_ok V \<Longrightarrow> canonical_codec (varint_ser V) (cd_u64 V) (\<lambda>_. True)"
  using codec_varint [of V full_range] by (simp add: cd_u64_def canonical_codec_iff)

lemmas call_codecs =
  codec_address codec_cd_slot codec_cd_function codec_cd_parameters codec_cd_amount codec_cd_u64

lemma codec_deferred_call:
  assumes "varint_ok V"
  shows "canonical_codec (deferred_call_ser V) (deferred_call_deser V C) (call_ok C)"
proof (rule canonical_codecI)
  fix c input rest
  show "call_ok C c \<Longrightarrow> \<exists>b. deferred_call_ser V c = Inr b"
    unfolding deferred_call_ser_def ser_seq_total call_ok_def
    by (auto simp: bool_ser_def intro: call_codecs [OF assms, THEN canonical_ser_total])
  show "deferred_call_deser V C input = Some (rest, c) \<longleftrightarrow>
      call_ok C c \<and> (\<exists>b. deferred_call_ser V c = Inr b \<and> input = b @ rest)"
  proof
    assume "deferred_call_deser V C input = Some (rest, c)"
    then show "call_ok C c \<and> (\<exists>b. deferred_call_ser V c = Inr b \<and> input = b @ rest)"
      by (auto simp: deferred_call_deser_def deferred_call_ser_def call_ok_def
          call_codecs [OF assms, THEN dbind_canonical] dbind_canonical [OF bool_codec.canonical_codec_axioms])
  next
    assume "call_ok C c \<and> (\<exists>b. deferred_call_ser V c = Inr b \<and> input = b @ rest)"
    then show "deferred_call_deser V C input = Some (rest, c)"
      unfolding deferred_call_deser_def deferred_call_ser_def call_ok_def
      apply clarsimp
      apply ((rule dbind_intro, rule call_codecs [OF assms] bool_codec.canonical_codec_axioms,
          assumption, simp)+, simp)
      done
  qed
qed

end
