(* ===== verification/Massa_Rows.thy ===== *)
theory Massa_Rows
  imports Massa_Codecs Massa_DB
begin

text \<open>
  Rows of the state column shared by the components that store one row per field: writing the fields of
  a value under its key, iterating over the rows of a key prefix, and reading the value back from the
  rows, one after the other.
\<close>

section \<open>Prefixes\<close>

lemma has_prefix_append [simp]: "has_prefix p (p @ k)"
  by (simp add: has_prefix_def)

lemma has_prefix_iff: "has_prefix p k \<longleftrightarrow> (\<exists>r. k = p @ r)"
  by (metis append_take_drop_id has_prefix_def append_eq_conv_conj)

lemma has_prefix_between: "has_prefix p a \<Longrightarrow> has_prefix p b \<Longrightarrow> a \<le> k \<Longrightarrow> k \<le> b \<Longrightarrow> has_prefix p k"
  using has_prefix_ge has_prefix_contiguous by (meson leD order_trans)

section \<open>Writing fields\<close>

type_synonym field = "u8 \<times> (serialize_error + bytes)"

text \<open>The fields of a value, each serialized and put under the key of the field; \<open>e\<close> is the panic
  of a serialization error.\<close>

fun put_rows :: "'e \<Rightarrow> (u8 \<Rightarrow> bytes) \<Rightarrow> field list \<Rightarrow> db_batch \<Rightarrow> 'e + db_batch" where
  "put_rows e key [] batch = Inr batch"
| "put_rows e key ((ident, r) # fs) batch =
     rbind (map_err (\<lambda>_. e) r) (\<lambda>v. put_rows e key fs (put_or_update_entry_value batch (key ident) v))"

definition fields_written :: "field list \<Rightarrow> bool" where
  "fields_written fs \<longleftrightarrow> list_all (\<lambda>f. \<exists>b. snd f = Inr b) fs"

lemma fields_written_append: "fields_written (fs @ gs) \<longleftrightarrow> fields_written fs \<and> fields_written gs"
  by (simp add: fields_written_def)

lemma put_rows_total: "fields_written fs \<Longrightarrow> \<exists>b'. put_rows e key fs b = Inr b'"
  unfolding fields_written_def by (induction fs arbitrary: b) auto

lemma put_rows_get:
  assumes "put_rows e key fs b = Inr b'" "bt_wf b" "distinct (map fst fs)" "inj key"
  shows "bt_wf b' \<and> (map_of fs ident = Some (Inr v) \<longrightarrow> bt_get b' (key ident) = Some (Some v))
    \<and> ((\<forall>ident \<in> fst ` set fs. k \<noteq> key ident) \<longrightarrow> bt_get b' k = bt_get b k)"
  using assms(1-3)
proof (induction fs arbitrary: b ident v k)
  case (Cons f fs)
  obtain j w where f: "f = (j, Inr w)"
    using Cons.prems(1) by (cases f; cases "snd f") auto
  define b1 where "b1 = put_or_update_entry_value b (key j) w"
  have IH: "bt_wf b' \<and> (map_of fs ident = Some (Inr v) \<longrightarrow> bt_get b' (key ident) = Some (Some v))
      \<and> ((\<forall>ident \<in> fst ` set fs. k \<noteq> key ident) \<longrightarrow> bt_get b' k = bt_get b1 k)" for ident v k
    using Cons.prems by (intro Cons.IH) (auto simp: f b1_def put_or_update_entry_value_def)
  have b1: "bt_get b1 k = (if k = key j then Some (Some w) else bt_get b k)" for k
    by (simp add: b1_def put_or_update_entry_value_def bt_get_insert)
  have "j \<notin> fst ` set fs" using Cons.prems(3) by (simp add: f)
  then have "\<forall>ident \<in> fst ` set fs. key j \<noteq> key ident" using assms(4) by (auto simp: inj_eq)
  then have "bt_get b' (key j) = Some (Some w)"
    using IH [of j w "key j"] by (simp add: b1)
  then show ?case
    using IH [of ident v k] b1 [of k] by (auto simp: f)
qed simp

lemma put_rows_view:
  assumes "put_rows e key fs b = Inr b'" "bt_wf b" "distinct (map fst fs)" "inj key"
  shows "bt_wf b'"
    and "map_of fs ident = Some (Inr v) \<Longrightarrow> bt_get b' (key ident) = Some (Some v)"
    and "(\<And>ident. ident \<in> fst ` set fs \<Longrightarrow> k \<noteq> key ident) \<Longrightarrow> bt_get b' k = bt_get b k"
  using put_rows_get [OF assms] by blast+

lemma ser_seq_fields:
  "fields_written fs \<Longrightarrow> ser_seq (map snd fs) = Inr (concat (map (\<lambda>f. projr (snd f)) fs))"
  unfolding fields_written_def by (induction fs) auto

section \<open>Reading rows\<close>

text \<open>Iterators: the entries from a key on, in order.\<close>

definition rows_from :: "bytes \<Rightarrow> (bytes, bytes) btree \<Rightarrow> (bytes, bytes) btree" where
  "rows_from key cf = filter (\<lambda>e. key \<le> fst e) cf"

definition prefix_rows :: "bytes \<Rightarrow> (bytes, bytes) btree \<Rightarrow> (bytes, bytes) btree" where
  "prefix_rows p cf = takeWhile (\<lambda>(k, v). has_prefix p k) (rows_from p cf)"

lemma prefix_rows_eq:
  assumes "bt_wf cf"
  shows "prefix_rows p cf = filter (\<lambda>(k, v). has_prefix p k) cf"
  using assms
proof (induction cf)
  case (Cons e cf)
  obtain k v where e: "e = (k, v)" by (cases e)
  have later: "\<forall>k' \<in> fst ` set cf. k < k'" and wf: "bt_wf cf" using Cons.prems by (auto simp: e bt_wf_Cons)
  show ?case
  proof (cases "p \<le> k \<and> \<not> has_prefix p k")
    case True
    then have "\<not> has_prefix p k'" if "k' \<in> fst ` set cf" for k'
      using has_prefix_contiguous [of p k k'] later that by (meson less_asym)
    then have "filter (\<lambda>(k, v). has_prefix p k) cf = []" by (force simp: filter_empty_conv)
    with True show ?thesis by (simp add: e prefix_rows_def rows_from_def)
  next
    case False
    with Cons.IH [OF wf] show ?thesis
      by (auto simp: e prefix_rows_def rows_from_def dest: has_prefix_ge)
  qed
qed (simp add: prefix_rows_def rows_from_def)

lemma get_prefix_rows:
  "bt_wf cf \<Longrightarrow> bt_get (prefix_rows p cf) k = (if has_prefix p k then bt_get cf k else None)"
  by (simp add: prefix_rows_eq bt_get_filter split: option.splits)

lemma bt_wf_prefix_rows [simp]: "bt_wf cf \<Longrightarrow> bt_wf (prefix_rows p cf)"
  by (simp add: prefix_rows_eq bt_wf_filter)

definition field_rows :: "bytes \<Rightarrow> field list \<Rightarrow> (bytes, bytes) btree" where
  "field_rows p fs = map (\<lambda>f. (p @ [fst f], projr (snd f))) fs"

lemma bt_wf_field_rows: "sorted_wrt (<) (map fst fs) \<Longrightarrow> bt_wf (field_rows p fs)"
  by (simp add: bt_wf_def field_rows_def sorted_wrt_map append_less_iff)

lemma bt_get_field_rows:
  assumes "fields_written fs"
  shows "bt_get (field_rows p fs) (p @ [ident]) = Some v \<longleftrightarrow> map_of fs ident = Some (Inr v)"
  using assms unfolding fields_written_def by (induction fs) (auto simp: field_rows_def)

lemma bt_get_field_rows_other:
  assumes "\<And>ident. k \<noteq> p @ [ident]"
  shows "bt_get (field_rows p fs) k = None"
  unfolding bt_get_eq_None
proof
  assume "k \<in> fst ` set (field_rows p fs)"
  then obtain f :: field where "k = p @ [fst f]" by (auto simp: field_rows_def)
  with assms show False by blast
qed

text \<open>The rows of a prefix are those of the fields when the prefix has these rows and no other.\<close>

lemma prefix_rows_fields:
  assumes "bt_wf cf" "sorted_wrt (<) (map fst fs)" "fields_written fs"
    and rows: "\<And>ident v. bt_get cf (p @ [ident]) = Some v \<longleftrightarrow> map_of fs ident = Some (Inr v)"
    and only: "\<And>k v. has_prefix p k \<Longrightarrow> bt_get cf k = Some v \<Longrightarrow> \<exists>ident. k = p @ [ident]"
  shows "prefix_rows p cf = field_rows p fs"
proof (rule bt_eqI)
  show "bt_wf (prefix_rows p cf)" using assms(1) by simp
  show "bt_wf (field_rows p fs)" by (rule bt_wf_field_rows [OF assms(2)])
  fix k
  show "bt_get (prefix_rows p cf) k = bt_get (field_rows p fs) k"
  proof (cases "\<exists>ident. k = p @ [ident]")
    case True
    then obtain ident where k: "k = p @ [ident]" by blast
    have "bt_get (prefix_rows p cf) k = Some v \<longleftrightarrow> bt_get (field_rows p fs) k = Some v" for v
      using rows [of ident v] bt_get_field_rows [OF assms(3), of p ident v]
      by (simp add: k get_prefix_rows [OF assms(1)])
    then show ?thesis by (metis not_None_eq)
  next
    case False
    then have "bt_get (prefix_rows p cf) k = None"
      using only [of k] by (cases "bt_get cf k") (auto simp: get_prefix_rows [OF assms(1)])
    with False show ?thesis by (simp add: bt_get_field_rows_other)
  qed
qed

lemma concat_field_rows: "concat (map snd (field_rows p fs)) = concat (map (\<lambda>f. projr (snd f)) fs)"
  by (simp add: field_rows_def comp_def)

text \<open>A deserializer that must consume the whole value.\<close>

definition exhausts :: "'a deserializer \<Rightarrow> bytes \<Rightarrow> bool" where
  "exhausts d value = (case d value of Some (rest, _) \<Rightarrow> rest = [] | None \<Rightarrow> False)"

lemma exhausts_ser: "canonical_codec s d ok \<Longrightarrow> s v = Inr b \<Longrightarrow> ok v \<Longrightarrow> exhausts d b"
  using canonical_deser_iff [of s d ok b "[]" v] by (simp add: exhausts_def)

end
