(* ===== verification/Massa_Deferred_Registry.thy ===== *)
theory Massa_Deferred_Registry
  imports Massa_Deferred_Calls Massa_Rows
begin

text \<open>
  The registry of deferred calls in the database: \<^verbatim>\<open>massa-deferred-calls/src/lib.rs\<close> and \<^verbatim>\<open>macros.rs\<close>.

  The registry stores, for every slot, nine rows per call, the gas booked and the base fee, and one row
  for the gas booked over all slots.  Its abstract state \<open>registry_view\<close> gives the calls, gas and fee of
  every slot and the total; \<open>registry_db_ok\<close> relates the rows to it.  Applying changes to the rows
  implements applying them to the view, and the readers read the view.

  A failing \<open>expect\<close> and an index out of range are panics of the program, the left side of a result.
\<close>

section \<open>Rows of the database\<close>

definition DEFERRED_CALLS_PREFIX :: bytes where
  "DEFERRED_CALLS_PREFIX = [100, 101, 102, 101, 114, 114, 101, 100, 95, 99, 97, 108, 108, 115, 47]"

definition DEFERRED_CALL_TOTAL_GAS :: bytes where
  "DEFERRED_CALL_TOTAL_GAS =
     [100, 101, 102, 101, 114, 114, 101, 100, 95, 99, 97, 108, 108, 95, 116, 111, 116, 97, 108, 95, 103, 97, 115]"

definition CALLS_TAG :: u8 where "CALLS_TAG = 0"
definition SLOT_TOTAL_GAS :: u8 where "SLOT_TOTAL_GAS = 1"
definition SLOT_BASE_FEE :: u8 where "SLOT_BASE_FEE = 2"

definition CALL_FIELD_SENDER_ADDRESS :: u8 where "CALL_FIELD_SENDER_ADDRESS = 1"
definition CALL_FIELD_TARGET_SLOT :: u8 where "CALL_FIELD_TARGET_SLOT = 2"
definition CALL_FIELD_TARGET_ADDRESS :: u8 where "CALL_FIELD_TARGET_ADDRESS = 3"
definition CALL_FIELD_TARGET_FUNCTION :: u8 where "CALL_FIELD_TARGET_FUNCTION = 4"
definition CALL_FIELD_PARAMETERS :: u8 where "CALL_FIELD_PARAMETERS = 5"
definition CALL_FIELD_COINS :: u8 where "CALL_FIELD_COINS = 6"
definition CALL_FIELD_MAX_GAS :: u8 where "CALL_FIELD_MAX_GAS = 7"
definition CALL_FIELD_FEE :: u8 where "CALL_FIELD_FEE = 8"
definition CALL_FIELD_CANCELED :: u8 where "CALL_FIELD_CANCELED = 9"

definition slot_total_gas_key :: "slot \<Rightarrow> bytes" where
  "slot_total_gas_key slot = DEFERRED_CALLS_PREFIX @ to_bytes_key slot @ [SLOT_TOTAL_GAS]"

definition slot_base_fee_key :: "slot \<Rightarrow> bytes" where
  "slot_base_fee_key slot = DEFERRED_CALLS_PREFIX @ to_bytes_key slot @ [SLOT_BASE_FEE]"

definition slot_call_prefix_key :: "slot \<Rightarrow> bytes" where
  "slot_call_prefix_key slot = DEFERRED_CALLS_PREFIX @ to_bytes_key slot @ [CALLS_TAG]"

definition call_prefix_key :: "bytes \<Rightarrow> slot \<Rightarrow> bytes" where
  "call_prefix_key cid slot = slot_call_prefix_key slot @ cid"

definition call_field_key :: "bytes \<Rightarrow> slot \<Rightarrow> u8 \<Rightarrow> bytes" where
  "call_field_key cid slot ident = call_prefix_key cid slot @ [ident]"

datatype deferred_panic = DEFERRED_CALL_SER_ERROR | DEFERRED_CALL_DESER_ERROR | KEY_DESER_ERROR | SLICE_OUT_OF_RANGE

definition call_fields :: "varint_lib \<Rightarrow> deferred_call \<Rightarrow> field list" where
  "call_fields V call =
     [(CALL_FIELD_SENDER_ADDRESS, address_ser V (dcall_sender_address call)),
      (CALL_FIELD_TARGET_SLOT, slot_ser V (dcall_target_slot call)),
      (CALL_FIELD_TARGET_ADDRESS, address_ser V (dcall_target_address call)),
      (CALL_FIELD_TARGET_FUNCTION, string_u16_ser V (dcall_target_function call)),
      (CALL_FIELD_PARAMETERS, vec_u8_ser V (dcall_parameters call)),
      (CALL_FIELD_COINS, amount_ser V (dcall_coins call)),
      (CALL_FIELD_MAX_GAS, varint_ser V (dcall_max_gas call)),
      (CALL_FIELD_FEE, amount_ser V (dcall_fee call)),
      (CALL_FIELD_CANCELED, bool_ser (dcall_cancelled call))]"

definition registry_put_entry ::
    "varint_lib \<Rightarrow> slot \<Rightarrow> deferred_call_id \<Rightarrow> deferred_call \<Rightarrow> db_batch \<Rightarrow> deferred_panic + db_batch" where
  "registry_put_entry V slot call_id call batch =
     rbind (map_err (\<lambda>_. DEFERRED_CALL_SER_ERROR) (call_id_ser V call_id)) (\<lambda>cid.
       put_rows DEFERRED_CALL_SER_ERROR (call_field_key cid slot) (call_fields V call) batch)"

definition registry_delete_entry ::
    "varint_lib \<Rightarrow> deferred_call_id \<Rightarrow> slot \<Rightarrow> db_batch \<Rightarrow> deferred_panic + db_batch" where
  "registry_delete_entry V call_id slot batch =
     rbind (map_err (\<lambda>_. DEFERRED_CALL_SER_ERROR) (call_id_ser V call_id)) (\<lambda>cid.
       Inr (fold (\<lambda>ident b. delete_key b (call_field_key cid slot ident))
         [CALL_FIELD_SENDER_ADDRESS, CALL_FIELD_TARGET_SLOT, CALL_FIELD_TARGET_ADDRESS,
          CALL_FIELD_TARGET_FUNCTION, CALL_FIELD_PARAMETERS, CALL_FIELD_COINS,
          CALL_FIELD_MAX_GAS, CALL_FIELD_FEE, CALL_FIELD_CANCELED] batch))"

fun apply_call_changes ::
    "varint_lib \<Rightarrow> slot \<Rightarrow> (deferred_call_id \<times> call_change) list \<Rightarrow> db_batch \<Rightarrow> deferred_panic + db_batch" where
  "apply_call_changes V slot [] batch = Inr batch"
| "apply_call_changes V slot ((cid, SOD_Set call) # cs) batch =
     rbind (registry_put_entry V slot cid call batch) (apply_call_changes V slot cs)"
| "apply_call_changes V slot ((cid, SOD_Delete) # cs) batch =
     rbind (registry_delete_entry V cid slot batch) (apply_call_changes V slot cs)"

definition apply_slot_gas :: "varint_lib \<Rightarrow> slot \<Rightarrow> u64 set_or_keep \<Rightarrow> db_batch \<Rightarrow> deferred_panic + db_batch" where
  "apply_slot_gas V slot change batch =
     (case change of
        SOK_Set v \<Rightarrow>
          if v = 0 then Inr (delete_key batch (slot_total_gas_key slot))
          else rbind (map_err (\<lambda>_. DEFERRED_CALL_SER_ERROR) (varint_ser V v)) (\<lambda>value_ser.
            Inr (put_or_update_entry_value batch (slot_total_gas_key slot) value_ser))
      | SOK_Keep \<Rightarrow> Inr batch)"

definition apply_slot_base_fee :: "varint_lib \<Rightarrow> slot \<Rightarrow> amount set_or_keep \<Rightarrow> db_batch \<Rightarrow> deferred_panic + db_batch" where
  "apply_slot_base_fee V slot change batch =
     (case change of
        SOK_Set v \<Rightarrow>
          if v = amount_zero then Inr (delete_key batch (slot_base_fee_key slot))
          else rbind (map_err (\<lambda>_. DEFERRED_CALL_SER_ERROR) (amount_ser V v)) (\<lambda>value_ser.
            Inr (put_or_update_entry_value batch (slot_base_fee_key slot) value_ser))
      | SOK_Keep \<Rightarrow> Inr batch)"

fun apply_slots_change ::
    "varint_lib \<Rightarrow> (slot \<times> slot_changes) list \<Rightarrow> db_batch \<Rightarrow> deferred_panic + db_batch" where
  "apply_slots_change V [] batch = Inr batch"
| "apply_slots_change V ((slot, s) # ss) batch =
     rbind (apply_call_changes V slot (sc_calls s) batch) (\<lambda>batch.
     rbind (apply_slot_gas V slot (sc_effective_slot_gas s) batch) (\<lambda>batch.
     rbind (apply_slot_base_fee V slot (sc_base_fee s) batch) (\<lambda>batch.
     apply_slots_change V ss batch)))"

definition apply_total_gas :: "varint_lib \<Rightarrow> u128 set_or_keep \<Rightarrow> db_batch \<Rightarrow> deferred_panic + db_batch" where
  "apply_total_gas V change batch =
     (case change of
        SOK_Set val \<Rightarrow>
          rbind (map_err (\<lambda>_. DEFERRED_CALL_SER_ERROR) (sok_ser (varint_ser V) change)) (\<lambda>value_ser.
            Inr (put_or_update_entry_value batch DEFERRED_CALL_TOTAL_GAS value_ser))
      | SOK_Keep \<Rightarrow> Inr batch)"

definition registry_apply_changes_to_batch ::
    "varint_lib \<Rightarrow> registry_changes \<Rightarrow> db_batch \<Rightarrow> deferred_panic + db_batch" where
  "registry_apply_changes_to_batch V changes batch =
     rbind (apply_slots_change V (rc_slots_change changes) batch) (\<lambda>batch.
       apply_total_gas V (rc_effective_total_gas changes) batch)"

section \<open>Reading the database\<close>

definition registry_get_call ::
    "varint_lib \<Rightarrow> deferred_config \<Rightarrow> (bytes, bytes) btree \<Rightarrow> slot \<Rightarrow> deferred_call_id
     \<Rightarrow> deferred_panic + deferred_call option" where
  "registry_get_call V C cf slot cid =
     rbind (map_err (\<lambda>_. DEFERRED_CALL_SER_ERROR) (call_id_ser V cid)) (\<lambda>buf_id.
       let serialized_call = concat (map snd (prefix_rows (call_prefix_key buf_id slot) cf))
       in Inr (case deferred_call_deser V C serialized_call of
                 Some (_, call) \<Rightarrow> Some call
               | None \<Rightarrow> None))"

definition registry_get_slot_gas ::
    "varint_lib \<Rightarrow> (bytes, bytes) btree \<Rightarrow> slot \<Rightarrow> deferred_panic + u64" where
  "registry_get_slot_gas V cf slot =
     (case bt_get cf (slot_total_gas_key slot) of
        Some v \<Rightarrow> map_sum (\<lambda>e. e) snd (ok_or (cd_u64 V v) DEFERRED_CALL_DESER_ERROR)
      | None \<Rightarrow> Inr 0)"

definition registry_get_slot_base_fee ::
    "varint_lib \<Rightarrow> (bytes, bytes) btree \<Rightarrow> slot \<Rightarrow> deferred_panic + amount" where
  "registry_get_slot_base_fee V cf slot =
     (case bt_get cf (slot_base_fee_key slot) of
        Some v \<Rightarrow> map_sum (\<lambda>e. e) snd (ok_or (cd_amount V v) DEFERRED_CALL_DESER_ERROR)
      | None \<Rightarrow> Inr amount_zero)"

definition registry_get_total_gas :: "varint_lib \<Rightarrow> (bytes, bytes) btree \<Rightarrow> deferred_panic + u128" where
  "registry_get_total_gas V cf =
     (case bt_get cf DEFERRED_CALL_TOTAL_GAS of
        Some v \<Rightarrow>
          rbind (ok_or (sok_deser (varint_deser V full_range) v) DEFERRED_CALL_DESER_ERROR) (\<lambda>(_, result).
            Inr (case result of SOK_Set v \<Rightarrow> v | SOK_Keep \<Rightarrow> 0))
      | None \<Rightarrow> Inr 0)"

fun gather_slot_calls ::
    "varint_lib \<Rightarrow> deferred_config \<Rightarrow> (bytes, bytes) btree \<Rightarrow> slot \<Rightarrow> (bytes \<times> bytes) list
     \<Rightarrow> deferred_call_id set \<Rightarrow> (deferred_call_id, deferred_call) btree
     \<Rightarrow> deferred_panic + (deferred_call_id, deferred_call) btree" where
  "gather_slot_calls V C cf slot [] temp calls = Inr calls"
| "gather_slot_calls V C cf slot ((serialized_key, _) # rows) temp calls =
     rbind (ok_or (call_id_deser V (drop (length (slot_call_prefix_key slot)) serialized_key)) KEY_DESER_ERROR)
       (\<lambda>(_, call_id).
         if call_id \<in> temp then gather_slot_calls V C cf slot rows temp calls
         else rbind (registry_get_call V C cf slot call_id) (\<lambda>found.
           gather_slot_calls V C cf slot rows (insert call_id temp)
             (case found of Some call \<Rightarrow> bt_insert call_id call calls | None \<Rightarrow> calls)))"

definition registry_get_slot_calls ::
    "varint_lib \<Rightarrow> deferred_config \<Rightarrow> (bytes, bytes) btree \<Rightarrow> slot \<Rightarrow> deferred_panic + deferred_slot_calls" where
  "registry_get_slot_calls V C cf slot =
     rbind (gather_slot_calls V C cf slot (prefix_rows (slot_call_prefix_key slot) cf) {} []) (\<lambda>calls.
     rbind (registry_get_slot_base_fee V cf slot) (\<lambda>base_fee.
     rbind (registry_get_slot_gas V cf slot) (\<lambda>gas.
     Inr ((slot_calls_new slot)\<lparr>dsc_slot_calls := calls, dsc_slot_base_fee := base_fee,
            dsc_effective_slot_gas := gas\<rparr>))))"

section \<open>Validity of rows\<close>

text \<open>\<open>&buf[N..]\<close> is evaluated before \<open>buf.get(..N)?\<close>.\<close>

definition buf_to_array_ctr :: "nat \<Rightarrow> (bytes \<Rightarrow> 'a) \<Rightarrow> bytes \<Rightarrow> deferred_panic + (bytes \<times> 'a) option" where
  "buf_to_array_ctr n ctr buf =
     (if length buf < n then Inl SLICE_OUT_OF_RANGE else Inr (Some (drop n buf, ctr (take n buf))))"

definition call_field_valid :: "varint_lib \<Rightarrow> deferred_config \<Rightarrow> u8 \<Rightarrow> bytes \<Rightarrow> bool" where
  "call_field_valid V C ident value =
     (if ident = CALL_FIELD_SENDER_ADDRESS then address_deser V value \<noteq> None
      else if ident = CALL_FIELD_TARGET_SLOT then cd_slot V C value \<noteq> None
      else if ident = CALL_FIELD_TARGET_ADDRESS then address_deser V value \<noteq> None
      else if ident = CALL_FIELD_TARGET_FUNCTION then cd_function V C value \<noteq> None
      else if ident = CALL_FIELD_PARAMETERS then cd_parameters V C value \<noteq> None
      else if ident = CALL_FIELD_MAX_GAS then cd_u64 V value \<noteq> None
      else if ident = CALL_FIELD_FEE then cd_amount V value \<noteq> None
      else if ident = CALL_FIELD_CANCELED then bool_deser value \<noteq> None
      else if ident = CALL_FIELD_COINS then cd_amount V value \<noteq> None
      else False)"

definition registry_is_key_value_valid ::
    "varint_lib \<Rightarrow> deferred_config \<Rightarrow> bytes \<Rightarrow> bytes \<Rightarrow> deferred_panic + bool" where
  "registry_is_key_value_valid V C serialized_key serialized_value =
     (if has_prefix DEFERRED_CALLS_PREFIX serialized_key then
        rbind (buf_to_array_ctr 9 from_bytes_key (drop (length DEFERRED_CALLS_PREFIX) serialized_key)) (\<lambda>r.
          Inr (case r of
            None \<Rightarrow> False
          | Some (_, slot) \<Rightarrow>
              if has_prefix (slot_total_gas_key slot) serialized_key then cd_u64 V serialized_value \<noteq> None
              else if has_prefix (slot_base_fee_key slot) serialized_key then cd_amount V serialized_value \<noteq> None
              else if \<not> has_prefix (slot_call_prefix_key slot) serialized_key then False
              else case call_id_deser V (drop (length (slot_call_prefix_key slot)) serialized_key) of
                None \<Rightarrow> False
              | Some (rest, _) \<Rightarrow>
                  (case rest of [ident] \<Rightarrow> call_field_valid V C ident serialized_value | _ \<Rightarrow> False)))
      else if serialized_key = DEFERRED_CALL_TOTAL_GAS then
        Inr (sok_deser (varint_deser V (full_range :: u128 bound \<times> u128 bound)) serialized_value \<noteq> None)
      else Inr False)"

section \<open>Fields and keys\<close>

lemmas call_ident_defs =
  CALL_FIELD_SENDER_ADDRESS_def CALL_FIELD_TARGET_SLOT_def CALL_FIELD_TARGET_ADDRESS_def
  CALL_FIELD_TARGET_FUNCTION_def CALL_FIELD_PARAMETERS_def CALL_FIELD_COINS_def CALL_FIELD_MAX_GAS_def
  CALL_FIELD_FEE_def CALL_FIELD_CANCELED_def

definition call_idents :: "u8 list" where
  "call_idents = [1, 2, 3, 4, 5, 6, 7, 8, 9]"

lemma map_fst_call_fields: "map fst (call_fields V c) = call_idents"
  by (simp add: call_fields_def call_ident_defs call_idents_def)

lemma fst_set_call_fields: "fst ` set (call_fields V c) = set call_idents"
  by (metis map_fst_call_fields set_map)

lemma call_idents_sorted: "sorted_wrt (<) call_idents"
  by (simp add: call_idents_def)

lemma call_fields_written: "varint_ok V \<Longrightarrow> call_ok C c \<Longrightarrow> fields_written (call_fields V c)"
  unfolding call_fields_def call_ok_def
  by (auto simp: fields_written_def bool_ser_def intro: call_codecs [THEN canonical_ser_total])

lemma call_fields_concat:
  "fields_written (call_fields V c) \<Longrightarrow>
     deferred_call_ser V c = Inr (concat (map (\<lambda>f. projr (snd f)) (call_fields V c)))"
  using ser_seq_fields [of "call_fields V c"] by (simp add: deferred_call_ser_def call_fields_def)

definition call_id_ok :: "deferred_call_id \<Rightarrow> bool" where
  "call_id_ok i \<longleftrightarrow> length i \<le> 128"

definition call_id_bytes :: "varint_lib \<Rightarrow> deferred_call_id \<Rightarrow> bytes" where
  "call_id_bytes V i = venc V 64 (length i) @ i"

lemma codec_call_id:
  assumes "varint_ok V"
  shows "canonical_codec (call_id_ser V) (call_id_deser V) call_id_ok"
proof -
  have "length i < 2 ^ 64 \<and> range_contains (Included 0, Included (128 :: u64)) (of_nat (length i)) \<longleftrightarrow> call_id_ok i" for i
    using of_nat_le_word [of "length i" "128 :: u64"] by (simp add: call_id_ok_def)
  then show ?thesis using codec_vec_u8 [OF assms, of "(Included 0, Included 128)"]
    by (simp add: call_id_deser_def call_id_ser_def [abs_def])
qed

lemma call_id_ser_eq: "call_id_ok i \<Longrightarrow> call_id_ser V i = Inr (call_id_bytes V i)"
  by (simp add: call_id_ok_def call_id_ser_def vec_u8_ser_def varint_ser_def call_id_bytes_def unat_of_nat)

lemma call_id_deser_bytes:
  "varint_ok V \<Longrightarrow> call_id_ok i \<Longrightarrow> call_id_deser V (call_id_bytes V i @ rest) = Some (rest, i)"
  by (rule codec.deser_ser [OF canonical_codec.axioms(1) [OF codec_call_id]]) (simp_all add: call_id_ser_eq)

lemma call_id_prefix_free:
  assumes "varint_ok V" "call_id_ok i" "call_id_ok j" "call_id_bytes V i @ r = call_id_bytes V j @ s"
  shows "i = j \<and> r = s"
  using call_id_deser_bytes [OF assms(1,2), of r] call_id_deser_bytes [OF assms(1,3), of s] unfolding assms(4) by simp

lemma to_bytes_key_inj: "to_bytes_key s = to_bytes_key t \<longleftrightarrow> s = t"
proof
  assume "to_bytes_key s = to_bytes_key t"
  from arg_cong [OF this, of from_bytes_key] show "s = t" unfolding from_to_bytes_key .
qed simp

lemma to_bytes_key_append: "to_bytes_key s @ x = to_bytes_key t @ y \<longleftrightarrow> s = t \<and> x = y"
  by (simp add: append_eq_append_conv to_bytes_key_inj)

definition call_row :: "varint_lib \<Rightarrow> slot \<Rightarrow> deferred_call_id \<Rightarrow> u8 \<Rightarrow> bytes" where
  "call_row V s i ident = call_field_key (call_id_bytes V i) s ident"

lemmas key_defs = call_row_def call_field_key_def call_prefix_key_def slot_call_prefix_key_def
  slot_total_gas_key_def slot_base_fee_key_def CALLS_TAG_def SLOT_TOTAL_GAS_def SLOT_BASE_FEE_def

lemma slot_keys_distinct:
  "slot_total_gas_key s = slot_total_gas_key t \<longleftrightarrow> s = t"
  "slot_base_fee_key s = slot_base_fee_key t \<longleftrightarrow> s = t"
  "slot_total_gas_key s \<noteq> slot_base_fee_key t" "slot_base_fee_key s \<noteq> slot_total_gas_key t"
  "slot_total_gas_key s \<noteq> call_row V t i ident" "call_row V t i ident \<noteq> slot_total_gas_key s"
  "slot_base_fee_key s \<noteq> call_row V t i ident" "call_row V t i ident \<noteq> slot_base_fee_key s"
  by (auto simp: key_defs to_bytes_key_append to_bytes_key_inj)

lemma call_row_eq:
  assumes "varint_ok V" "call_id_ok i" "call_id_ok j"
  shows "call_row V s i a = call_row V t j b \<longleftrightarrow> s = t \<and> i = j \<and> a = b"
  using call_id_prefix_free [OF assms, of "[a]" "[b]"] by (auto simp: key_defs to_bytes_key_append)

lemma registry_key_prefix [simp]:
  "has_prefix DEFERRED_CALLS_PREFIX (slot_total_gas_key s)"
  "has_prefix DEFERRED_CALLS_PREFIX (slot_base_fee_key s)"
  "has_prefix DEFERRED_CALLS_PREFIX (call_row V s i ident)"
  by (simp_all add: key_defs)

lemma total_gas_no_prefix [simp]: "\<not> has_prefix DEFERRED_CALLS_PREFIX DEFERRED_CALL_TOTAL_GAS"
  by (simp add: has_prefix_def DEFERRED_CALLS_PREFIX_def DEFERRED_CALL_TOTAL_GAS_def)

lemma total_gas_key_distinct [simp]: "has_prefix DEFERRED_CALLS_PREFIX k \<Longrightarrow> DEFERRED_CALL_TOTAL_GAS \<noteq> k"
  using total_gas_no_prefix by auto

section \<open>The view of the rows\<close>

record registry_view =
  rv_slots :: "slot \<Rightarrow> deferred_slot_calls"
  rv_total :: u128

definition registry_view_apply :: "registry_changes \<Rightarrow> registry_view \<Rightarrow> registry_view" where
  "registry_view_apply changes R =
     \<lparr>rv_slots = \<lambda>s. slot_calls_apply_changes changes (rv_slots R s),
      rv_total = sok_apply_to (rc_effective_total_gas changes) (rv_total R)\<rparr>"

definition slot_calls_ok :: "deferred_config \<Rightarrow> slot \<Rightarrow> deferred_slot_calls \<Rightarrow> bool" where
  "slot_calls_ok C s d \<longleftrightarrow> dsc_slot d = s \<and> bt_wf (dsc_slot_calls d)
     \<and> (\<forall>i c. bt_get (dsc_slot_calls d) i = Some c \<longrightarrow> call_id_ok i \<and> call_ok C c)"

definition word_row :: "varint_lib \<Rightarrow> u64 \<Rightarrow> bytes option" where
  "word_row V w = (if w = 0 then None else Some (venc V 64 (unat w)))"

definition call_row_value :: "varint_lib \<Rightarrow> deferred_call option \<Rightarrow> u8 \<Rightarrow> bytes option" where
  "call_row_value V c ident =
     (case c of None \<Rightarrow> None
      | Some call \<Rightarrow> (case map_of (call_fields V call) ident of Some (Inr v) \<Rightarrow> Some v | _ \<Rightarrow> None))"

definition registry_key :: "varint_lib \<Rightarrow> bytes \<Rightarrow> bool" where
  "registry_key V k \<longleftrightarrow> (\<exists>s. k = slot_total_gas_key s) \<or> (\<exists>s. k = slot_base_fee_key s)
     \<or> (\<exists>s i ident. call_id_ok i \<and> k = call_row V s i ident)"

definition registry_db_ok :: "varint_lib \<Rightarrow> deferred_config \<Rightarrow> (bytes, bytes) btree \<Rightarrow> registry_view \<Rightarrow> bool" where
  "registry_db_ok V C cf R \<longleftrightarrow> bt_wf cf
     \<and> (\<forall>s. slot_calls_ok C s (rv_slots R s))
     \<and> (\<forall>s. bt_get cf (slot_total_gas_key s) = word_row V (dsc_effective_slot_gas (rv_slots R s)))
     \<and> (\<forall>s. bt_get cf (slot_base_fee_key s) = word_row V (dsc_slot_base_fee (rv_slots R s)))
     \<and> (\<forall>s i ident. call_id_ok i \<longrightarrow>
          bt_get cf (call_row V s i ident) = call_row_value V (bt_get (dsc_slot_calls (rv_slots R s)) i) ident)
     \<and> (\<forall>k. has_prefix DEFERRED_CALLS_PREFIX k \<longrightarrow> bt_get cf k \<noteq> None \<longrightarrow> registry_key V k)
     \<and> registry_get_total_gas V cf = Inr (rv_total R)"

lemma registry_db_okI:
  assumes "bt_wf cf" "\<And>s. slot_calls_ok C s (rv_slots R s)"
    and "\<And>s. bt_get cf (slot_total_gas_key s) = word_row V (dsc_effective_slot_gas (rv_slots R s))"
    and "\<And>s. bt_get cf (slot_base_fee_key s) = word_row V (dsc_slot_base_fee (rv_slots R s))"
    and "\<And>s i ident. call_id_ok i \<Longrightarrow>
          bt_get cf (call_row V s i ident) = call_row_value V (bt_get (dsc_slot_calls (rv_slots R s)) i) ident"
    and "\<And>k. has_prefix DEFERRED_CALLS_PREFIX k \<Longrightarrow> bt_get cf k \<noteq> None \<Longrightarrow> registry_key V k"
    and "registry_get_total_gas V cf = Inr (rv_total R)"
  shows "registry_db_ok V C cf R"
  using assms unfolding registry_db_ok_def by blast

lemma registry_db_okD:
  assumes "registry_db_ok V C cf R"
  shows "bt_wf cf" "slot_calls_ok C s (rv_slots R s)"
    and "bt_get cf (slot_total_gas_key s) = word_row V (dsc_effective_slot_gas (rv_slots R s))"
    and "bt_get cf (slot_base_fee_key s) = word_row V (dsc_slot_base_fee (rv_slots R s))"
    and "call_id_ok i \<Longrightarrow>
          bt_get cf (call_row V s i ident) = call_row_value V (bt_get (dsc_slot_calls (rv_slots R s)) i) ident"
    and "has_prefix DEFERRED_CALLS_PREFIX k \<Longrightarrow> bt_get cf k \<noteq> None \<Longrightarrow> registry_key V k"
    and "registry_get_total_gas V cf = Inr (rv_total R)"
  using assms unfolding registry_db_ok_def by blast+

text \<open>What is outside the registry.\<close>

definition outside_registry_same :: "db_batch \<Rightarrow> db_batch \<Rightarrow> bool" where
  "outside_registry_same b b' \<longleftrightarrow>
     (\<forall>k. \<not> has_prefix DEFERRED_CALLS_PREFIX k \<longrightarrow> k \<noteq> DEFERRED_CALL_TOTAL_GAS \<longrightarrow> bt_get b' k = bt_get b k)"

lemma outside_registry_same_refl [simp]: "outside_registry_same b b"
  by (simp add: outside_registry_same_def)

lemma outside_registry_same_trans:
  "outside_registry_same a b \<Longrightarrow> outside_registry_same b c \<Longrightarrow> outside_registry_same a c"
  by (simp add: outside_registry_same_def)

text \<open>One slot of the view changes; \<open>cf'\<close> differs from \<open>cf\<close> in rows of that slot only.\<close>

definition at_slot :: "slot \<Rightarrow> (deferred_slot_calls \<Rightarrow> deferred_slot_calls) \<Rightarrow> registry_view \<Rightarrow> registry_view" where
  "at_slot s f R = R\<lparr>rv_slots := (rv_slots R)(s := f (rv_slots R s))\<rparr>"

lemma at_slot_simps [simp]:
  "rv_total (at_slot s f R) = rv_total R"
  "rv_slots (at_slot s f R) t = (if t = s then f (rv_slots R s) else rv_slots R t)"
  by (simp_all add: at_slot_def)

lemma registry_get_total_gas_cong:
  "bt_get cf' DEFERRED_CALL_TOTAL_GAS = bt_get cf DEFERRED_CALL_TOTAL_GAS \<Longrightarrow>
     registry_get_total_gas V cf' = registry_get_total_gas V cf"
  by (simp add: registry_get_total_gas_def)

lemma registry_calls_change:
  assumes V: "varint_ok V" and ok: "registry_db_ok V C cf R" and wf: "bt_wf cf'"
    and i: "call_id_ok i" and calls: "slot_calls_ok C s ((rv_slots R s)\<lparr>dsc_slot_calls := calls'\<rparr>)"
    and get: "\<And>j. bt_get calls' j = (if j = i then c else bt_get (dsc_slot_calls (rv_slots R s)) j)"
    and row: "\<And>ident. bt_get cf' (call_row V s i ident) = call_row_value V c ident"
    and other: "\<And>k. (\<And>ident. k \<noteq> call_row V s i ident) \<Longrightarrow> bt_get cf' k = bt_get cf k"
  shows "registry_db_ok V C cf' (at_slot s (\<lambda>d. d\<lparr>dsc_slot_calls := calls'\<rparr>) R)"
proof (rule registry_db_okI)
  note D = registry_db_okD [OF ok]
  show "bt_wf cf'" by (rule wf)
  show "slot_calls_ok C t (rv_slots (at_slot s (\<lambda>d. d\<lparr>dsc_slot_calls := calls'\<rparr>) R) t)" for t
    using calls D(2) [of t] by simp
  show "bt_get cf' (slot_total_gas_key t)
      = word_row V (dsc_effective_slot_gas (rv_slots (at_slot s (\<lambda>d. d\<lparr>dsc_slot_calls := calls'\<rparr>) R) t))" for t
    using other [of "slot_total_gas_key t"] D(3) [of t] by (simp add: slot_keys_distinct)
  show "bt_get cf' (slot_base_fee_key t)
      = word_row V (dsc_slot_base_fee (rv_slots (at_slot s (\<lambda>d. d\<lparr>dsc_slot_calls := calls'\<rparr>) R) t))" for t
    using other [of "slot_base_fee_key t"] D(4) [of t] by (simp add: slot_keys_distinct)
  show "bt_get cf' (call_row V t j ident) = call_row_value V
      (bt_get (dsc_slot_calls (rv_slots (at_slot s (\<lambda>d. d\<lparr>dsc_slot_calls := calls'\<rparr>) R) t)) j) ident"
    if j: "call_id_ok j" for t j ident
  proof (cases "t = s \<and> j = i")
    case True
    then show ?thesis by (simp add: row get)
  next
    case False
    then have "bt_get cf' (call_row V t j ident) = bt_get cf (call_row V t j ident)"
      by (intro other) (auto simp: call_row_eq [OF V j i])
    with False show ?thesis using D(5) [OF j, of t ident] by (auto simp: get)
  qed
  show "registry_key V k" if "has_prefix DEFERRED_CALLS_PREFIX k" "bt_get cf' k \<noteq> None" for k
  proof (cases "\<exists>ident. k = call_row V s i ident")
    case True
    then show ?thesis using i unfolding registry_key_def by blast
  next
    case False
    then show ?thesis using other [of k] D(6) [of k] that by simp
  qed
  have "bt_get cf' DEFERRED_CALL_TOTAL_GAS = bt_get cf DEFERRED_CALL_TOTAL_GAS"
    by (rule other) simp
  then show "registry_get_total_gas V cf' = Inr (rv_total (at_slot s (\<lambda>d. d\<lparr>dsc_slot_calls := calls'\<rparr>) R))"
    using D(7) registry_get_total_gas_cong [of cf' cf V] by simp
qed

lemma slot_calls_ok_insert:
  "slot_calls_ok C s d \<Longrightarrow> call_id_ok i \<Longrightarrow> call_ok C c \<Longrightarrow>
     slot_calls_ok C s (d\<lparr>dsc_slot_calls := bt_insert i c (dsc_slot_calls d)\<rparr>)"
  by (auto simp: slot_calls_ok_def bt_get_insert)

lemma slot_calls_ok_remove:
  "slot_calls_ok C s d \<Longrightarrow> slot_calls_ok C s (d\<lparr>dsc_slot_calls := bt_remove i (dsc_slot_calls d)\<rparr>)"
  by (auto simp: slot_calls_ok_def bt_get_remove)

lemma call_row_value_written:
  assumes "fields_written (call_fields V c)"
  shows "map_of (call_fields V c) ident = Some (Inr v) \<longleftrightarrow> call_row_value V (Some c) ident = Some v"
proof -
  have "\<exists>v. r = Inr v" if "map_of (call_fields V c) ident = Some r" for r
  proof -
    have "(ident, r) \<in> set (call_fields V c)" using that by (rule map_of_SomeD)
    then have "\<exists>v. snd (ident, r) = Inr v" using assms unfolding fields_written_def list_all_iff by blast
    then show ?thesis by simp
  qed
  then show ?thesis
    by (cases "map_of (call_fields V c) ident") (auto simp: call_row_value_def split: sum.splits)
qed

lemma call_fields_outside: "ident \<notin> set call_idents \<Longrightarrow> map_of (call_fields V c) ident = None"
  by (simp add: map_of_eq_None_iff fst_set_call_fields)

lemma call_row_value_outside: "ident \<notin> set call_idents \<Longrightarrow> call_row_value V c ident = None"
  by (cases c) (simp_all add: call_row_value_def call_fields_outside)

section \<open>Writing changes\<close>

abbreviation set_calls :: "((deferred_call_id, deferred_call) btree \<Rightarrow> (deferred_call_id, deferred_call) btree)
    \<Rightarrow> deferred_slot_calls \<Rightarrow> deferred_slot_calls" where
  "set_calls f d \<equiv> d\<lparr>dsc_slot_calls := f (dsc_slot_calls d)\<rparr>"

text \<open>A step from one batch to the next: it succeeds, and the rows then show the new view.\<close>

definition registry_step ::
    "varint_lib \<Rightarrow> deferred_config \<Rightarrow> (bytes, bytes) btree \<Rightarrow> db_batch \<Rightarrow> deferred_panic + db_batch \<Rightarrow> registry_view \<Rightarrow> bool" where
  "registry_step V C cf b r R \<longleftrightarrow>
     (\<exists>b'. r = Inr b' \<and> bt_wf b' \<and> outside_registry_same b b' \<and> registry_db_ok V C (batch_apply b' cf) R)"

lemma registry_stepI:
  "bt_wf b' \<Longrightarrow> outside_registry_same b b' \<Longrightarrow> registry_db_ok V C (batch_apply b' cf) R \<Longrightarrow>
     registry_step V C cf b (Inr b') R"
  by (simp add: registry_step_def)

lemma registry_step_bind:
  assumes "registry_step V C cf b r R"
    and "\<And>b'. bt_wf b' \<Longrightarrow> registry_db_ok V C (batch_apply b' cf) R \<Longrightarrow> registry_step V C cf b' (f b') R'"
  shows "registry_step V C cf b (rbind r f) R'"
proof -
  obtain b' where b': "r = Inr b'" "bt_wf b'" "outside_registry_same b b'" "registry_db_ok V C (batch_apply b' cf) R"
    using assms(1) unfolding registry_step_def by blast
  obtain b'' where "f b' = Inr b''" "bt_wf b''" "outside_registry_same b' b''" "registry_db_ok V C (batch_apply b'' cf) R'"
    using assms(2) [OF b'(2,4)] unfolding registry_step_def by blast
  with b' outside_registry_same_trans [OF b'(3)] show ?thesis unfolding registry_step_def by auto
qed

lemma inj_call_field_key: "inj (call_field_key cid s)"
  by (simp add: inj_def call_field_key_def)

lemma call_row_key: "call_field_key (call_id_bytes V i) s ident = call_row V s i ident"
  by (simp add: call_row_def)

lemma distinct_call_fields: "distinct (map fst (call_fields V c))"
  by (simp add: map_fst_call_fields call_idents_def)

lemma put_entry_step:
  assumes V: "varint_ok V" and ok: "registry_db_ok V C (batch_apply b cf) R" and wf: "bt_wf b" "bt_wf cf"
    and i: "call_id_ok i" "call_ok C c"
  shows "registry_step V C cf b (registry_put_entry V s i c b) (at_slot s (set_calls (bt_insert i c)) R)"
proof -
  note D = registry_db_okD [OF ok]
  note written = call_fields_written [OF V i(2)]
  obtain b' where b': "put_rows DEFERRED_CALL_SER_ERROR (call_field_key (call_id_bytes V i) s) (call_fields V c) b = Inr b'"
    using put_rows_total [OF written, of DEFERRED_CALL_SER_ERROR "call_field_key (call_id_bytes V i) s" b] by blast
  note view = put_rows_view [OF b' wf(1) distinct_call_fields inj_call_field_key, unfolded call_row_key fst_set_call_fields]
  have same: "bt_get (batch_apply b' cf) k = bt_get (batch_apply b cf) k" if "bt_get b' k = bt_get b k" for k
    using that by (simp add: bt_get_batch_apply [OF view(1)] bt_get_batch_apply [OF wf(1)])
  have row: "bt_get (batch_apply b' cf) (call_row V s i ident) = call_row_value V (Some c) ident" for ident
  proof (cases "call_row_value V (Some c) ident")
    case (Some v)
    then have "map_of (call_fields V c) ident = Some (Inr v)" by (simp add: call_row_value_written [OF written])
    then show ?thesis using view(2) [of ident v] by (simp add: bt_get_batch_apply [OF view(1)] Some)
  next
    case None
    have out: "ident \<notin> set call_idents"
    proof
      assume "ident \<in> set call_idents"
      then obtain r where r: "map_of (call_fields V c) ident = Some r"
        using map_of_eq_None_iff [of "call_fields V c" ident] by (auto simp: fst_set_call_fields)
      then have "(ident, r) \<in> set (call_fields V c)" by (rule map_of_SomeD)
      then have "\<exists>v. snd (ident, r) = Inr v" using written unfolding fields_written_def list_all_iff by blast
      with r None show False by (auto simp: call_row_value_def)
    qed
    then have "bt_get b' (call_row V s i ident) = bt_get b (call_row V s i ident)"
      by (intro view(3)) (auto simp: call_row_eq [OF V i(1) i(1)])
    then show ?thesis
      using D(5) [OF i(1), of s ident] call_row_value_outside [OF out] by (simp add: same)
  qed
  have "registry_db_ok V C (batch_apply b' cf) (at_slot s (\<lambda>d. d\<lparr>dsc_slot_calls := bt_insert i c (dsc_slot_calls (rv_slots R s))\<rparr>) R)"
  proof (rule registry_calls_change [OF V ok _ i(1) slot_calls_ok_insert [OF D(2) i] _ row])
    show "bt_wf (batch_apply b' cf)" using wf(2) by simp
    show "bt_get (bt_insert i c (dsc_slot_calls (rv_slots R s))) j
        = (if j = i then Some c else bt_get (dsc_slot_calls (rv_slots R s)) j)" for j
      by (simp add: bt_get_insert)
    show "bt_get (batch_apply b' cf) k = bt_get (batch_apply b cf) k" if "\<And>ident. k \<noteq> call_row V s i ident" for k
      using that by (intro same view(3))
  qed
  moreover have "outside_registry_same b b'"
    unfolding outside_registry_same_def using view(3) registry_key_prefix(3) by metis
  ultimately show ?thesis
    by (simp add: registry_put_entry_def call_id_ser_eq [OF i(1)] b' registry_stepI view(1) at_slot_def)
qed

lemma delete_entry_step:
  assumes V: "varint_ok V" and ok: "registry_db_ok V C (batch_apply b cf) R" and wf: "bt_wf b" "bt_wf cf"
    and i: "call_id_ok i"
  shows "registry_step V C cf b (registry_delete_entry V i s b) (at_slot s (set_calls (bt_remove i)) R)"
proof -
  note D = registry_db_okD [OF ok]
  define b' where "b' = fold (\<lambda>k b. delete_key b k) (map (call_row V s i) call_idents) b"
  have wf': "bt_wf b'" unfolding b'_def by (rule bt_wf_delete_keys [OF wf(1)])
  have get: "bt_get b' k = (if k \<in> call_row V s i ` set call_idents then Some None else bt_get b k)" for k
    unfolding b'_def by (simp add: bt_get_delete_keys)
  have same: "bt_get (batch_apply b' cf) k = (if k \<in> call_row V s i ` set call_idents then None else bt_get (batch_apply b cf) k)" for k
    by (simp add: bt_get_batch_apply [OF wf'] bt_get_batch_apply [OF wf(1)] get)
  have row: "bt_get (batch_apply b' cf) (call_row V s i ident) = call_row_value V None ident" for ident
    using D(5) [OF i, of s ident] call_row_value_outside [of ident V "bt_get (dsc_slot_calls (rv_slots R s)) i"]
    by (auto simp: same call_row_value_def image_iff call_row_eq [OF V i i])
  have "registry_db_ok V C (batch_apply b' cf) (at_slot s (\<lambda>d. d\<lparr>dsc_slot_calls := bt_remove i (dsc_slot_calls (rv_slots R s))\<rparr>) R)"
  proof (rule registry_calls_change [OF V ok _ i slot_calls_ok_remove [OF D(2)] _ row])
    show "bt_wf (batch_apply b' cf)" using wf(2) by simp
    show "bt_get (bt_remove i (dsc_slot_calls (rv_slots R s))) j
        = (if j = i then None else bt_get (dsc_slot_calls (rv_slots R s)) j)" for j
      by (simp add: bt_get_remove)
    show "bt_get (batch_apply b' cf) k = bt_get (batch_apply b cf) k" if "\<And>ident. k \<noteq> call_row V s i ident" for k
      using that by (auto simp: same)
  qed
  moreover have "outside_registry_same b b'" by (auto simp: outside_registry_same_def get)
  moreover have "registry_delete_entry V i s b = Inr b'"
    by (simp add: registry_delete_entry_def call_id_ser_eq [OF i] b'_def call_idents_def call_ident_defs call_row_key)
  ultimately show ?thesis by (simp add: registry_stepI wf' at_slot_def)
qed

definition call_change_ok :: "deferred_config \<Rightarrow> deferred_call_id \<times> call_change \<Rightarrow> bool" where
  "call_change_ok C = (\<lambda>(i, c). call_id_ok i \<and> pred_set_or_delete (call_ok C) c)"

lemma at_slot_at_slot: "at_slot s f (at_slot s g R) = at_slot s (\<lambda>d. f (g d)) R"
  by (simp add: at_slot_def)

lemma apply_call_changes_step:
  assumes "varint_ok V" "registry_db_ok V C (batch_apply b cf) R" "bt_wf b" "bt_wf cf" "list_all (call_change_ok C) cs"
  shows "registry_step V C cf b (apply_call_changes V s cs b) (at_slot s (set_calls (fold call_change_step cs)) R)"
  using assms(2,3,5)
proof (induction cs arbitrary: b R)
  case Nil
  have "at_slot s (set_calls (fold call_change_step [])) R = R" by (simp add: at_slot_def)
  with Nil show ?case by (simp add: registry_stepI)
next
  case (Cons e cs)
  obtain i c where e: "e = (i, c)" by (cases e)
  have i: "call_id_ok i" "pred_set_or_delete (call_ok C) c" and cs: "list_all (call_change_ok C) cs"
    using Cons.prems(3) by (simp_all add: e call_change_ok_def)
  have fold: "at_slot s (set_calls (fold call_change_step (e # cs))) R
      = at_slot s (set_calls (fold call_change_step cs)) (at_slot s (set_calls (call_change_step (i, c))) R)"
    by (simp add: at_slot_at_slot e)
  show ?case
  proof (cases c)
    case (SOD_Set call)
    then have call: "call_ok C call" using i(2) by simp
    show ?thesis unfolding fold unfolding e SOD_Set apply_call_changes.simps call_change_step.simps
      by (rule registry_step_bind [OF put_entry_step [OF assms(1) Cons.prems(1,2) assms(4) i(1) call]])
        (rule Cons.IH [OF _ _ cs])
  next
    case SOD_Delete
    show ?thesis unfolding fold unfolding e SOD_Delete apply_call_changes.simps call_change_step.simps
      by (rule registry_step_bind [OF delete_entry_step [OF assms(1) Cons.prems(1,2) assms(4) i(1)]])
        (rule Cons.IH [OF _ _ cs])
  qed
qed

text \<open>Gas and base fee: one row that changes.\<close>

lemma slot_calls_ok_words:
  "slot_calls_ok C s (d\<lparr>dsc_effective_slot_gas := g\<rparr>) \<longleftrightarrow> slot_calls_ok C s d"
  "slot_calls_ok C s (d\<lparr>dsc_slot_base_fee := g\<rparr>) \<longleftrightarrow> slot_calls_ok C s d"
  by (simp_all add: slot_calls_ok_def)

lemma registry_gas_change:
  assumes ok: "registry_db_ok V C cf R" and wf: "bt_wf cf'"
    and get: "\<And>k. bt_get cf' k = (if k = slot_total_gas_key s then word_row V g else bt_get cf k)"
  shows "registry_db_ok V C cf' (at_slot s (\<lambda>d. d\<lparr>dsc_effective_slot_gas := g\<rparr>) R)"
proof (rule registry_db_okI)
  note D = registry_db_okD [OF ok]
  show "registry_key V k" if "has_prefix DEFERRED_CALLS_PREFIX k" "bt_get cf' k \<noteq> None" for k
    using D(6) [OF that(1)] that(2) by (auto simp: get registry_key_def split: if_splits)
  have "bt_get cf' DEFERRED_CALL_TOTAL_GAS = bt_get cf DEFERRED_CALL_TOTAL_GAS" by (simp add: get)
  then show "registry_get_total_gas V cf' = Inr (rv_total (at_slot s (\<lambda>d. d\<lparr>dsc_effective_slot_gas := g\<rparr>) R))"
    using D(7) registry_get_total_gas_cong [of cf' cf V] by simp
qed (use registry_db_okD [OF ok] wf in \<open>simp_all add: get slot_keys_distinct slot_calls_ok_words\<close>)

lemma registry_fee_change:
  assumes ok: "registry_db_ok V C cf R" and wf: "bt_wf cf'"
    and get: "\<And>k. bt_get cf' k = (if k = slot_base_fee_key s then word_row V g else bt_get cf k)"
  shows "registry_db_ok V C cf' (at_slot s (\<lambda>d. d\<lparr>dsc_slot_base_fee := g\<rparr>) R)"
proof (rule registry_db_okI)
  note D = registry_db_okD [OF ok]
  show "registry_key V k" if "has_prefix DEFERRED_CALLS_PREFIX k" "bt_get cf' k \<noteq> None" for k
    using D(6) [OF that(1)] that(2) by (auto simp: get registry_key_def split: if_splits)
  have "bt_get cf' DEFERRED_CALL_TOTAL_GAS = bt_get cf DEFERRED_CALL_TOTAL_GAS" by (simp add: get)
  then show "registry_get_total_gas V cf' = Inr (rv_total (at_slot s (\<lambda>d. d\<lparr>dsc_slot_base_fee := g\<rparr>) R))"
    using D(7) registry_get_total_gas_cong [of cf' cf V] by simp
qed (use registry_db_okD [OF ok] wf in \<open>simp_all add: get slot_keys_distinct slot_calls_ok_words\<close>)

lemma one_row_get:
  assumes "bt_wf b"
  shows "bt_wf (bt_insert k v b)"
    and "bt_get (batch_apply (bt_insert k v b) cf) k' = (if k' = k then v else bt_get (batch_apply b cf) k')"
proof -
  show wf: "bt_wf (bt_insert k v b)" using assms by simp
  show "bt_get (batch_apply (bt_insert k v b) cf) k' = (if k' = k then v else bt_get (batch_apply b cf) k')"
    by (simp add: bt_get_batch_apply [OF wf] bt_get_batch_apply [OF assms] bt_get_insert)
qed

lemma one_row_outside: "has_prefix DEFERRED_CALLS_PREFIX k \<or> k = DEFERRED_CALL_TOTAL_GAS \<Longrightarrow> outside_registry_same b (bt_insert k v b)"
  by (auto simp: outside_registry_same_def bt_get_insert)

lemma apply_slot_gas_step:
  assumes ok: "registry_db_ok V C (batch_apply b cf) R" and wf: "bt_wf b" "bt_wf cf"
  shows "registry_step V C cf b (apply_slot_gas V s change b)
    (at_slot s (\<lambda>d. d\<lparr>dsc_effective_slot_gas := sok_apply_to change (dsc_effective_slot_gas d)\<rparr>) R)"
proof (cases change)
  case SOK_Keep
  have "at_slot s (\<lambda>d. d) R = R" by (simp add: at_slot_def)
  with SOK_Keep ok wf show ?thesis by (simp add: apply_slot_gas_def registry_stepI)
next
  case (SOK_Set v)
  define b' where "b' = bt_insert (slot_total_gas_key s) (word_row V v) b"
  have "apply_slot_gas V s change b = Inr b'"
    by (simp add: apply_slot_gas_def SOK_Set b'_def word_row_def delete_key_def put_or_update_entry_value_def varint_ser_def)
  moreover have "registry_db_ok V C (batch_apply b' cf) (at_slot s (\<lambda>d. d\<lparr>dsc_effective_slot_gas := v\<rparr>) R)"
    by (rule registry_gas_change [OF ok]) (simp_all add: b'_def one_row_get [OF wf(1)] wf)
  ultimately show ?thesis
    by (simp add: SOK_Set registry_stepI b'_def one_row_get [OF wf(1)] one_row_outside)
qed

lemma apply_slot_base_fee_step:
  assumes ok: "registry_db_ok V C (batch_apply b cf) R" and wf: "bt_wf b" "bt_wf cf"
  shows "registry_step V C cf b (apply_slot_base_fee V s change b)
    (at_slot s (\<lambda>d. d\<lparr>dsc_slot_base_fee := sok_apply_to change (dsc_slot_base_fee d)\<rparr>) R)"
proof (cases change)
  case SOK_Keep
  have "at_slot s (\<lambda>d. d) R = R" by (simp add: at_slot_def)
  with SOK_Keep ok wf show ?thesis by (simp add: apply_slot_base_fee_def registry_stepI)
next
  case (SOK_Set v)
  define b' where "b' = bt_insert (slot_base_fee_key s) (word_row V v) b"
  have "apply_slot_base_fee V s change b = Inr b'"
    by (simp add: apply_slot_base_fee_def SOK_Set b'_def word_row_def delete_key_def put_or_update_entry_value_def
        amount_ser_def varint_ser_def amount_zero_def)
  moreover have "registry_db_ok V C (batch_apply b' cf) (at_slot s (\<lambda>d. d\<lparr>dsc_slot_base_fee := v\<rparr>) R)"
    by (rule registry_fee_change [OF ok]) (simp_all add: b'_def one_row_get [OF wf(1)] wf)
  ultimately show ?thesis
    by (simp add: SOK_Set registry_stepI b'_def one_row_get [OF wf(1)] one_row_outside)
qed

text \<open>All slots.\<close>

definition slot_effect :: "slot_changes \<Rightarrow> deferred_slot_calls \<Rightarrow> deferred_slot_calls" where
  "slot_effect c d = d\<lparr>dsc_slot_calls := fold call_change_step (sc_calls c) (dsc_slot_calls d),
     dsc_effective_slot_gas := sok_apply_to (sc_effective_slot_gas c) (dsc_effective_slot_gas d),
     dsc_slot_base_fee := sok_apply_to (sc_base_fee c) (dsc_slot_base_fee d)\<rparr>"

definition slot_changes_ok :: "deferred_config \<Rightarrow> slot_changes \<Rightarrow> bool" where
  "slot_changes_ok C c \<longleftrightarrow> bt_wf (sc_calls c) \<and> list_all (call_change_ok C) (sc_calls c)"

lemma apply_slots_change_step:
  assumes "varint_ok V" "registry_db_ok V C (batch_apply b cf) R" "bt_wf b" "bt_wf cf"
    and "list_all (\<lambda>(s, c). slot_changes_ok C c) ss"
  shows "registry_step V C cf b (apply_slots_change V ss b) (fold (\<lambda>(s, c). at_slot s (slot_effect c)) ss R)"
  using assms(2,3,5)
proof (induction ss arbitrary: b R)
  case Nil
  then show ?case by (simp add: registry_stepI)
next
  case (Cons e ss)
  obtain s c where e: "e = (s, c)" by (cases e)
  have c: "list_all (call_change_ok C) (sc_calls c)" and ss: "list_all (\<lambda>(s, c). slot_changes_ok C c) ss"
    using Cons.prems(3) by (simp_all add: e slot_changes_ok_def)
  have eff: "at_slot s (slot_effect c) R
      = at_slot s (\<lambda>d. d\<lparr>dsc_slot_base_fee := sok_apply_to (sc_base_fee c) (dsc_slot_base_fee d)\<rparr>)
          (at_slot s (\<lambda>d. d\<lparr>dsc_effective_slot_gas := sok_apply_to (sc_effective_slot_gas c) (dsc_effective_slot_gas d)\<rparr>)
            (at_slot s (set_calls (fold call_change_step (sc_calls c))) R))"
    by (simp add: at_slot_def slot_effect_def)
  show ?case unfolding e apply_slots_change.simps fold.simps comp_def prod.case eff
    apply (rule registry_step_bind [OF apply_call_changes_step [OF assms(1) Cons.prems(1,2) assms(4) c]])
    apply (rule registry_step_bind [OF apply_slot_gas_step [OF _ _ assms(4)]], assumption, assumption)
    apply (rule registry_step_bind [OF apply_slot_base_fee_step [OF _ _ assms(4)]], assumption, assumption)
    apply (rule Cons.IH [OF _ _ ss], assumption, assumption)
    done
qed

lemma fold_at_slot:
  assumes "distinct (map fst ss)"
  shows "rv_slots (fold (\<lambda>(s, c). at_slot s (slot_effect c)) ss R) t
      = (case map_of ss t of Some c \<Rightarrow> slot_effect c (rv_slots R t) | None \<Rightarrow> rv_slots R t)"
    and "rv_total (fold (\<lambda>(s, c). at_slot s (slot_effect c)) ss R) = rv_total R"
  using assms
proof (induction ss arbitrary: R)
  case (Cons e ss)
  obtain s c where e: "e = (s, c)" by (cases e)
  { case 1
    then have "map_of ss s = None" and d: "distinct (map fst ss)" by (simp_all add: e map_of_eq_None_iff)
    then show ?case using Cons.IH(1) [OF d] by (auto simp: e split: option.splits)
  next
    case 2
    then show ?case using Cons.IH(2) by (simp add: e) }
qed simp_all

text \<open>The total.\<close>

lemma apply_total_gas_step:
  assumes V: "varint_ok V" and ok: "registry_db_ok V C (batch_apply b cf) R" and wf: "bt_wf b" "bt_wf cf"
  shows "registry_step V C cf b (apply_total_gas V change b) (R\<lparr>rv_total := sok_apply_to change (rv_total R)\<rparr>)"
proof (cases change)
  case SOK_Keep
  with ok wf show ?thesis by (simp add: apply_total_gas_def registry_stepI)
next
  case (SOK_Set v)
  define row where "row = 0 # venc V 128 (unat v)"
  define b' where "b' = bt_insert DEFERRED_CALL_TOTAL_GAS (Some row) b"
  note get = one_row_get(2) [OF wf(1), of DEFERRED_CALL_TOTAL_GAS "Some row" cf, folded b'_def]
  have ser: "sok_ser (varint_ser V) change = Inr row" by (simp add: SOK_Set varint_ser_def row_def)
  then have app: "apply_total_gas V change b = Inr b'"
    by (simp add: apply_total_gas_def SOK_Set b'_def put_or_update_entry_value_def)
  have key: "bt_get (batch_apply b' cf) k = bt_get (batch_apply b cf) k" if "has_prefix DEFERRED_CALLS_PREFIX k" for k
    using that by (auto simp: get)
  have "registry_db_ok V C (batch_apply b' cf) (R\<lparr>rv_total := v\<rparr>)"
  proof (rule registry_db_okI)
    note D = registry_db_okD [OF ok]
    have "sok_deser (varint_deser V full_range) (row @ []) = Some ([], change)"
      using ser by (intro codec.deser_ser [OF canonical_codec.axioms(1) [OF codec_sok [OF codec_varint [OF V]]]]) (simp_all add: SOK_Set)
    then show "registry_get_total_gas V (batch_apply b' cf) = Inr (rv_total (R\<lparr>rv_total := v\<rparr>))"
      by (simp add: registry_get_total_gas_def get SOK_Set)
    show "registry_key V k" if "has_prefix DEFERRED_CALLS_PREFIX k" "bt_get (batch_apply b' cf) k \<noteq> None" for k
      using D(6) [OF that(1)] that(2) by (simp add: key [OF that(1)])
  qed (use registry_db_okD [OF ok] wf in \<open>simp_all add: key\<close>)
  then show ?thesis
    unfolding app by (simp add: SOK_Set registry_stepI b'_def one_row_get [OF wf(1)] one_row_outside)
qed

definition registry_changes_ok :: "deferred_config \<Rightarrow> registry_changes \<Rightarrow> bool" where
  "registry_changes_ok C changes \<longleftrightarrow> bt_wf (rc_slots_change changes)
     \<and> list_all (\<lambda>(s, c). slot_changes_ok C c) (rc_slots_change changes)"

lemma registry_apply_step:
  assumes "varint_ok V" "registry_db_ok V C (batch_apply b cf) R" "bt_wf b" "bt_wf cf" "registry_changes_ok C changes"
  shows "registry_step V C cf b (registry_apply_changes_to_batch V changes b) (registry_view_apply changes R)"
proof -
  have ch: "distinct (map fst (rc_slots_change changes))" "list_all (\<lambda>(s, c). slot_changes_ok C c) (rc_slots_change changes)"
    using assms(5) by (auto simp: registry_changes_ok_def bt_wf_distinct)
  define R' where "R' = fold (\<lambda>(s, c). at_slot s (slot_effect c)) (rc_slots_change changes) R"
  have "dsc_slot (rv_slots R t) = t" for t using registry_db_okD(2) [OF assms(2), of t] by (simp add: slot_calls_ok_def)
  then have eq: "R'\<lparr>rv_total := sok_apply_to (rc_effective_total_gas changes) (rv_total R')\<rparr> = registry_view_apply changes R"
    using fold_at_slot [OF ch(1)]
    by (auto simp: registry_view_apply_def slot_calls_apply_changes_def slot_effect_def R'_def bt_get_def fun_eq_iff
        intro!: registry_view.equality split: option.splits)
  show ?thesis
    unfolding registry_apply_changes_to_batch_def eq [symmetric]
    by (rule registry_step_bind [OF apply_slots_change_step [OF assms(1-4) ch(2), folded R'_def]])
      (rule apply_total_gas_step [OF assms(1) _ _ assms(4)])
qed

section \<open>Reading the view\<close>

lemma call_prefix_row: "call_row V s i ident = call_prefix_key (call_id_bytes V i) s @ [ident]"
  by (simp add: call_row_def call_field_key_def)

lemma slot_prefix_key:
  assumes "registry_key V k" "has_prefix (slot_call_prefix_key s) k"
  shows "\<exists>i ident. call_id_ok i \<and> k = call_row V s i ident"
proof -
  obtain r where r: "k = DEFERRED_CALLS_PREFIX @ to_bytes_key s @ [0] @ r"
    using assms(2) by (auto simp: has_prefix_iff slot_call_prefix_key_def CALLS_TAG_def)
  consider (gas) t where "k = slot_total_gas_key t" | (fee) t where "k = slot_base_fee_key t"
    | (call) t i ident where "call_id_ok i" "k = call_row V t i ident"
    using assms(1) unfolding registry_key_def by blast
  then show ?thesis
  proof cases
    case call
    then have "t = s" using r by (simp add: key_defs to_bytes_key_append)
    with call show ?thesis by blast
  qed (use r in \<open>simp_all add: key_defs to_bytes_key_append\<close>)
qed

lemma call_prefix_key_row:
  assumes "varint_ok V" "registry_key V k" "call_id_ok i" "has_prefix (call_prefix_key (call_id_bytes V i) s) k"
  shows "\<exists>ident. k = call_row V s i ident"
proof -
  obtain r where r: "k = slot_call_prefix_key s @ call_id_bytes V i @ r"
    using assms(4) by (auto simp: has_prefix_iff call_prefix_key_def)
  then have "has_prefix (slot_call_prefix_key s) k" by simp
  then obtain j ident where j: "call_id_ok j" "k = call_row V s j ident"
    using slot_prefix_key [OF assms(2)] by blast
  then have "call_id_bytes V i @ r = call_id_bytes V j @ [ident]"
    using r by (simp add: call_row_def call_field_key_def call_prefix_key_def)
  then have "i = j" using call_id_prefix_free [OF assms(1,3) j(1)] by blast
  with j(2) show ?thesis by blast
qed

lemma call_prefix_has_prefix: "has_prefix (call_prefix_key c s) k \<Longrightarrow> has_prefix DEFERRED_CALLS_PREFIX k"
  by (auto simp: has_prefix_iff call_prefix_key_def slot_call_prefix_key_def)

lemma registry_get_call_ok:
  assumes V: "varint_ok V" and ok: "registry_db_ok V C cf R" and i: "call_id_ok i"
  shows "registry_get_call V C cf s i = Inr (bt_get (dsc_slot_calls (rv_slots R s)) i)"
proof -
  note D = registry_db_okD [OF ok]
  define p where "p = call_prefix_key (call_id_bytes V i) s"
  have row: "bt_get cf (p @ [ident]) = call_row_value V (bt_get (dsc_slot_calls (rv_slots R s)) i) ident" for ident
    using D(5) [OF i, of s ident] by (simp add: call_prefix_row p_def)
  have only: "\<exists>ident. k = p @ [ident]" if "has_prefix p k" "bt_get cf k = Some v" for k v
    using call_prefix_key_row [OF V D(6) i, of k s] call_prefix_has_prefix that
    by (auto simp: call_prefix_row p_def)
  have unfold: "registry_get_call V C cf s i = Inr (map_option snd (deferred_call_deser V C (concat (map snd (prefix_rows p cf)))))"
    by (simp add: registry_get_call_def call_id_ser_eq [OF i] p_def Let_def split: option.splits)
  show ?thesis
  proof (cases "bt_get (dsc_slot_calls (rv_slots R s)) i")
    case (Some c)
    then have c: "call_ok C c" using D(2) [of s] by (simp add: slot_calls_ok_def)
    note written = call_fields_written [OF V c]
    have "prefix_rows p cf = field_rows p (call_fields V c)"
      by (rule prefix_rows_fields [OF D(1) _ written _ only])
        (simp_all add: map_fst_call_fields call_idents_sorted row Some call_row_value_written [OF written])
    moreover have "deferred_call_deser V C (concat (map (\<lambda>f. projr (snd f)) (call_fields V c)) @ []) = Some ([], c)"
      by (rule codec.deser_ser [OF canonical_codec.axioms(1) [OF codec_deferred_call [OF V]] c call_fields_concat [OF written]])
    ultimately show ?thesis by (simp add: unfold concat_field_rows Some)
  next
    case None
    have "bt_get (prefix_rows p cf) k = None" for k
    proof (cases "bt_get cf k")
      case (Some v)
      then show ?thesis using only [of k v] row None by (auto simp: get_prefix_rows [OF D(1)] call_row_value_def)
    qed (simp add: get_prefix_rows [OF D(1)])
    then have "prefix_rows p cf = []" using bt_eqI [of "prefix_rows p cf" "[]"] D(1) by simp
    then show ?thesis by (simp add: unfold None deferred_call_deser_def dbind_def address_deser_def)
  qed
qed

text \<open>The loop over the rows of a slot.\<close>

definition row_ids :: "varint_lib \<Rightarrow> slot \<Rightarrow> (bytes \<times> bytes) list \<Rightarrow> deferred_call_id set" where
  "row_ids V s rows = {i. call_id_ok i \<and> (\<exists>ident. call_row V s i ident \<in> fst ` set rows)}"

lemma gather_slot_calls_ok:
  assumes V: "varint_ok V" and ok: "registry_db_ok V C cf R"
    and "\<And>k. k \<in> fst ` set rows \<Longrightarrow> \<exists>i ident. call_id_ok i \<and> k = call_row V s i ident"
    and "bt_wf calls" "\<And>i. bt_get calls i = (if i \<in> temp then bt_get (dsc_slot_calls (rv_slots R s)) i else None)"
  shows "\<exists>calls'. gather_slot_calls V C cf s rows temp calls = Inr calls' \<and> bt_wf calls'
    \<and> (\<forall>i. bt_get calls' i = (if i \<in> temp \<union> row_ids V s rows then bt_get (dsc_slot_calls (rv_slots R s)) i else None))"
  using assms(3-5)
proof (induction rows arbitrary: temp calls)
  case Nil
  then show ?case by (simp add: row_ids_def)
next
  case (Cons e rows)
  obtain k v where e: "e = (k, v)" by (cases e)
  obtain i ident where i: "call_id_ok i" "k = call_row V s i ident" using Cons.prems(1) [of k] by (auto simp: e)
  have id: "call_id_deser V (drop (length (slot_call_prefix_key s)) k) = Some ([ident], i)"
    using call_id_deser_bytes [OF V i(1), of "[ident]"]
    by (simp add: i(2) call_row_def call_field_key_def call_prefix_key_def)
  have ids: "row_ids V s (e # rows) = insert i (row_ids V s rows)"
    using i(1) by (auto simp: row_ids_def e i(2) call_row_eq [OF V _ i(1)])
  define calls1 where "calls1 = (case bt_get (dsc_slot_calls (rv_slots R s)) i of Some call \<Rightarrow> bt_insert i call calls | None \<Rightarrow> calls)"
  have step: "gather_slot_calls V C cf s (e # rows) temp calls
      = (if i \<in> temp then gather_slot_calls V C cf s rows temp calls
         else gather_slot_calls V C cf s rows (insert i temp) calls1)"
    by (simp add: e id registry_get_call_ok [OF V ok i(1)] calls1_def)
  have rows: "\<exists>i ident. call_id_ok i \<and> k = call_row V s i ident" if "k \<in> fst ` set rows" for k
    using Cons.prems(1) [of k] that by simp
  show ?case
  proof (cases "i \<in> temp")
    case True
    then show ?thesis using Cons.IH [OF rows Cons.prems(2,3)] unfolding step ids by (simp add: insert_absorb)
  next
    case False
    have wf1: "bt_wf calls1" using Cons.prems(2) by (simp add: calls1_def split: option.splits)
    have get1: "bt_get calls1 j = (if j \<in> insert i temp then bt_get (dsc_slot_calls (rv_slots R s)) j else None)" for j
      using Cons.prems(3) False by (auto simp: calls1_def bt_get_insert split: option.splits)
    have "\<exists>calls'. gather_slot_calls V C cf s rows (insert i temp) calls1 = Inr calls' \<and> bt_wf calls'
        \<and> (\<forall>j. bt_get calls' j = (if j \<in> insert i temp \<union> row_ids V s rows then bt_get (dsc_slot_calls (rv_slots R s)) j else None))"
      by (rule Cons.IH) (fact rows wf1 get1)+
    then show ?thesis using False unfolding step ids by simp
  qed
qed

lemma registry_get_slot_words:
  assumes V: "varint_ok V" and ok: "registry_db_ok V C cf R"
  shows "registry_get_slot_gas V cf s = Inr (dsc_effective_slot_gas (rv_slots R s))"
    and "registry_get_slot_base_fee V cf s = Inr (dsc_slot_base_fee (rv_slots R s))"
proof -
  have "cd_u64 V (venc V 64 (unat w)) = Some ([], w)" for w
    using canonical_deser_iff [OF codec_cd_u64 [OF V], of "venc V 64 (unat w)" "[]" w] by (simp add: varint_ser_def)
  then show "registry_get_slot_gas V cf s = Inr (dsc_effective_slot_gas (rv_slots R s))"
    using registry_db_okD(3) [OF ok, of s] by (simp add: registry_get_slot_gas_def word_row_def)
  have "cd_amount V (venc V 64 (unat w)) = Some ([], w)" for w
    using canonical_deser_iff [OF codec_cd_amount [OF V], of "venc V 64 (unat w)" "[]" w]
    by (simp add: amount_ser_def varint_ser_def)
  then show "registry_get_slot_base_fee V cf s = Inr (dsc_slot_base_fee (rv_slots R s))"
    using registry_db_okD(4) [OF ok, of s] by (simp add: registry_get_slot_base_fee_def word_row_def amount_zero_def)
qed

lemma registry_get_slot_calls_ok:
  assumes V: "varint_ok V" and ok: "registry_db_ok V C cf R"
  shows "registry_get_slot_calls V C cf s = Inr (rv_slots R s)"
proof -
  note D = registry_db_okD [OF ok]
  define rows where "rows = prefix_rows (slot_call_prefix_key s) cf"
  have slot: "dsc_slot (rv_slots R s) = s" and wf: "bt_wf (dsc_slot_calls (rv_slots R s))"
    and dom: "\<And>i c. bt_get (dsc_slot_calls (rv_slots R s)) i = Some c \<Longrightarrow> call_id_ok i \<and> call_ok C c"
    using D(2) [of s] by (auto simp: slot_calls_ok_def)
  have get: "k \<in> fst ` set rows \<longleftrightarrow> has_prefix (slot_call_prefix_key s) k \<and> bt_get cf k \<noteq> None" for k
    using bt_get_eq_None [of rows k] get_prefix_rows [OF D(1), of "slot_call_prefix_key s" k]
    by (cases "has_prefix (slot_call_prefix_key s) k") (simp_all add: rows_def)
  have "\<exists>i ident. call_id_ok i \<and> k = call_row V s i ident" if "k \<in> fst ` set rows" for k
  proof (rule slot_prefix_key)
    show pre: "has_prefix (slot_call_prefix_key s) k" using that by (simp add: get)
    then have "has_prefix DEFERRED_CALLS_PREFIX k" by (auto simp: has_prefix_iff slot_call_prefix_key_def)
    then show "registry_key V k" using that D(6) by (simp add: get)
  qed
  then obtain calls where calls: "gather_slot_calls V C cf s rows {} [] = Inr calls" "bt_wf calls"
      "\<And>i. bt_get calls i = (if i \<in> row_ids V s rows then bt_get (dsc_slot_calls (rv_slots R s)) i else None)"
    using gather_slot_calls_ok [OF V ok, of rows s "[]" "{}"] by auto
  have "i \<in> row_ids V s rows" if "bt_get (dsc_slot_calls (rv_slots R s)) i = Some c" for i c
  proof -
    have i: "call_id_ok i" "call_ok C c" using dom [OF that] by auto
    obtain v where "address_ser V (dcall_sender_address c) = Inr v"
      using canonical_ser_total [OF codec_address [OF V]] i(2) by (auto simp: call_ok_def)
    then have "bt_get cf (call_row V s i 1) \<noteq> None"
      using D(5) [OF i(1), of s 1] by (simp add: that call_row_value_def call_fields_def call_ident_defs)
    moreover have "has_prefix (slot_call_prefix_key s) (call_row V s i 1)"
      by (simp add: call_row_def call_field_key_def call_prefix_key_def)
    ultimately show ?thesis using i(1) by (auto simp: row_ids_def get)
  qed
  then have "bt_get calls i = bt_get (dsc_slot_calls (rv_slots R s)) i" for i
    by (cases "bt_get (dsc_slot_calls (rv_slots R s)) i") (auto simp: calls(3))
  then have "calls = dsc_slot_calls (rv_slots R s)" by (rule bt_eqI [OF calls(2) wf])
  then show ?thesis
    using slot calls(1) by (simp add: registry_get_slot_calls_def rows_def registry_get_slot_words [OF V ok] slot_calls_new_def)
qed

section \<open>Rows are valid\<close>

lemma slot_of_key: "buf_to_array_ctr 9 from_bytes_key (drop (length DEFERRED_CALLS_PREFIX) (DEFERRED_CALLS_PREFIX @ to_bytes_key s @ r))
    = Inr (Some (r, s))"
  by (simp add: buf_to_array_ctr_def from_to_bytes_key)

lemma slot_prefixes:
  "has_prefix (slot_total_gas_key s) (DEFERRED_CALLS_PREFIX @ to_bytes_key s @ t # r) \<longleftrightarrow> t = SLOT_TOTAL_GAS"
  "has_prefix (slot_base_fee_key s) (DEFERRED_CALLS_PREFIX @ to_bytes_key s @ t # r) \<longleftrightarrow> t = SLOT_BASE_FEE"
  "has_prefix (slot_call_prefix_key s) (DEFERRED_CALLS_PREFIX @ to_bytes_key s @ t # r) \<longleftrightarrow> t = CALLS_TAG"
  by (auto simp: has_prefix_iff slot_total_gas_key_def slot_base_fee_key_def slot_call_prefix_key_def)

lemma word_row_deser:
  assumes "varint_ok V" "word_row V w = Some v"
  shows "cd_u64 V v = Some ([], w)" "cd_amount V v = Some ([], w)"
  using assms(2) canonical_deser_iff [OF codec_cd_u64 [OF assms(1)], of v "[]" w]
    canonical_deser_iff [OF codec_cd_amount [OF assms(1)], of v "[]" w]
  by (auto simp: word_row_def amount_ser_def varint_ser_def split: if_splits)

lemma ser_accepted: "canonical_codec s d ok \<Longrightarrow> s v = Inr b \<Longrightarrow> ok v \<Longrightarrow> \<exists>r x. d b = Some (r, x)"
  using canonical_deser_iff [of s d ok b "[]" v] by simp

lemma call_field_valid_row:
  assumes "varint_ok V" "call_ok C c" "call_row_value V (Some c) ident = Some v"
  shows "call_field_valid V C ident v"
proof -
  have "ident \<in> set call_idents" using assms(3) call_row_value_outside [of ident V "Some c"] by auto
  then have "ident = 1 \<or> ident = 2 \<or> ident = 3 \<or> ident = 4 \<or> ident = 5 \<or> ident = 6 \<or> ident = 7 \<or> ident = 8 \<or> ident = 9"
    by (simp add: call_idents_def)
  moreover have "map_of (call_fields V c) ident = Some (Inr v)"
    using assms call_row_value_written [OF call_fields_written [OF assms(1,2)]] by blast
  ultimately show ?thesis using assms(2)
    by (elim disjE)
      (auto simp: call_field_valid_def call_fields_def call_ident_defs call_ok_def
        intro: call_codecs [OF assms(1), THEN ser_accepted] ser_accepted [OF bool_codec.canonical_codec_axioms])
qed

section \<open>Properties\<close>

text \<open>C29. Writing the changes of a slot to the registry never panics, touches no row outside the registry,
  and implements the abstract change: reading the calls, gas and base fee of any slot back from the
  database gives what applying the changes to the old values in memory gives, and so for the total gas.\<close>

theorem registry_refines_view:
  assumes "varint_ok V" "registry_db_ok V C (batch_apply b cf) R" "bt_wf b" "bt_wf cf" "registry_changes_ok C changes"
  shows "\<exists>b'. registry_apply_changes_to_batch V changes b = Inr b' \<and> outside_registry_same b b'
    \<and> registry_db_ok V C (batch_apply b' cf) (registry_view_apply changes R)
    \<and> (\<forall>s. registry_get_slot_calls V C (batch_apply b' cf) s = Inr (slot_calls_apply_changes changes (rv_slots R s)))
    \<and> registry_get_total_gas V (batch_apply b' cf) = Inr (sok_apply_to (rc_effective_total_gas changes) (rv_total R))"
proof -
  obtain b' where b': "registry_apply_changes_to_batch V changes b = Inr b'" "outside_registry_same b b'"
      "registry_db_ok V C (batch_apply b' cf) (registry_view_apply changes R)"
    using registry_apply_step [OF assms] unfolding registry_step_def by blast
  with registry_get_slot_calls_ok [OF assms(1) b'(3)] registry_db_okD(7) [OF b'(3)] show ?thesis
    by (simp add: registry_view_apply_def)
qed

definition example_config :: deferred_config where
  "example_config = \<lparr>dcc_thread_count = 32, dcc_max_function_name_length = 65535, dcc_max_future_slots = 1209600,
     dcc_base_fee_max_max_change_denominator = 1250, dcc_min_gas_increment = 1, dcc_min_gas_cost = 10,
     dcc_call_cst_gas_cost = 750000, dcc_global_overbooking_penalty = 1000000000,
     dcc_slot_overbooking_penalty = 100000, dcc_max_parameter_size = 10000000, dcc_max_pool_changes = 100000,
     dcc_max_gas = 1000000000, dcc_ledger_cost_per_byte = 100000\<rparr>"

definition example_call :: deferred_call where
  "example_call = \<lparr>dcall_sender_address = Address_User (replicate 32 7), dcall_target_slot = Slot 5 3,
     dcall_target_address = Address_SC (replicate 32 8), dcall_target_function = [102], dcall_parameters = [1, 2],
     dcall_coins = 100, dcall_max_gas = 1000000, dcall_fee = 25, dcall_cancelled = False\<rparr>"

definition empty_view :: registry_view where
  "empty_view = \<lparr>rv_slots = slot_calls_new, rv_total = 0\<rparr>"

lemma registry_db_ok_empty: "registry_db_ok V C [] empty_view"
  by (simp add: registry_db_ok_def empty_view_def slot_calls_ok_def slot_calls_new_def word_row_def call_row_value_def
      registry_get_total_gas_def)

lemma example_call_ok: "call_ok example_config example_call"
  by (simp add: call_ok_def example_call_def example_config_def address_ok_def HASH_SIZE_BYTES_def)

theorem registry_refines_view_witness:
  "\<exists>b'. registry_apply_changes_to_batch example_varint
        (rc_set_effective_slot_gas (Slot 5 3) 1750000 (rc_set_call [1, 2, 3] example_call registry_changes_default)) [] = Inr b'
     \<and> registry_get_slot_calls example_varint example_config (batch_apply b' []) (Slot 5 3)
       = Inr \<lparr>dsc_slot = Slot 5 3, dsc_slot_calls = [([1, 2, 3], example_call)],
              dsc_effective_slot_gas = 1750000, dsc_slot_base_fee = 0\<rparr>"
proof -
  let ?ch = "rc_set_effective_slot_gas (Slot 5 3) 1750000 (rc_set_call [1, 2, 3] example_call registry_changes_default)"
  have ch: "?ch = \<lparr>rc_slots_change = [(Slot 5 3, \<lparr>sc_calls = [([1, 2, 3], SOD_Set example_call)],
      sc_effective_slot_gas = SOK_Set 1750000, sc_base_fee = SOK_Keep\<rparr>)], rc_effective_total_gas = SOK_Keep,
      rc_exec_stats = (0, 0, 0)\<rparr>"
    by (simp add: rc_set_effective_slot_gas_def rc_set_call_def rc_entry_def registry_changes_default_def
        bt_update_or_def slot_changes_default_def sc_set_call_def sc_set_effective_slot_gas_def example_call_def)
  have "registry_changes_ok example_config ?ch"
    unfolding ch by (simp add: registry_changes_ok_def slot_changes_ok_def call_change_ok_def call_id_ok_def example_call_ok bt_wf_Cons)
  moreover have "registry_db_ok example_varint example_config (batch_apply [] []) empty_view"
    by (simp add: registry_db_ok_empty batch_apply_def)
  ultimately obtain b' where "registry_apply_changes_to_batch example_varint ?ch [] = Inr b'"
      "registry_get_slot_calls example_varint example_config (batch_apply b' []) (Slot 5 3)
        = Inr (slot_calls_apply_changes ?ch (rv_slots empty_view (Slot 5 3)))"
    using registry_refines_view [OF varint_ok_example, of example_config "[]" "[]" empty_view ?ch] by auto
  then show ?thesis
    unfolding ch by (simp add: slot_calls_apply_changes_def empty_view_def slot_calls_new_def)
qed




end
