(* ===== verification/Massa_Executed.thy ===== *)
theory Massa_Executed
  imports Massa_DB Massa_Slot
begin

text \<open>
  The registers of executed operations and executed denunciations that prevent replays:
  \<open>massa-executed-ops/src/executed_ops.rs\<close> and \<open>executed_denunciations.rs\<close>, with the denunciation
  index of \<open>massa-models/src/denunciation.rs\<close>.

  Both keep their entries in the database under a prefix and a cache sorted by slot in memory. The
  section of the database under the prefix is represented decoded, as an ordered map from ids to
  values; a database batch over it is an ordered map from ids to new values or deletions. Sets of ids
  are sorted lists without duplicates.

  Shown: what applying the changes of a slot does to the section, pruning included, so which ids
  are remembered; and that the caches updated incrementally are those recomputed from the database.
\<close>

section \<open>Sets of ids by slot\<close>

text \<open>The \<open>entry(slot).and_modify(insert).or_insert_with(singleton)\<close> idiom of both registers.\<close>

type_synonym 'id slot_index = "(slot, 'id list) btree"

definition index_add :: "slot \<Rightarrow> 'id::linorder \<Rightarrow> 'id slot_index \<Rightarrow> 'id slot_index" where
  "index_add slot op idx =
     (case bt_get idx slot of
        Some ids \<Rightarrow> bt_insert slot (insort_insert op ids) idx
      | None \<Rightarrow> bt_insert slot [op] idx)"

section \<open>Executed operations\<close>

type_synonym operation_id = bytes
type_synonym ops_section = "(operation_id, bool \<times> slot) btree"
type_synonym ops_batch = "(operation_id, (bool \<times> slot) option) btree"
type_synonym executed_ops_changes = "(operation_id, bool \<times> slot) btree"

record executed_ops =
  eo_keep_executed_history_extra_periods :: u64
  sorted_ops :: "operation_id slot_index"
  op_exec_status :: "operation_id \<rightharpoonup> bool"

definition executed_ops_new :: "u64 \<Rightarrow> executed_ops" where
  "executed_ops_new keep =
     \<lparr>eo_keep_executed_history_extra_periods = keep, sorted_ops = [], op_exec_status = Map.empty\<rparr>"

definition ops_get_exec_status :: "executed_ops \<Rightarrow> operation_id list \<Rightarrow> bool option list" where
  "ops_get_exec_status eo batch = map (op_exec_status eo) batch"

definition cache_op :: "operation_id \<Rightarrow> bool \<times> slot \<Rightarrow> executed_ops \<Rightarrow> executed_ops" where
  "cache_op op v eo =
     eo\<lparr>sorted_ops := index_add (snd v) op (sorted_ops eo),
        op_exec_status := (op_exec_status eo)(op \<mapsto> fst v)\<rparr>"

definition recompute_sorted_ops_and_op_exec_status :: "ops_section \<Rightarrow> executed_ops \<Rightarrow> executed_ops" where
  "recompute_sorted_ops_and_op_exec_status db eo =
     fold (\<lambda>(op, v). cache_op op v) db (eo\<lparr>sorted_ops := [], op_exec_status := Map.empty\<rparr>)"

definition ops_reset :: "ops_section \<Rightarrow> executed_ops \<Rightarrow> ops_section \<times> executed_ops" where
  "ops_reset db eo = ([], recompute_sorted_ops_and_op_exec_status [] eo)"

definition ops_contains :: "ops_section \<Rightarrow> operation_id \<Rightarrow> bool" where
  "ops_contains db op \<longleftrightarrow> bt_get db op \<noteq> None"

definition ops_put_entry :: "operation_id \<Rightarrow> bool \<times> slot \<Rightarrow> ops_batch \<Rightarrow> ops_batch" where
  "ops_put_entry op v batch = put_or_update_entry_value batch op v"

definition ops_delete_entry :: "operation_id \<Rightarrow> ops_batch \<Rightarrow> ops_batch" where
  "ops_delete_entry op batch = delete_key batch op"

definition ops_prune_to_batch ::
  "slot \<Rightarrow> executed_ops \<times> ops_batch \<Rightarrow> executed_ops \<times> ops_batch" where
  "ops_prune_to_batch slot = (\<lambda>(eo, batch).
     case checked_sub (period slot) (eo_keep_executed_history_extra_periods eo) of
       None \<Rightarrow> (eo, batch)
     | Some cutoff \<Rightarrow>
         let (removed, kept) = bt_split_off (Slot cutoff (thread slot)) (sorted_ops eo);
             ids = concat (map snd removed)
         in (eo\<lparr>sorted_ops := kept,
                op_exec_status := fold (\<lambda>op st. st(op := None)) ids (op_exec_status eo)\<rparr>,
             fold ops_delete_entry ids batch))"

definition ops_apply_changes_to_batch ::
  "executed_ops_changes \<Rightarrow> slot \<Rightarrow> executed_ops \<times> ops_batch \<Rightarrow> executed_ops \<times> ops_batch" where
  "ops_apply_changes_to_batch changes slot = (\<lambda>(eo, batch).
     ops_prune_to_batch slot
       (fold (\<lambda>(op, v). cache_op op v) changes eo,
        fold (\<lambda>(op, v). ops_put_entry op v) changes batch))"

section \<open>Executed denunciations\<close>

datatype denunciation_index =
    DI_BlockHeader (get_slot: slot)
  | DI_Endorsement (get_slot: slot) u32

fun get_index :: "denunciation_index \<Rightarrow> u32 option" where
  "get_index (DI_BlockHeader slot) = None"
| "get_index (DI_Endorsement slot index) = Some index"

fun denunciation_index_type_id :: "denunciation_index \<Rightarrow> u32" where
  "denunciation_index_type_id (DI_BlockHeader slot) = 0"
| "denunciation_index_type_id (DI_Endorsement slot index) = 1"

definition denunciation_key :: "denunciation_index \<Rightarrow> slot \<times> u32 \<times> u32" where
  "denunciation_key d =
     (get_slot d, case get_index d of Some i \<Rightarrow> i | None \<Rightarrow> 0, denunciation_index_type_id d)"

definition key_less :: "slot \<times> u32 \<times> u32 \<Rightarrow> slot \<times> u32 \<times> u32 \<Rightarrow> bool" where
  "key_less = (\<lambda>(a, b, c) (a', b', c'). a < a' \<or> a = a' \<and> (b < b' \<or> b = b' \<and> c < c'))"

lemma denunciation_key_inj: "denunciation_key d = denunciation_key d' \<longleftrightarrow> d = d'"
  by (cases d; cases d') (auto simp: denunciation_key_def)

instantiation denunciation_index :: linorder
begin

definition less_denunciation_index :: "denunciation_index \<Rightarrow> denunciation_index \<Rightarrow> bool" where
  "less_denunciation_index d d' \<longleftrightarrow> key_less (denunciation_key d) (denunciation_key d')"

definition less_eq_denunciation_index :: "denunciation_index \<Rightarrow> denunciation_index \<Rightarrow> bool" where
  "less_eq_denunciation_index d d' \<longleftrightarrow> d = d' \<or> key_less (denunciation_key d) (denunciation_key d')"

instance
proof
  fix x y z :: denunciation_index
  show "x < y \<longleftrightarrow> x \<le> y \<and> \<not> y \<le> x" "x \<le> x" "x \<le> y \<Longrightarrow> y \<le> z \<Longrightarrow> x \<le> z"
    by (auto simp: less_denunciation_index_def less_eq_denunciation_index_def key_less_def
        split: prod.splits)
  show "x \<le> y \<Longrightarrow> y \<le> x \<Longrightarrow> x = y"
    by (auto simp: less_eq_denunciation_index_def key_less_def split: prod.splits)
  show "x \<le> y \<or> y \<le> x"
    using denunciation_key_inj [of x y]
    by (auto simp: less_eq_denunciation_index_def key_less_def split: prod.splits)
qed

end

definition is_expired :: "u64 \<Rightarrow> u64 \<Rightarrow> u64 \<Rightarrow> bool" where
  "is_expired denunciation_slot_period slot_period denunciation_expire_periods \<longleftrightarrow>
     (case checked_sub slot_period denunciation_slot_period of
        None \<Rightarrow> False
      | Some d \<Rightarrow> denunciation_expire_periods < d)"

type_synonym denunciations_section = "(denunciation_index, bytes) btree"
type_synonym denunciations_batch = "(denunciation_index, bytes option) btree"
type_synonym executed_denunciations_changes = "denunciation_index list"

record executed_denunciations =
  denunciation_expire_periods :: u64
  ed_keep_executed_history_extra_periods :: u64
  sorted_denunciations :: "denunciation_index slot_index"

definition recompute_sorted_denunciations ::
  "denunciations_section \<Rightarrow> executed_denunciations \<Rightarrow> executed_denunciations" where
  "recompute_sorted_denunciations db ed =
     ed\<lparr>sorted_denunciations := fold (\<lambda>(d, v). index_add (get_slot d) d) db []\<rparr>"

definition denunciations_reset ::
  "denunciations_section \<Rightarrow> executed_denunciations \<Rightarrow> denunciations_section \<times> executed_denunciations" where
  "denunciations_reset db ed = ([], recompute_sorted_denunciations [] ed)"

definition denunciations_contains :: "denunciations_section \<Rightarrow> denunciation_index \<Rightarrow> bool" where
  "denunciations_contains db d \<longleftrightarrow> bt_get db d \<noteq> None"

definition denunciations_put_entry :: "denunciation_index \<Rightarrow> denunciations_batch \<Rightarrow> denunciations_batch" where
  "denunciations_put_entry d batch = put_or_update_entry_value batch d []"

definition denunciations_delete_entry :: "denunciation_index \<Rightarrow> denunciations_batch \<Rightarrow> denunciations_batch" where
  "denunciations_delete_entry d batch = delete_key batch d"

definition denunciations_prune_to_batch ::
  "slot \<Rightarrow> executed_denunciations \<times> denunciations_batch \<Rightarrow> executed_denunciations \<times> denunciations_batch" where
  "denunciations_prune_to_batch slot = (\<lambda>(ed, batch).
     let effective_expiry_periods =
           saturating_add (denunciation_expire_periods ed) (ed_keep_executed_history_extra_periods ed);
         expired = (\<lambda>s. is_expired (period s) (period slot) effective_expiry_periods);
         drained = concat (map snd (filter (\<lambda>(s, ids). expired s) (sorted_denunciations ed)))
     in (ed\<lparr>sorted_denunciations := bt_retain (\<lambda>s ids. \<not> expired s) (sorted_denunciations ed)\<rparr>,
         fold denunciations_delete_entry drained batch))"

definition denunciations_apply_changes_to_batch ::
  "executed_denunciations_changes \<Rightarrow> slot \<Rightarrow> executed_denunciations \<times> denunciations_batch
   \<Rightarrow> executed_denunciations \<times> denunciations_batch" where
  "denunciations_apply_changes_to_batch changes slot = (\<lambda>(ed, batch).
     denunciations_prune_to_batch slot
       (ed\<lparr>sorted_denunciations :=
             fold (\<lambda>d. index_add (get_slot d) d) changes (sorted_denunciations ed)\<rparr>,
        fold denunciations_put_entry changes batch))"

section \<open>The index of a section\<close>

text \<open>An index is right for a map from ids to slots when it lists, at every slot, the ids of that slot.\<close>

definition index_ok :: "('i::linorder \<rightharpoonup> slot) \<Rightarrow> 'i slot_index \<Rightarrow> bool" where
  "index_ok S idx \<longleftrightarrow> bt_wf idx \<and>
     (\<forall>s. case bt_get idx s of
        None \<Rightarrow> {i. S i = Some s} = {}
      | Some ids \<Rightarrow> ids \<noteq> [] \<and> sorted_wrt (<) ids \<and> set ids = {i. S i = Some s})"

lemma index_okD:
  assumes "index_ok S idx"
  shows "bt_wf idx"
    and "bt_get idx s = Some ids \<Longrightarrow> ids \<noteq> [] \<and> sorted_wrt (<) ids \<and> set ids = {i. S i = Some s}"
    and "bt_get idx s = None \<Longrightarrow> {i. S i = Some s} = {}"
proof -
  show "bt_wf idx" using assms by (simp add: index_ok_def)
  have "case bt_get idx s of None \<Rightarrow> {i. S i = Some s} = {}
      | Some ids \<Rightarrow> ids \<noteq> [] \<and> sorted_wrt (<) ids \<and> set ids = {i. S i = Some s}"
    using assms by (simp add: index_ok_def)
  then show "bt_get idx s = Some ids \<Longrightarrow> ids \<noteq> [] \<and> sorted_wrt (<) ids \<and> set ids = {i. S i = Some s}"
    and "bt_get idx s = None \<Longrightarrow> {i. S i = Some s} = {}"
    by auto
qed

lemma index_okI:
  assumes "bt_wf idx"
    and "\<And>s ids. bt_get idx s = Some ids \<Longrightarrow> ids \<noteq> [] \<and> sorted_wrt (<) ids \<and> set ids = {i. S i = Some s}"
    and "\<And>s. bt_get idx s = None \<Longrightarrow> {i. S i = Some s} = {}"
  shows "index_ok S idx"
  using assms by (simp add: index_ok_def split: option.splits)

lemma index_ok_unique:
  assumes "index_ok S idx" "index_ok S idx'"
  shows "idx = idx'"
proof (rule bt_eqI)
  note D = index_okD [OF assms(1)] and D' = index_okD [OF assms(2)]
  show "bt_wf idx" "bt_wf idx'" by (rule D(1), rule D'(1))
  fix s
  show "bt_get idx s = bt_get idx' s"
  proof (cases "bt_get idx s")
    case None
    with D(3) [of s] D'(2) [of s] show ?thesis by (cases "bt_get idx' s") auto
  next
    case (Some ids)
    show ?thesis
    proof (cases "bt_get idx' s")
      case None
      with D'(3) [of s] D(2) [OF Some] show ?thesis by auto
    next
      case (Some ids')
      with D'(2) [OF Some] D(2) [OF \<open>bt_get idx s = Some ids\<close>] have "ids = ids'"
        by (intro strict_sorted_equal) simp_all
      with Some \<open>bt_get idx s = Some ids\<close> show ?thesis by simp
    qed
  qed
qed

lemma index_ok_empty: "index_ok Map.empty []"
  by (simp add: index_ok_def)

lemma strict_sorted_insort_insert: "sorted_wrt (<) ids \<Longrightarrow> sorted_wrt (<) (insort_insert x ids)"
  by (simp add: strict_sorted_iff sorted_insort_insert distinct_insort_insert)

text \<open>Adding an id that is new, or already has this slot.\<close>

lemma index_ok_add:
  assumes ok: "index_ok S idx" and same: "S op = None \<or> S op = Some s"
  shows "index_ok (S(op \<mapsto> s)) (index_add s op idx)"
proof -
  note D = index_okD [OF ok]
  have other: "{i. (S(op \<mapsto> s)) i = Some s'} = {i. S i = Some s'}" if "s' \<noteq> s" for s'
    using same that by auto
  have this_s: "{i. (S(op \<mapsto> s)) i = Some s} = insert op {i. S i = Some s}" by auto
  have get: "bt_get (index_add s op idx) s' = (if s' = s
      then Some (case bt_get idx s of Some ids \<Rightarrow> insort_insert op ids | None \<Rightarrow> [op]) else bt_get idx s')" for s'
    by (simp add: index_add_def bt_get_insert split: option.splits)
  show ?thesis
  proof (rule index_okI)
    show "bt_wf (index_add s op idx)" using D(1) by (simp add: index_add_def split: option.splits)
    fix s' ids
    assume g: "bt_get (index_add s op idx) s' = Some ids"
    show "ids \<noteq> [] \<and> sorted_wrt (<) ids \<and> set ids = {i. (S(op \<mapsto> s)) i = Some s'}"
    proof (cases "s' = s")
      case True
      have ids: "ids = (case bt_get idx s of Some ids \<Rightarrow> insort_insert op ids | None \<Rightarrow> [op])"
        using g True by (simp add: get)
      have "sorted_wrt (<) ids \<and> set ids = insert op {i. S i = Some s}"
      proof (cases "bt_get idx s")
        case None
        with ids D(3) [of s] show ?thesis by simp
      next
        case (Some ids')
        with ids D(2) [OF Some] show ?thesis
          by (simp add: strict_sorted_insort_insert set_insort_insert)
      qed
      with True this_s show ?thesis by auto
    next
      case False
      with g D(2) [of s' ids] other [OF False] show ?thesis by (simp add: get)
    qed
  next
    fix s'
    assume "bt_get (index_add s op idx) s' = None"
    then have "s' \<noteq> s" "bt_get idx s' = None" by (auto simp: get split: if_splits)
    with D(3) [of s'] other show "{i. (S(op \<mapsto> s)) i = Some s'} = {}" by simp
  qed
qed

lemma index_ok_fold_add:
  "index_ok S idx \<Longrightarrow> distinct (map fst xs) \<Longrightarrow> \<forall>(op, s) \<in> set xs. S op = None \<or> S op = Some s
     \<Longrightarrow> index_ok (S ++ map_of xs) (fold (\<lambda>(op, s). index_add s op) xs idx)"
proof (induction xs arbitrary: S idx)
  case (Cons e xs)
  obtain op s where e: "e = (op, s)" by (cases e)
  have add: "index_ok (S(op \<mapsto> s)) (index_add s op idx)"
    using Cons.prems by (intro index_ok_add) (auto simp: e)
  have side: "\<forall>(op', s') \<in> set xs. (S(op \<mapsto> s)) op' = None \<or> (S(op \<mapsto> s)) op' = Some s'"
  proof (clarify)
    fix op' s'
    assume "(op', s') \<in> set xs" "(S(op \<mapsto> s)) op' \<noteq> Some s'"
    moreover from this have "op' \<noteq> op" using Cons.prems(2) by (auto simp: e rev_image_eqI)
    ultimately show "(S(op \<mapsto> s)) op' = None" using Cons.prems(3) by (auto simp: e)
  qed
  have "index_ok (S(op \<mapsto> s) ++ map_of xs) (fold (\<lambda>(op, s). index_add s op) xs (index_add s op idx))"
    by (rule Cons.IH [OF add _ side]) (use Cons.prems(2) in simp)
  moreover have "S(op \<mapsto> s) ++ map_of xs = S ++ map_of (e # xs)"
    using Cons.prems(2) by (simp add: e map_add_upd_left dom_map_of_conv_image_fst)
  moreover have "fold (\<lambda>(op, s). index_add s op) (e # xs) idx
      = fold (\<lambda>(op, s). index_add s op) xs (index_add s op idx)" by (simp add: e)
  ultimately show ?case by (simp only:)
qed simp

lemma index_ok_retain:
  assumes "index_ok S idx"
  shows "index_ok (\<lambda>i. case S i of Some s \<Rightarrow> if P s then Some s else None | None \<Rightarrow> None)
    (bt_retain (\<lambda>s ids. P s) idx)"
proof -
  have "{i. (case S i of Some s \<Rightarrow> if P s then Some s else None | None \<Rightarrow> None) = Some s}
      = (if P s then {i. S i = Some s} else {})" for s
    by (auto split: option.splits if_splits)
  then show ?thesis
    using index_okD [OF assms]
    by (intro index_okI) (auto simp: bt_get_retain split: option.splits if_splits)
qed

lemma index_ok_members:
  assumes "index_ok S idx"
  shows "i \<in> set (concat (map snd (filter (\<lambda>(s, ids). P s) idx))) \<longleftrightarrow> (\<exists>s. S i = Some s \<and> P s)"
proof
  note D = index_okD [OF assms]
  show "\<exists>s. S i = Some s \<and> P s" if "i \<in> set (concat (map snd (filter (\<lambda>(s, ids). P s) idx)))"
  proof -
    from that obtain s ids where "(s, ids) \<in> set idx" "P s" "i \<in> set ids" by auto
    moreover from this have "bt_get idx s = Some ids" using bt_get_eq_Some [OF D(1)] by simp
    ultimately show ?thesis using D(2) by blast
  qed
  show "i \<in> set (concat (map snd (filter (\<lambda>(s, ids). P s) idx)))" if S: "\<exists>s. S i = Some s \<and> P s"
  proof -
    from S obtain s where s: "S i = Some s" "P s" by blast
    then obtain ids where ids: "bt_get idx s = Some ids" using D(3) [of s] by (cases "bt_get idx s") auto
    then have "(s, ids) \<in> set idx" "i \<in> set ids"
      using bt_get_eq_Some [OF D(1)] D(2) [OF ids] s by auto
    with s show ?thesis by auto
  qed
qed

section \<open>Executed operations: caches and content\<close>

definition op_slots :: "ops_section \<Rightarrow> operation_id \<rightharpoonup> slot" where
  "op_slots db i = map_option snd (bt_get db i)"

definition ops_cache_ok :: "ops_section \<Rightarrow> executed_ops \<Rightarrow> bool" where
  "ops_cache_ok db eo \<longleftrightarrow> bt_wf db \<and> index_ok (op_slots db) (sorted_ops eo)
     \<and> op_exec_status eo = (\<lambda>i. map_option fst (bt_get db i))"

text \<open>An operation expires at one slot: executing it again cannot record another one.\<close>

definition same_expiry :: "executed_ops_changes \<Rightarrow> ops_section \<Rightarrow> bool" where
  "same_expiry changes db \<longleftrightarrow>
     (\<forall>(i, b, s) \<in> set changes. op_slots db i = None \<or> op_slots db i = Some s)"

definition ops_expired :: "executed_ops \<Rightarrow> slot \<Rightarrow> slot \<Rightarrow> bool" where
  "ops_expired eo slot s \<longleftrightarrow>
     (case checked_sub (period slot) (eo_keep_executed_history_extra_periods eo) of
        None \<Rightarrow> False
      | Some cutoff \<Rightarrow> s < Slot cutoff (thread slot))"

lemma fold_cache_op:
  "fold (\<lambda>(op, v). cache_op op v) xs eo =
     eo\<lparr>sorted_ops := fold (\<lambda>(op, s). index_add s op) (map (\<lambda>(op, v). (op, snd v)) xs) (sorted_ops eo),
        op_exec_status := op_exec_status eo ++ map_of (rev (map (\<lambda>(op, v). (op, fst v)) xs))\<rparr>"
proof (induction xs arbitrary: eo)
  case (Cons e xs)
  obtain op v where e: "e = (op, v)" by (cases e)
  have "op_exec_status eo ++ map_of (rev (map (\<lambda>(op, v). (op, fst v)) (e # xs)))
      = (op_exec_status eo)(op \<mapsto> fst v) ++ map_of (rev (map (\<lambda>(op, v). (op, fst v)) xs))"
    by (simp add: e)
  with Cons show ?case by (simp add: e cache_op_def fun_upd_def)
qed simp

lemma map_of_map_snd: "map_of (map (\<lambda>(k, v). (k, f v)) xs) k = map_option f (map_of xs k)"
  by (induction xs) auto

lemma map_fst_map_snd: "map fst (map (\<lambda>(k, v). (k, f v)) xs) = map fst xs"
  by (induction xs) auto

lemma fold_ops_put_entry:
  "bt_get (fold (\<lambda>(op, v). ops_put_entry op v) xs b) k
     = (case map_of (rev xs) k of Some v \<Rightarrow> Some (Some v) | None \<Rightarrow> bt_get b k)"
  by (induction xs arbitrary: b)
    (auto simp: ops_put_entry_def put_or_update_entry_value_def bt_get_insert map_add_def split: option.splits)

lemma bt_wf_fold_ops_put_entry: "bt_wf b \<Longrightarrow> bt_wf (fold (\<lambda>(op, v). ops_put_entry op v) xs b)"
  by (induction xs arbitrary: b) (auto simp: ops_put_entry_def put_or_update_entry_value_def)

lemma fold_unset: "fold (\<lambda>op st. st(op := None)) ids st = (\<lambda>i. if i \<in> set ids then None else st i)"
  by (induction ids arbitrary: st) auto

text \<open>What the changes of a slot make of the section.\<close>

definition ops_after :: "executed_ops_changes \<Rightarrow> slot \<Rightarrow> executed_ops \<Rightarrow> ops_section
   \<Rightarrow> operation_id \<rightharpoonup> bool \<times> slot" where
  "ops_after changes slot eo db i =
     (case bt_get changes i of
        Some v \<Rightarrow> if ops_expired eo slot (snd v) then None else Some v
      | None \<Rightarrow> (case bt_get db i of
                 Some v \<Rightarrow> if ops_expired eo slot (snd v) then None else Some v
               | None \<Rightarrow> None))"

definition ops_merged :: "executed_ops_changes \<Rightarrow> ops_section \<Rightarrow> operation_id \<rightharpoonup> bool \<times> slot" where
  "ops_merged changes db i = (case bt_get changes i of Some v \<Rightarrow> Some v | None \<Rightarrow> bt_get db i)"

lemma ops_after_alt:
  "ops_after changes slot eo db i
     = (case ops_merged changes db i of
          Some v \<Rightarrow> if ops_expired eo slot (snd v) then None else Some v | None \<Rightarrow> None)"
  by (simp add: ops_after_def ops_merged_def split: option.splits)

lemma cached_ops_merged:
  assumes ok: "ops_cache_ok db eo" and wf: "bt_wf changes" and same: "same_expiry changes db"
  defines "eo1 \<equiv> fold (\<lambda>(op, v). cache_op op v) changes eo"
  shows "index_ok (\<lambda>i. map_option snd (ops_merged changes db i)) (sorted_ops eo1)"
    and "op_exec_status eo1 = (\<lambda>i. map_option fst (ops_merged changes db i))"
    and "eo_keep_executed_history_extra_periods eo1 = eo_keep_executed_history_extra_periods eo"
proof -
  let ?xs = "map (\<lambda>(op, v). (op, snd v)) changes"
  have dist: "distinct (map fst ?xs)" using bt_wf_distinct [OF wf] by (simp only: map_fst_map_snd)
  have "index_ok (op_slots db ++ map_of ?xs) (fold (\<lambda>(op, s). index_add s op) ?xs (sorted_ops eo))"
    using ok same
    by (intro index_ok_fold_add dist) (auto simp: ops_cache_ok_def same_expiry_def)
  moreover have "op_slots db ++ map_of ?xs = (\<lambda>i. map_option snd (ops_merged changes db i))"
    by (rule ext) (simp add: map_add_def map_of_map_snd ops_merged_def op_slots_def bt_get_def [of changes]
        split: option.splits)
  ultimately show "index_ok (\<lambda>i. map_option snd (ops_merged changes db i)) (sorted_ops eo1)"
    by (simp add: eo1_def fold_cache_op)
  have "map_of (rev (map (\<lambda>(op, v). (op, fst v)) changes)) = map_of (map (\<lambda>(op, v). (op, fst v)) changes)"
    using bt_wf_distinct [OF wf] by (intro map_of_rev_distinct) (simp only: map_fst_map_snd)
  then show "op_exec_status eo1 = (\<lambda>i. map_option fst (ops_merged changes db i))"
    using ok by (simp add: eo1_def fold_cache_op ops_cache_ok_def fun_eq_iff map_add_def map_of_map_snd
        ops_merged_def bt_get_def [of changes] split: option.splits)
  show "eo_keep_executed_history_extra_periods eo1 = eo_keep_executed_history_extra_periods eo"
    by (simp add: eo1_def fold_cache_op)
qed

lemma ops_delete_entry_alt: "ops_delete_entry = (\<lambda>k b. delete_key b k)"
  by (simp add: fun_eq_iff ops_delete_entry_def)

lemma ops_prune_eq:
  fixes eo :: executed_ops and batch :: ops_batch and slot :: slot
  defines "ids \<equiv> concat (map snd (filter (\<lambda>(s, ids). ops_expired eo slot s) (sorted_ops eo)))"
  shows "ops_prune_to_batch slot (eo, batch) =
    (eo\<lparr>sorted_ops := bt_retain (\<lambda>s ids. \<not> ops_expired eo slot s) (sorted_ops eo),
        op_exec_status := (\<lambda>i. if i \<in> set ids then None else op_exec_status eo i)\<rparr>,
     fold (\<lambda>k b. delete_key b k) ids batch)"
proof (cases "checked_sub (period slot) (eo_keep_executed_history_extra_periods eo)")
  case None
  then have "ops_expired eo slot = (\<lambda>s. False)" by (simp add: ops_expired_def fun_eq_iff)
  with None show ?thesis by (simp add: ops_prune_to_batch_def ids_def bt_retain_def)
next
  case (Some cutoff)
  then have "ops_expired eo slot = (\<lambda>s. s < Slot cutoff (thread slot))"
    by (simp add: ops_expired_def fun_eq_iff)
  with Some show ?thesis
    by (auto simp: ops_prune_to_batch_def ids_def bt_split_off_def bt_retain_def fold_unset
        ops_delete_entry_alt not_less)
qed

lemma ops_apply_changes_correct:
  assumes ok: "ops_cache_ok db eo" and wf: "bt_wf changes" and same: "same_expiry changes db"
    and app: "ops_apply_changes_to_batch changes slot (eo, []) = (eo', batch)"
  shows "bt_get (batch_apply batch db) i = ops_after changes slot eo db i"
    and "ops_cache_ok (batch_apply batch db) eo'"
proof -
  define eo1 where "eo1 = fold (\<lambda>(op, v). cache_op op v) changes eo"
  define b1 where "b1 = fold (\<lambda>(op, v). ops_put_entry op v) changes []"
  note m = cached_ops_merged [OF ok wf same, folded eo1_def]
  have b1: "bt_get b1 i = map_option Some (bt_get changes i)" for i
    by (simp add: b1_def fold_ops_put_entry map_of_rev_distinct [OF bt_wf_distinct [OF wf]] bt_get_def [of changes]
        split: option.splits)
  define E where "E = ops_expired eo slot"
  have E1: "ops_expired eo1 slot = E" by (simp add: E_def ops_expired_def m(3) fun_eq_iff)
  define ids where "ids = concat (map snd (filter (\<lambda>(s, ids). E s) (sorted_ops eo1)))"
  have ids: "i \<in> set ids \<longleftrightarrow> (\<exists>v. ops_merged changes db i = Some v \<and> E (snd v))" for i
    unfolding ids_def index_ok_members [OF m(1)] by auto
  have "ops_prune_to_batch slot (eo1, b1) = (eo', batch)"
    using app by (simp add: ops_apply_changes_to_batch_def eo1_def b1_def)
  then have eo': "eo' = eo1\<lparr>sorted_ops := bt_retain (\<lambda>s ids. \<not> E s) (sorted_ops eo1),
        op_exec_status := (\<lambda>i. if i \<in> set ids then None else op_exec_status eo1 i)\<rparr>"
    and batch: "batch = fold (\<lambda>k b. delete_key b k) ids b1"
    unfolding ops_prune_eq E1 ids_def [symmetric] by simp_all
  have wfb: "bt_wf batch" by (simp add: batch b1_def bt_wf_delete_keys bt_wf_fold_ops_put_entry)
  have get: "bt_get (batch_apply batch db) i = ops_after changes slot eo db i" for i
    unfolding bt_get_batch_apply [OF wfb] unfolding batch
    by (auto simp: bt_get_delete_keys b1 ids ops_after_alt E_def ops_merged_def split: option.splits)
  then show "bt_get (batch_apply batch db) i = ops_after changes slot eo db i" .
  have "index_ok (\<lambda>i. case map_option snd (ops_merged changes db i) of
      Some s \<Rightarrow> if \<not> E s then Some s else None | None \<Rightarrow> None) (sorted_ops eo')"
    using index_ok_retain [OF m(1), of "\<lambda>s. \<not> E s"] by (simp add: eo')
  moreover have "(\<lambda>i. case map_option snd (ops_merged changes db i) of
      Some s \<Rightarrow> if \<not> E s then Some s else None | None \<Rightarrow> None) = op_slots (batch_apply batch db)"
    by (rule ext) (auto simp: op_slots_def get ops_after_alt E_def split: option.splits)
  moreover have "op_exec_status eo' = (\<lambda>i. map_option fst (bt_get (batch_apply batch db) i))"
    by (rule ext) (auto simp: eo' m(2) ids get ops_after_alt E_def split: option.splits)
  ultimately show "ops_cache_ok (batch_apply batch db) eo'"
    using ok by (simp add: ops_cache_ok_def)
qed

lemma ops_recompute_ok: "bt_wf db \<Longrightarrow> ops_cache_ok db (recompute_sorted_ops_and_op_exec_status db eo)"
proof -
  assume wf: "bt_wf db"
  let ?eo = "eo\<lparr>sorted_ops := [], op_exec_status := Map.empty\<rparr>"
  have "ops_cache_ok [] ?eo"
    by (simp add: ops_cache_ok_def op_slots_def index_ok_def)
  note m = cached_ops_merged [OF this wf, unfolded same_expiry_def]
  have "ops_merged db [] = bt_get db" by (simp add: ops_merged_def fun_eq_iff split: option.splits)
  with m wf show ?thesis
    by (simp add: recompute_sorted_ops_and_op_exec_status_def ops_cache_ok_def op_slots_def [abs_def])
qed

lemma ops_recompute_keep:
  "eo_keep_executed_history_extra_periods (recompute_sorted_ops_and_op_exec_status db eo)
     = eo_keep_executed_history_extra_periods eo"
  by (simp add: recompute_sorted_ops_and_op_exec_status_def fold_cache_op)

section \<open>Executed denunciations: cache and content\<close>

definition de_slots :: "denunciations_section \<Rightarrow> denunciation_index \<rightharpoonup> slot" where
  "de_slots db d = (case bt_get db d of Some v \<Rightarrow> Some (get_slot d) | None \<Rightarrow> None)"

definition de_cache_ok :: "denunciations_section \<Rightarrow> executed_denunciations \<Rightarrow> bool" where
  "de_cache_ok db ed \<longleftrightarrow> bt_wf db \<and> index_ok (de_slots db) (sorted_denunciations ed)"

definition de_expired :: "executed_denunciations \<Rightarrow> slot \<Rightarrow> slot \<Rightarrow> bool" where
  "de_expired ed slot s \<longleftrightarrow> is_expired (period s) (period slot)
     (saturating_add (denunciation_expire_periods ed) (ed_keep_executed_history_extra_periods ed))"

definition de_after :: "executed_denunciations_changes \<Rightarrow> slot \<Rightarrow> executed_denunciations
   \<Rightarrow> denunciations_section \<Rightarrow> denunciation_index \<rightharpoonup> bytes" where
  "de_after changes slot ed db d =
     (if de_expired ed slot (get_slot d) then None
      else if d \<in> set changes then Some [] else bt_get db d)"

lemma fold_index_add_slots:
  "fold (\<lambda>d. index_add (get_slot d) d) ds idx
     = fold (\<lambda>(d, s). index_add s d) (map (\<lambda>d. (d, get_slot d)) ds) idx"
  by (induction ds arbitrary: idx) auto

lemma map_of_graph: "map_of (map (\<lambda>d. (d, f d)) ds) d = (if d \<in> set ds then Some (f d) else None)"
  by (induction ds) auto

lemma index_ok_denunciations:
  assumes "index_ok S idx" "distinct ds" "\<And>d. S d = None \<or> S d = Some (get_slot d)"
  shows "index_ok (\<lambda>d. if d \<in> set ds then Some (get_slot d) else S d)
    (fold (\<lambda>d. index_add (get_slot d) d) ds idx)"
proof -
  have "index_ok (S ++ map_of (map (\<lambda>d. (d, get_slot d)) ds))
      (fold (\<lambda>(d, s). index_add s d) (map (\<lambda>d. (d, get_slot d)) ds) idx)"
    using assms by (intro index_ok_fold_add) (auto simp: comp_def)
  moreover have "S ++ map_of (map (\<lambda>d. (d, get_slot d)) ds) = (\<lambda>d. if d \<in> set ds then Some (get_slot d) else S d)"
    by (rule ext) (simp add: map_add_def map_of_graph)
  ultimately show ?thesis by (simp only: fold_index_add_slots)
qed

lemma fold_denunciations_put_entry:
  "bt_get (fold denunciations_put_entry ds b) d = (if d \<in> set ds then Some (Some []) else bt_get b d)"
  "bt_wf b \<Longrightarrow> bt_wf (fold denunciations_put_entry ds b)"
  by (induction ds arbitrary: b)
    (auto simp: denunciations_put_entry_def put_or_update_entry_value_def bt_get_insert)

lemma denunciations_delete_entry_alt: "denunciations_delete_entry = (\<lambda>k b. delete_key b k)"
  by (simp add: fun_eq_iff denunciations_delete_entry_def)

lemma denunciations_apply_changes_correct:
  assumes ok: "de_cache_ok db ed" and dist: "distinct changes"
    and app: "denunciations_apply_changes_to_batch changes slot (ed, []) = (ed', batch)"
  shows "bt_get (batch_apply batch db) d = (if de_slots (batch_apply batch db) d = None then None
      else de_after changes slot ed db d)"
    and "d \<in> set changes \<or> bt_get db d \<noteq> None \<Longrightarrow> bt_get (batch_apply batch db) d = de_after changes slot ed db d"
    and "de_cache_ok (batch_apply batch db) ed'"
proof -
  define idx where "idx = fold (\<lambda>d. index_add (get_slot d) d) changes (sorted_denunciations ed)"
  define b1 where "b1 = fold denunciations_put_entry changes []"
  define E where "E = de_expired ed slot"
  define S where "S d = (if d \<in> set changes then Some (get_slot d) else de_slots db d)" for d
  have S: "S = (\<lambda>d. if d \<in> set changes then Some (get_slot d) else de_slots db d)"
    by (simp add: S_def fun_eq_iff)
  have idx: "index_ok S idx"
    unfolding idx_def S
  proof (rule index_ok_denunciations [OF _ dist])
    show "index_ok (de_slots db) (sorted_denunciations ed)" using ok by (simp add: de_cache_ok_def)
    show "de_slots db d = None \<or> de_slots db d = Some (get_slot d)" for d
      by (simp add: de_slots_def split: option.splits)
  qed
  define ids where "ids = concat (map snd (filter (\<lambda>(s, ids). E s) idx))"
  have ids: "d \<in> set ids \<longleftrightarrow> S d \<noteq> None \<and> E (get_slot d)" for d
    unfolding ids_def index_ok_members [OF idx]
    by (auto simp: S_def de_slots_def split: option.splits)
  have ed': "ed' = ed\<lparr>sorted_denunciations := bt_retain (\<lambda>s ids. \<not> E s) idx\<rparr>"
    and batch: "batch = fold (\<lambda>k b. delete_key b k) ids b1"
    using app by (simp_all add: denunciations_apply_changes_to_batch_def denunciations_prune_to_batch_def
        Let_def idx_def b1_def ids_def E_def de_expired_def denunciations_delete_entry_alt)
  have wfb: "bt_wf batch" by (simp add: batch b1_def bt_wf_delete_keys fold_denunciations_put_entry)
  have get: "bt_get (batch_apply batch db) d = (if S d = None then None else de_after changes slot ed db d)" for d
    unfolding bt_get_batch_apply [OF wfb] unfolding batch
    by (auto simp: bt_get_delete_keys b1_def fold_denunciations_put_entry ids de_after_def E_def S_def de_slots_def
        split: option.splits)
  have slots: "de_slots (batch_apply batch db) = (\<lambda>d. case S d of Some s \<Rightarrow> if \<not> E s then Some s else None | None \<Rightarrow> None)"
    by (rule ext) (auto simp: de_slots_def get de_after_def E_def S_def split: option.splits)
  show "bt_get (batch_apply batch db) d = (if de_slots (batch_apply batch db) d = None then None
      else de_after changes slot ed db d)"
    by (auto simp: de_slots_def get split: option.splits)
  show "d \<in> set changes \<or> bt_get db d \<noteq> None \<Longrightarrow> bt_get (batch_apply batch db) d = de_after changes slot ed db d"
    by (auto simp: get S_def de_slots_def split: option.splits)
  show "de_cache_ok (batch_apply batch db) ed'"
    using ok index_ok_retain [OF idx, of "\<lambda>s. \<not> E s"] by (simp add: de_cache_ok_def ed' slots)
qed

lemma denunciations_recompute_ok:
  assumes "bt_wf db"
  shows "de_cache_ok db (recompute_sorted_denunciations db ed)"
proof -
  have "fold (\<lambda>(d, v). index_add (get_slot d) d) db [] = fold (\<lambda>d. index_add (get_slot d) d) (map fst db) []"
    by (simp add: fold_map case_prod_unfold comp_def)
  moreover have "(\<lambda>d. if d \<in> set (map fst db) then Some (get_slot d) else Map.empty d) = de_slots db"
  proof (rule ext)
    show "(if d \<in> set (map fst db) then Some (get_slot d) else Map.empty d) = de_slots db d" for d
      using bt_get_eq_None [of db d] by (cases "bt_get db d") (simp_all add: de_slots_def)
  qed
  moreover have "index_ok (\<lambda>d. if d \<in> set (map fst db) then Some (get_slot d) else Map.empty d)
      (fold (\<lambda>d. index_add (get_slot d) d) (map fst db) [])"
    by (intro index_ok_denunciations index_ok_empty bt_wf_distinct [OF assms]) simp
  ultimately show ?thesis
    using assms by (simp add: de_cache_ok_def recompute_sorted_denunciations_def)
qed

section \<open>Properties\<close>

text \<open>The slots of a run: the changes of each are applied and the batch is written to the database.\<close>

fun ops_run :: "(executed_ops_changes \<times> slot) list \<Rightarrow> ops_section \<times> executed_ops \<Rightarrow> ops_section \<times> executed_ops" where
  "ops_run [] st = st"
| "ops_run ((changes, slot) # rest) (db, eo) =
     (case ops_apply_changes_to_batch changes slot (eo, []) of
        (eo', batch) \<Rightarrow> ops_run rest (batch_apply batch db, eo'))"

fun ops_run_valid :: "(executed_ops_changes \<times> slot) list \<Rightarrow> ops_section \<times> executed_ops \<Rightarrow> bool" where
  "ops_run_valid [] st = True"
| "ops_run_valid ((changes, slot) # rest) (db, eo) =
     (bt_wf changes \<and> same_expiry changes db
      \<and> (case ops_apply_changes_to_batch changes slot (eo, []) of
           (eo', batch) \<Rightarrow> ops_run_valid rest (batch_apply batch db, eo')))"

lemma ops_apply_keep:
  "ops_apply_changes_to_batch changes slot (eo, b) = (eo', batch)
     \<Longrightarrow> eo_keep_executed_history_extra_periods eo' = eo_keep_executed_history_extra_periods eo"
  by (auto simp: ops_apply_changes_to_batch_def ops_prune_eq fold_cache_op)

lemma ops_expired_keep:
  "eo_keep_executed_history_extra_periods eo' = eo_keep_executed_history_extra_periods eo
     \<Longrightarrow> ops_expired eo' = ops_expired eo"
  by (simp add: ops_expired_def fun_eq_iff)

lemma ops_run_remembers:
  "ops_run_valid run (db, eo) \<Longrightarrow> ops_cache_ok db eo \<Longrightarrow> \<forall>(changes, slot) \<in> set run. \<not> ops_expired eo slot s
     \<Longrightarrow> op_slots db i = Some s \<Longrightarrow> op_slots (fst (ops_run run (db, eo))) i = Some s"
proof (induction run arbitrary: db eo)
  case (Cons e run)
  obtain changes slot where e: "e = (changes, slot)" by (cases e)
  obtain eo' batch where app: "ops_apply_changes_to_batch changes slot (eo, []) = (eo', batch)"
    by (cases "ops_apply_changes_to_batch changes slot (eo, [])")
  have wf: "bt_wf changes" "same_expiry changes db" using Cons.prems by (simp_all add: e)
  note c = ops_apply_changes_correct [OF Cons.prems(2) wf app]
  obtain b where b: "bt_get db i = Some (b, s)" using Cons.prems(4) by (auto simp: op_slots_def)
  have "snd v = s" if "bt_get changes i = Some v" for v
    using that wf b by (cases v) (fastforce simp: same_expiry_def op_slots_def bt_get_eq_Some)
  then have "op_slots (batch_apply batch db) i = Some s"
    using c(1) [of i] b Cons.prems(3) by (auto simp: op_slots_def ops_after_def e split: option.splits)
  with Cons.IH [of "batch_apply batch db" eo'] c(2) Cons.prems app show ?case
    by (simp add: e ops_expired_keep [OF ops_apply_keep [OF app]])
qed simp

lemma ops_run_cache_ok:
  "ops_run_valid run (db, eo) \<Longrightarrow> ops_cache_ok db eo
     \<Longrightarrow> ops_cache_ok (fst (ops_run run (db, eo))) (snd (ops_run run (db, eo)))"
proof (induction run arbitrary: db eo)
  case (Cons e run)
  obtain changes slot where e: "e = (changes, slot)" by (cases e)
  obtain eo' batch where app: "ops_apply_changes_to_batch changes slot (eo, []) = (eo', batch)"
    by (cases "ops_apply_changes_to_batch changes slot (eo, [])")
  with Cons ops_apply_changes_correct(2) [OF Cons.prems(2) _ _ app] show ?case by (simp add: e)
qed simp

lemma ops_cache_recompute:
  assumes "ops_cache_ok db eo"
  shows "recompute_sorted_ops_and_op_exec_status db eo = eo"
proof -
  have wf: "bt_wf db" using assms by (simp add: ops_cache_ok_def)
  note r = ops_recompute_ok [OF wf, of eo]
  have "sorted_ops (recompute_sorted_ops_and_op_exec_status db eo) = sorted_ops eo"
    using r assms by (intro index_ok_unique [of "op_slots db"]) (simp_all add: ops_cache_ok_def)
  moreover have "op_exec_status (recompute_sorted_ops_and_op_exec_status db eo) = op_exec_status eo"
    using r assms by (simp add: ops_cache_ok_def)
  ultimately show ?thesis by (simp add: ops_recompute_keep)
qed

text \<open>C3. No replay of operations: once an executed operation is in the database with its expiry slot,
  it is still there, so \<open>contains\<close> still refuses it, after any further sequence of slots none of
  which is more than the kept history past that expiry; and after the sequence the in-memory
  caches, only ever updated incrementally, are the ones recomputed from the database.\<close>

theorem executed_op_remembered:
  assumes "ops_cache_ok db eo" "ops_run_valid run (db, eo)" "bt_get db i = Some (b, s)"
    and "\<forall>(changes, slot) \<in> set run. \<not> ops_expired eo slot s"
    and "ops_run run (db, eo) = (db', eo')"
  shows "ops_contains db' i \<and> recompute_sorted_ops_and_op_exec_status db' eo' = eo'"
  using ops_run_remembers [OF assms(2,1,4), of i] ops_run_cache_ok [OF assms(2,1)] assms(3,5)
  by (auto simp: op_slots_def ops_contains_def ops_cache_recompute)

theorem executed_op_remembered_witness:
  "ops_contains (fst (ops_run [([([2], False, Slot 12 0)], Slot 8 1), ([], Slot 13 0)]
      ([([1], True, Slot 11 0)],
       recompute_sorted_ops_and_op_exec_status [([1], True, Slot 11 0)] (executed_ops_new 2)))) [1]"
proof -
  let ?db = "[([1], True, Slot 11 0)] :: ops_section"
  let ?eo = "recompute_sorted_ops_and_op_exec_status ?db (executed_ops_new 2)"
  let ?run = "[([([2], False, Slot 12 0)], Slot 8 1), ([], Slot 13 0)] :: (executed_ops_changes \<times> slot) list"
  obtain db' eo' where run: "ops_run ?run (?db, ?eo) = (db', eo')" by (cases "ops_run ?run (?db, ?eo)")
  have "ops_cache_ok ?db ?eo" by (rule ops_recompute_ok) (simp add: bt_wf_Cons)
  moreover have "ops_run_valid ?run (?db, ?eo)"
    by (simp add: bt_wf_Cons same_expiry_def op_slots_def split: prod.splits)
  moreover have "\<forall>(changes, slot) \<in> set ?run. \<not> ops_expired ?eo slot (Slot 11 0)"
    by (simp add: ops_expired_def ops_recompute_keep executed_ops_new_def checked_sub_def less_slot_def)
  ultimately show ?thesis
    using executed_op_remembered [of ?db ?eo ?run "[1]" True "Slot 11 0" db' eo'] run
    by (simp del: ops_run.simps ops_run_valid.simps)
qed

text \<open>C10. What the changes of one slot do to the register of executed operations, branch by branch: an
  id of the changes or already present is kept with its (new) status exactly when its expiry slot is
  not before the cutoff slot, which is the slot minus the kept periods; without enough periods before
  the slot nothing is pruned.\<close>

theorem executed_ops_after_slot:
  assumes "ops_cache_ok db eo" "bt_wf changes" "same_expiry changes db"
    and "ops_apply_changes_to_batch changes slot (eo, []) = (eo', batch)"
  shows "bt_get (batch_apply batch db) i =
    (case (case bt_get changes i of Some v \<Rightarrow> Some v | None \<Rightarrow> bt_get db i) of
       None \<Rightarrow> None
     | Some (b, s) \<Rightarrow>
         if eo_keep_executed_history_extra_periods eo \<le> period slot
            \<and> s < Slot (period slot - eo_keep_executed_history_extra_periods eo) (thread slot)
         then None else Some (b, s))"
  using ops_apply_changes_correct(1) [OF assms, of i]
  by (auto simp: ops_after_def ops_expired_def checked_sub_def not_less not_le split: option.splits prod.splits)

theorem executed_ops_after_slot_witness:
  "bt_get (batch_apply (snd (ops_apply_changes_to_batch [([2], True, Slot 9 0)] (Slot 8 1)
      (recompute_sorted_ops_and_op_exec_status [([1], True, Slot 5 0)] (executed_ops_new 2), [])))
     [([1], True, Slot 5 0)]) [1] = None"
proof -
  let ?eo = "recompute_sorted_ops_and_op_exec_status [([1], True, Slot 5 0)] (executed_ops_new 2)"
  have "ops_cache_ok [([1], True, Slot 5 0)] ?eo" by (rule ops_recompute_ok) (simp add: bt_wf_Cons)
  from executed_ops_after_slot [OF this, of "[([2], True, Slot 9 0)]" "Slot 8 1" _ _ "[1]"]
  show ?thesis
    by (cases "ops_apply_changes_to_batch [([2], True, Slot 9 0)] (Slot 8 1) (?eo, [])")
      (simp add: bt_wf_Cons same_expiry_def op_slots_def ops_recompute_keep executed_ops_new_def less_slot_def)
qed

text \<open>C11. The register of executed denunciations: after the changes of a slot are applied and written,
  an index of the changes or already present is kept exactly when it is not expired (with the extra
  history), no other index appears, and the cache by slot is the one recomputed from the database.\<close>

theorem executed_denunciations_after_slot:
  assumes "de_cache_ok db ed" "distinct changes"
    and "denunciations_apply_changes_to_batch changes slot (ed, []) = (ed', batch)"
  shows "(denunciations_contains (batch_apply batch db) d \<longleftrightarrow>
      (d \<in> set changes \<or> denunciations_contains db d)
      \<and> \<not> is_expired (period (get_slot d)) (period slot)
          (saturating_add (denunciation_expire_periods ed) (ed_keep_executed_history_extra_periods ed)))
    \<and> recompute_sorted_denunciations (batch_apply batch db) ed' = ed'"
proof
  note c = denunciations_apply_changes_correct [OF assms]
  have "bt_wf (batch_apply batch db)" using c(3) by (simp add: de_cache_ok_def)
  from denunciations_recompute_ok [OF this, of ed'] c(3)
  have "sorted_denunciations (recompute_sorted_denunciations (batch_apply batch db) ed') = sorted_denunciations ed'"
    by (auto simp: de_cache_ok_def intro: index_ok_unique)
  then show "recompute_sorted_denunciations (batch_apply batch db) ed' = ed'"
    by (simp add: recompute_sorted_denunciations_def)
  show "denunciations_contains (batch_apply batch db) d \<longleftrightarrow>
      (d \<in> set changes \<or> denunciations_contains db d)
      \<and> \<not> is_expired (period (get_slot d)) (period slot)
          (saturating_add (denunciation_expire_periods ed) (ed_keep_executed_history_extra_periods ed))"
  proof (cases "d \<in> set changes \<or> bt_get db d \<noteq> None")
    case True
    with c(2) [OF True] show ?thesis
      by (auto simp: denunciations_contains_def de_after_def de_expired_def)
  next
    case False
    with c(1) [of d] show ?thesis
      by (auto simp: denunciations_contains_def de_after_def de_slots_def split: option.splits if_splits)
  qed
qed

theorem executed_denunciations_after_slot_witness:
  "denunciations_contains
     (batch_apply (snd (denunciations_apply_changes_to_batch [DI_Endorsement (Slot 4 0) 1] (Slot 6 1)
       (\<lparr>denunciation_expire_periods = 3, ed_keep_executed_history_extra_periods = 1,
         sorted_denunciations = []\<rparr>, []))) []) (DI_Endorsement (Slot 4 0) 1)"
proof -
  let ?ed = "\<lparr>denunciation_expire_periods = 3, ed_keep_executed_history_extra_periods = 1,
    sorted_denunciations = []\<rparr>"
  have "de_cache_ok [] ?ed" by (simp add: de_cache_ok_def de_slots_def index_ok_def)
  from executed_denunciations_after_slot [OF this, of "[DI_Endorsement (Slot 4 0) 1]" "Slot 6 1" _ _
      "DI_Endorsement (Slot 4 0) 1"]
  show ?thesis
    by (cases "denunciations_apply_changes_to_batch [DI_Endorsement (Slot 4 0) 1] (Slot 6 1) (?ed, [])")
      (simp add: is_expired_def checked_sub_def saturating_add_def)
qed

end
