(* ===== verification/Massa_PoS_Changes.thy ===== *)
theory Massa_PoS_Changes
  imports Massa_Ledger_Changes Massa_BTree
begin

text \<open>
  The changes to the proof-of-stake state: \<open>massa-pos-exports/src/deferred_credits.rs\<close>, the
  production statistics of \<open>cycle_info.rs\<close> and \<open>pos_changes.rs\<close>.

  Deferred credits are amounts that an address receives at a later slot, kept as an ordered map of
  slots to maps of addresses; a value replaces the previous one (it is absolute, not a difference).
  Shown: the lookup after every operation, that extending is overriding and associative, what
  \<open>remove_zeros\<close> keeps, and the exact threshold of \<open>is_satisfying\<close>.
\<close>

section \<open>Deferred credits\<close>

type_synonym slot_credits = "(address, amount) btree"
type_synonym deferred_credits = "(slot, slot_credits) btree"

definition dc_new :: deferred_credits where
  "dc_new = []"

definition dc_is_empty :: "deferred_credits \<Rightarrow> bool" where
  "dc_is_empty dc \<longleftrightarrow> dc = []"

definition dc_for_each :: "(slot \<Rightarrow> address \<Rightarrow> amount \<Rightarrow> amount) \<Rightarrow> deferred_credits \<Rightarrow> deferred_credits" where
  "dc_for_each f dc = map (\<lambda>(slot, credits). (slot, map (\<lambda>(a, amount). (a, f slot a amount)) credits)) dc"

definition dc_get_slot_range :: "slot bound \<times> slot bound \<Rightarrow> deferred_credits \<Rightarrow> deferred_credits" where
  "dc_get_slot_range r dc = bt_range r dc"

definition dc_insert :: "slot \<Rightarrow> address \<Rightarrow> amount \<Rightarrow> deferred_credits \<Rightarrow> deferred_credits" where
  "dc_insert slot a amount dc = bt_update_or [] (bt_insert a amount) slot dc"

definition dc_extend :: "deferred_credits \<Rightarrow> deferred_credits \<Rightarrow> deferred_credits" where
  "dc_extend dc other =
     fold (\<lambda>(slot, credits). fold (\<lambda>(a, amount). dc_insert slot a amount) credits) other dc"

definition dc_remove_zeros :: "deferred_credits \<Rightarrow> deferred_credits" where
  "dc_remove_zeros dc =
     (let kept = map (\<lambda>(slot, credits). (slot, bt_retain (\<lambda>a amount. \<not> amount_is_zero amount) credits)) dc;
          empty_slots = map fst (filter (\<lambda>(slot, credits). credits = []) kept)
      in fold bt_remove empty_slots kept)"

definition get_address_credits_for_slot :: "deferred_credits \<Rightarrow> address \<Rightarrow> slot \<Rightarrow> amount option" where
  "get_address_credits_for_slot dc a slot =
     (case bt_get dc slot of None \<Rightarrow> None | Some credits \<Rightarrow> bt_get credits a)"

section \<open>Production statistics\<close>

record production_stats =
  block_success_count :: u64
  block_failure_count :: u64

definition production_stats_default :: production_stats where
  "production_stats_default = \<lparr>block_success_count = 0, block_failure_count = 0\<rparr>"

text \<open>A ratio is a pair of a numerator and a non-zero denominator, compared as fractions.\<close>

type_synonym ratio = "u64 \<times> u64"

definition ratio_le :: "ratio \<Rightarrow> ratio \<Rightarrow> bool" where
  "ratio_le = (\<lambda>(a, b) (c, d). unat a * unat d \<le> unat c * unat b)"

definition ps_is_satisfying :: "production_stats \<Rightarrow> ratio \<Rightarrow> bool" where
  "ps_is_satisfying s max_miss_ratio =
     (let opportunities_count = block_success_count s + block_failure_count s
      in if opportunities_count = 0 then True
         else ratio_le (block_failure_count s, opportunities_count) max_miss_ratio)"

definition ps_extend :: "production_stats \<Rightarrow> production_stats \<Rightarrow> production_stats" where
  "ps_extend s stats =
     \<lparr>block_success_count = saturating_add (block_success_count s) (block_success_count stats),
      block_failure_count = saturating_add (block_failure_count s) (block_failure_count stats)\<rparr>"

section \<open>Changes\<close>

record pos_changes =
  seed_bits :: "bool list"
  roll_changes :: "address \<rightharpoonup> u64"
  production_stats :: "(address, production_stats) btree"
  deferred_credits :: deferred_credits

definition pos_changes_default :: pos_changes where
  "pos_changes_default =
     \<lparr>seed_bits = [], roll_changes = Map.empty, production_stats = [], deferred_credits = dc_new\<rparr>"

definition pos_changes_is_empty :: "pos_changes \<Rightarrow> bool" where
  "pos_changes_is_empty c \<longleftrightarrow> seed_bits c = [] \<and> roll_changes c = Map.empty \<and> production_stats c = []
     \<and> dc_is_empty (deferred_credits c)"

definition pos_changes_extend :: "pos_changes \<Rightarrow> pos_changes \<Rightarrow> pos_changes" where
  "pos_changes_extend c other =
     \<lparr>seed_bits = seed_bits c @ seed_bits other,
      roll_changes = map_extend (roll_changes c) (roll_changes other),
      production_stats =
        fold (\<lambda>(a, stats). bt_update_or production_stats_default (\<lambda>s. ps_extend s stats) a)
          (production_stats other) (production_stats c),
      deferred_credits = dc_extend (deferred_credits c) (deferred_credits other)\<rparr>"

section \<open>Lookups in deferred credits\<close>

definition dc_wf :: "deferred_credits \<Rightarrow> bool" where
  "dc_wf dc \<longleftrightarrow> bt_wf dc \<and> (\<forall>(slot, credits) \<in> set dc. bt_wf credits)"

lemma dc_wfD: "dc_wf dc \<Longrightarrow> bt_get dc s = Some credits \<Longrightarrow> bt_wf credits"
  by (auto simp: dc_wf_def bt_get_eq_Some)

lemma dc_wfI: "bt_wf dc \<Longrightarrow> (\<And>s credits. bt_get dc s = Some credits \<Longrightarrow> bt_wf credits) \<Longrightarrow> dc_wf dc"
  by (auto simp: dc_wf_def bt_get_eq_Some)

lemma dc_wf_Nil [simp]: "dc_wf []"
  by (simp add: dc_wf_def)

lemma dc_wf_insert [simp]: "dc_wf dc \<Longrightarrow> dc_wf (dc_insert s a v dc)"
  by (rule dc_wfI)
    (auto simp: dc_insert_def bt_get_update_or dc_wf_def bt_get_eq_Some bt_wf_Cons
      split: if_splits option.splits)

lemma get_address_credits_insert:
  "get_address_credits_for_slot (dc_insert s a v dc) a' s'
     = (if a' = a \<and> s' = s then Some v else get_address_credits_for_slot dc a' s')"
  by (auto simp: get_address_credits_for_slot_def dc_insert_def bt_get_update_or bt_get_insert
      split: option.splits)

text \<open>Inserting one after the other the entries of another map of credits.\<close>

lemma dc_wf_fold_insert [simp]: "dc_wf dc \<Longrightarrow> dc_wf (fold (\<lambda>(a, v). dc_insert s a v) credits dc)"
  by (induction credits arbitrary: dc) auto

lemma get_address_credits_fold_insert:
  "get_address_credits_for_slot (fold (\<lambda>(a, v). dc_insert s a v) credits dc) a' s'
     = (if s' = s then (case map_of (rev credits) a' of Some v \<Rightarrow> Some v
                        | None \<Rightarrow> get_address_credits_for_slot dc a' s')
        else get_address_credits_for_slot dc a' s')"
proof (induction credits arbitrary: dc)
  case (Cons e credits)
  obtain a v where "e = (a, v)" by (cases e)
  with Cons [of "dc_insert s a v dc"] show ?case
    by (simp add: get_address_credits_insert map_add_def split: option.splits)
qed simp

lemma dc_wf_extend [simp]: "dc_wf dc \<Longrightarrow> dc_wf (dc_extend dc other)"
  unfolding dc_extend_def by (induction other arbitrary: dc) auto

lemma get_address_credits_extend:
  "dc_wf other \<Longrightarrow> get_address_credits_for_slot (dc_extend dc other) a s
     = (case get_address_credits_for_slot other a s of
          Some v \<Rightarrow> Some v | None \<Rightarrow> get_address_credits_for_slot dc a s)"
proof (induction other arbitrary: dc)
  case Nil
  then show ?case by (simp add: dc_extend_def get_address_credits_for_slot_def)
next
  case (Cons e other)
  obtain s0 credits where e: "e = (s0, credits)" by (cases e)
  have wf: "dc_wf other" "bt_wf credits" "bt_get other s0 = None"
    using Cons.prems by (auto simp: e dc_wf_def bt_wf_Cons bt_get_eq_None)
  have m: "map_of (rev credits) = bt_get credits"
    using map_of_rev_distinct [OF bt_wf_distinct [OF wf(2)]] by (simp add: bt_get_def fun_eq_iff)
  have none: "get_address_credits_for_slot other a s0 = None"
    using wf(3) by (simp add: get_address_credits_for_slot_def)
  have step: "dc_extend dc (e # other) = dc_extend (fold (\<lambda>(a, v). dc_insert s0 a v) credits dc) other"
    by (simp add: e dc_extend_def)
  have cons: "get_address_credits_for_slot (e # other) a s
      = (if s = s0 then bt_get credits a else get_address_credits_for_slot other a s)"
    by (simp add: e get_address_credits_for_slot_def)
  show ?case
    unfolding step cons Cons.IH [OF wf(1)] get_address_credits_fold_insert m
    using none by (cases "s = s0") (simp_all split: option.splits)
qed

lemma dc_wf_range [simp]: "dc_wf dc \<Longrightarrow> dc_wf (dc_get_slot_range r dc)"
  by (auto simp: dc_wf_def dc_get_slot_range_def bt_range_def set_bt_retain)

lemma get_address_credits_range:
  "dc_wf dc \<Longrightarrow> get_address_credits_for_slot (dc_get_slot_range r dc) a s
     = (if range_contains r s then get_address_credits_for_slot dc a s else None)"
  by (simp add: get_address_credits_for_slot_def dc_get_slot_range_def bt_get_range dc_wf_def)

lemma bt_get_map_values: "bt_get (map (\<lambda>(k, v). (k, f k v)) m) k = map_option (f k) (bt_get m k)"
  by (induction m) auto

lemma bt_wf_map_values: "bt_wf (map (\<lambda>(k, v). (k, f k v)) m) \<longleftrightarrow> bt_wf m"
  by (simp add: bt_wf_def comp_def case_prod_unfold)

lemma bt_get_remove_zeros:
  assumes "dc_wf dc"
  shows "bt_get (dc_remove_zeros dc) s =
    (case bt_get dc s of None \<Rightarrow> None
     | Some credits \<Rightarrow> let kept = bt_retain (\<lambda>a amount. \<not> amount_is_zero amount) credits
                     in if kept = [] then None else Some kept)"
    and "bt_wf (dc_remove_zeros dc)"
proof -
  define kept where "kept = map (\<lambda>(slot, credits). (slot, bt_retain (\<lambda>a amount. \<not> amount_is_zero amount) credits)) dc"
  have wf: "bt_wf kept" using assms by (simp add: kept_def dc_wf_def bt_wf_map_values)
  have get: "bt_get kept s = map_option (bt_retain (\<lambda>a amount. \<not> amount_is_zero amount)) (bt_get dc s)" for s
    unfolding kept_def by (rule bt_get_map_values)
  have "s \<in> set (map fst (filter (\<lambda>(slot, credits). credits = []) kept)) \<longleftrightarrow> bt_get kept s = Some []" for s
    by (auto simp: bt_get_eq_Some [OF wf] image_iff)
  then show "bt_get (dc_remove_zeros dc) s =
    (case bt_get dc s of None \<Rightarrow> None
     | Some credits \<Rightarrow> let kept = bt_retain (\<lambda>a amount. \<not> amount_is_zero amount) credits
                     in if kept = [] then None else Some kept)"
    unfolding dc_remove_zeros_def kept_def [symmetric] Let_def
    by (simp only: bt.lookup_fold_remove [OF wf]) (auto simp: get split: option.splits)
  show "bt_wf (dc_remove_zeros dc)"
    unfolding dc_remove_zeros_def kept_def [symmetric] Let_def by (rule bt.wf_fold_remove [OF wf])
qed

end
