(* ===== verification/Massa_Async_Msg.thy ===== *)
theory Massa_Async_Msg
  imports Complex_Main Massa_Codecs
begin

text \<open>
  \<^verbatim>\<open>massa-models/src/async_msg.rs\<close> and \<^verbatim>\<open>async_msg_id.rs\<close>: asynchronous messages, updates of a
  message, the identifiers that order messages by priority, and their binary forms.  The message and the
  update codecs are exact.  Identifiers decode to themselves, but a fraction that is not in lowest terms
  is accepted as well.

  \<open>Ratio<u64>\<close> of the \<open>num\<close> package is the rational number it stands for; its numerator and
  denominator are those of the lowest terms.
\<close>

section \<open>Messages, updates, identifiers\<close>

record async_message_trigger =
  amt_address :: address
  amt_datastore_key :: "bytes option"

record async_message =
  am_emission_slot :: slot
  am_emission_index :: u64
  am_sender :: address
  am_destination :: address
  am_function :: bytes
  am_max_gas :: u64
  am_fee :: amount
  am_coins :: amount
  am_validity_start :: slot
  am_validity_end :: slot
  am_function_params :: bytes
  am_trigger :: "async_message_trigger option"
  am_can_be_executed :: bool

record async_message_update =
  amu_emission_slot :: "slot set_or_keep"
  amu_emission_index :: "u64 set_or_keep"
  amu_sender :: "address set_or_keep"
  amu_destination :: "address set_or_keep"
  amu_function :: "bytes set_or_keep"
  amu_max_gas :: "u64 set_or_keep"
  amu_fee :: "amount set_or_keep"
  amu_coins :: "amount set_or_keep"
  amu_validity_start :: "slot set_or_keep"
  amu_validity_end :: "slot set_or_keep"
  amu_function_params :: "bytes set_or_keep"
  amu_trigger :: "(async_message_trigger option) set_or_keep"
  amu_can_be_executed :: "bool set_or_keep"

definition async_message_new ::
    "slot \<Rightarrow> u64 \<Rightarrow> address \<Rightarrow> address \<Rightarrow> bytes \<Rightarrow> u64 \<Rightarrow> amount \<Rightarrow> amount \<Rightarrow> slot \<Rightarrow> slot \<Rightarrow> bytes
     \<Rightarrow> async_message_trigger option \<Rightarrow> bool option \<Rightarrow> async_message" where
  "async_message_new emission_slot emission_index sender destination function max_gas fee coins
     validity_start validity_end function_params trigger can_be_executed =
     \<lparr>am_emission_slot = emission_slot,
      am_emission_index = emission_index,
      am_sender = sender,
      am_destination = destination,
      am_function = function,
      am_max_gas = max_gas,
      am_fee = fee,
      am_coins = coins,
      am_validity_start = validity_start,
      am_validity_end = validity_end,
      am_function_params = function_params,
      am_trigger = trigger,
      am_can_be_executed = (case can_be_executed of Some b \<Rightarrow> b | None \<Rightarrow> trigger = None)\<rparr>"

definition async_message_update_default :: async_message_update where
  "async_message_update_default =
     \<lparr>amu_emission_slot = SOK_Keep,
      amu_emission_index = SOK_Keep,
      amu_sender = SOK_Keep,
      amu_destination = SOK_Keep,
      amu_function = SOK_Keep,
      amu_max_gas = SOK_Keep,
      amu_fee = SOK_Keep,
      amu_coins = SOK_Keep,
      amu_validity_start = SOK_Keep,
      amu_validity_end = SOK_Keep,
      amu_function_params = SOK_Keep,
      amu_trigger = SOK_Keep,
      amu_can_be_executed = SOK_Keep\<rparr>"

definition async_message_update_apply :: "async_message_update \<Rightarrow> async_message_update \<Rightarrow> async_message_update" where
  "async_message_update_apply self update =
     \<lparr>amu_emission_slot = sok_apply (amu_emission_slot self) (amu_emission_slot update),
      amu_emission_index = sok_apply (amu_emission_index self) (amu_emission_index update),
      amu_sender = sok_apply (amu_sender self) (amu_sender update),
      amu_destination = sok_apply (amu_destination self) (amu_destination update),
      amu_function = sok_apply (amu_function self) (amu_function update),
      amu_max_gas = sok_apply (amu_max_gas self) (amu_max_gas update),
      amu_fee = sok_apply (amu_fee self) (amu_fee update),
      amu_coins = sok_apply (amu_coins self) (amu_coins update),
      amu_validity_start = sok_apply (amu_validity_start self) (amu_validity_start update),
      amu_validity_end = sok_apply (amu_validity_end self) (amu_validity_end update),
      amu_function_params = sok_apply (amu_function_params self) (amu_function_params update),
      amu_trigger = sok_apply (amu_trigger self) (amu_trigger update),
      amu_can_be_executed = sok_apply (amu_can_be_executed self) (amu_can_be_executed update)\<rparr>"

definition async_message_apply :: "async_message \<Rightarrow> async_message_update \<Rightarrow> async_message" where
  "async_message_apply self update =
     \<lparr>am_emission_slot = sok_apply_to (amu_emission_slot update) (am_emission_slot self),
      am_emission_index = sok_apply_to (amu_emission_index update) (am_emission_index self),
      am_sender = sok_apply_to (amu_sender update) (am_sender self),
      am_destination = sok_apply_to (amu_destination update) (am_destination self),
      am_function = sok_apply_to (amu_function update) (am_function self),
      am_max_gas = sok_apply_to (amu_max_gas update) (am_max_gas self),
      am_fee = sok_apply_to (amu_fee update) (am_fee self),
      am_coins = sok_apply_to (amu_coins update) (am_coins self),
      am_validity_start = sok_apply_to (amu_validity_start update) (am_validity_start self),
      am_validity_end = sok_apply_to (amu_validity_end update) (am_validity_end self),
      am_function_params = sok_apply_to (amu_function_params update) (am_function_params self),
      am_trigger = sok_apply_to (amu_trigger update) (am_trigger self),
      am_can_be_executed = sok_apply_to (amu_can_be_executed update) (am_can_be_executed self)\<rparr>"

text \<open>
  \<open>AsyncMessageId\<close> is \<open>(Reverse<Ratio<u64>>, Slot, u64)\<close>, ordered as a tuple: the largest fee per
  unit of gas comes first.
\<close>

datatype async_message_id = AsyncMessageId (id_ratio: rat) (id_slot: slot) (id_index: u64)

instantiation async_message_id :: linorder
begin

definition less_eq_async_message_id :: "async_message_id \<Rightarrow> async_message_id \<Rightarrow> bool" where
  "less_eq_async_message_id a b \<longleftrightarrow>
     id_ratio b < id_ratio a
     \<or> id_ratio a = id_ratio b \<and> (id_slot a < id_slot b \<or> id_slot a = id_slot b \<and> id_index a \<le> id_index b)"

definition less_async_message_id :: "async_message_id \<Rightarrow> async_message_id \<Rightarrow> bool" where
  "less_async_message_id a b \<longleftrightarrow> a \<le> b \<and> \<not> b \<le> (a :: async_message_id)"

instance
  by standard
    (auto simp: less_eq_async_message_id_def less_async_message_id_def async_message_id.expand)

end

definition ratio_new :: "u64 \<Rightarrow> u64 \<Rightarrow> rat" where
  "ratio_new numer denom = Fract (uint numer) (uint denom)"

definition ratio_numer :: "rat \<Rightarrow> u64" where
  "ratio_numer r = of_int (fst (quotient_of r))"

definition ratio_denom :: "rat \<Rightarrow> u64" where
  "ratio_denom r = of_int (snd (quotient_of r))"

definition compute_priority_id :: "async_message \<Rightarrow> u64 \<Rightarrow> async_message_id" where
  "compute_priority_id self extra_gas_cost =
     (let denom = (let d = saturating_add (am_max_gas self) extra_gas_cost in if d = 0 then 1 else d)
      in AsyncMessageId (ratio_new (am_fee self) denom) (am_emission_slot self) (am_emission_index self))"

definition compute_id :: "async_message \<Rightarrow> async_message_id" where
  "compute_id self = compute_priority_id self 0"

section \<open>Binary forms\<close>

definition async_message_id_ser :: "varint_lib \<Rightarrow> async_message_id serializer" where
  "async_message_id_ser V value =
     ser_seq [varint_ser V (ratio_numer (id_ratio value)), varint_ser V (ratio_denom (id_ratio value)),
              slot_ser V (id_slot value), varint_ser V (id_index value)]"

definition async_message_id_deser :: "varint_lib \<Rightarrow> u8 \<Rightarrow> async_message_id deserializer" where
  "async_message_id_deser V thread_count =
     dbind (varint_deser V full_range) (\<lambda>fee.
     dbind (varint_deser V (Included 1, Included max_word_of)) (\<lambda>denom.
     dbind (slot_deser V full_range (Included 0, Excluded thread_count)) (\<lambda>slot.
     dbind (varint_deser V full_range) (\<lambda>index.
     dret (AsyncMessageId (ratio_new fee denom) slot index)))))"

definition trigger_ser :: "varint_lib \<Rightarrow> async_message_trigger serializer" where
  "trigger_ser V value =
     ser_seq [address_ser V (amt_address value), option_ser (vec_u8_ser V) (amt_datastore_key value)]"

definition trigger_deser :: "varint_lib \<Rightarrow> u32 \<Rightarrow> async_message_trigger deserializer" where
  "trigger_deser V max_key_length =
     dbind (address_deser V) (\<lambda>a.
     dbind (option_deser (vec_u8_deser V (Included 0, Included (ucast max_key_length)))) (\<lambda>key.
     dret \<lparr>amt_address = a, amt_datastore_key = key\<rparr>))"

text \<open>The limits with which \<open>AsyncMessageDeserializer\<close> is built, and its component deserializers.\<close>

record async_message_limits =
  aml_thread_count :: u8
  aml_max_function_length :: u16
  aml_max_function_params_length :: u64
  aml_max_key_length :: u32

definition ad_slot :: "varint_lib \<Rightarrow> async_message_limits \<Rightarrow> slot deserializer" where
  "ad_slot V C = slot_deser V full_range (Included 0, Excluded (aml_thread_count C))"

definition ad_u64 :: "varint_lib \<Rightarrow> u64 deserializer" where
  "ad_u64 V = varint_deser V full_range"

definition ad_amount :: "varint_lib \<Rightarrow> amount deserializer" where
  "ad_amount V = amount_deser V full_range"

definition ad_function :: "varint_lib \<Rightarrow> async_message_limits \<Rightarrow> bytes deserializer" where
  "ad_function V C = string_u16_deser V (Included 0, Included (aml_max_function_length C))"

definition ad_function_params :: "varint_lib \<Rightarrow> async_message_limits \<Rightarrow> bytes deserializer" where
  "ad_function_params V C = vec_u8_deser V (Included 0, Included (aml_max_function_params_length C))"

definition ad_trigger :: "varint_lib \<Rightarrow> async_message_limits \<Rightarrow> async_message_trigger option deserializer" where
  "ad_trigger V C = option_deser (trigger_deser V (aml_max_key_length C))"

definition async_message_ser :: "varint_lib \<Rightarrow> bool \<Rightarrow> async_message serializer" where
  "async_message_ser V for_db value =
     ser_seq ([slot_ser V (am_emission_slot value),
       varint_ser V (am_emission_index value),
       address_ser V (am_sender value),
       address_ser V (am_destination value),
       string_u16_ser V (am_function value),
       varint_ser V (am_max_gas value),
       amount_ser V (am_fee value),
       amount_ser V (am_coins value),
       slot_ser V (am_validity_start value),
       slot_ser V (am_validity_end value),
       vec_u8_ser V (am_function_params value),
       option_ser (trigger_ser V) (am_trigger value)]
       @ (if for_db then [bool_ser (am_can_be_executed value)] else []))"

definition async_message_deser :: "varint_lib \<Rightarrow> async_message_limits \<Rightarrow> bool \<Rightarrow> async_message deserializer" where
  "async_message_deser V C for_db =
     dbind (ad_slot V C) (\<lambda>emission_slot.
     dbind (ad_u64 V) (\<lambda>emission_index.
     dbind (address_deser V) (\<lambda>sender.
     dbind (address_deser V) (\<lambda>destination.
     dbind (ad_function V C) (\<lambda>function.
     dbind (ad_u64 V) (\<lambda>max_gas.
     dbind (ad_amount V) (\<lambda>fee.
     dbind (ad_amount V) (\<lambda>coins.
     dbind (ad_slot V C) (\<lambda>validity_start.
     dbind (ad_slot V C) (\<lambda>validity_end.
     dbind (ad_function_params V C) (\<lambda>function_params.
     dbind (ad_trigger V C) (\<lambda>trigger.
     dbind (if for_db then bool_deser else dret False) (\<lambda>can_be_executed.
     dret (async_message_new emission_slot emission_index sender destination function max_gas fee coins
       validity_start validity_end function_params trigger
       (if for_db then Some can_be_executed else None)))))))))))))))"

definition async_message_update_ser :: "varint_lib \<Rightarrow> bool \<Rightarrow> async_message_update serializer" where
  "async_message_update_ser V for_db value =
     ser_seq ([sok_ser (slot_ser V) (amu_emission_slot value),
       sok_ser (varint_ser V) (amu_emission_index value),
       sok_ser (address_ser V) (amu_sender value),
       sok_ser (address_ser V) (amu_destination value),
       sok_ser (string_u16_ser V) (amu_function value),
       sok_ser (varint_ser V) (amu_max_gas value),
       sok_ser (amount_ser V) (amu_fee value),
       sok_ser (amount_ser V) (amu_coins value),
       sok_ser (slot_ser V) (amu_validity_start value),
       sok_ser (slot_ser V) (amu_validity_end value),
       sok_ser (vec_u8_ser V) (amu_function_params value),
       sok_ser (option_ser (trigger_ser V)) (amu_trigger value)]
       @ (if for_db then [sok_ser bool_ser (amu_can_be_executed value)] else []))"

definition async_message_update_deser ::
    "varint_lib \<Rightarrow> async_message_limits \<Rightarrow> bool \<Rightarrow> async_message_update deserializer" where
  "async_message_update_deser V C for_db =
     dbind (sok_deser (ad_slot V C)) (\<lambda>emission_slot.
     dbind (sok_deser (ad_u64 V)) (\<lambda>emission_index.
     dbind (sok_deser (address_deser V)) (\<lambda>sender.
     dbind (sok_deser (address_deser V)) (\<lambda>destination.
     dbind (sok_deser (ad_function V C)) (\<lambda>function.
     dbind (sok_deser (ad_u64 V)) (\<lambda>max_gas.
     dbind (sok_deser (ad_amount V)) (\<lambda>fee.
     dbind (sok_deser (ad_amount V)) (\<lambda>coins.
     dbind (sok_deser (ad_slot V C)) (\<lambda>validity_start.
     dbind (sok_deser (ad_slot V C)) (\<lambda>validity_end.
     dbind (sok_deser (ad_function_params V C)) (\<lambda>function_params.
     dbind (sok_deser (ad_trigger V C)) (\<lambda>trigger.
     dbind (if for_db then sok_deser bool_deser else dret SOK_Keep) (\<lambda>can_be_executed.
     dret \<lparr>amu_emission_slot = emission_slot,
      amu_emission_index = emission_index,
      amu_sender = sender,
      amu_destination = destination,
      amu_function = function,
      amu_max_gas = max_gas,
      amu_fee = fee,
      amu_coins = coins,
      amu_validity_start = validity_start,
      amu_validity_end = validity_end,
      amu_function_params = function_params,
      amu_trigger = trigger,
      amu_can_be_executed = can_be_executed\<rparr>)))))))))))))"

section \<open>The codecs are exact\<close>

definition trigger_ok :: "u32 \<Rightarrow> async_message_trigger \<Rightarrow> bool" where
  "trigger_ok max_key_length t \<longleftrightarrow> address_ok (amt_address t)
     \<and> pred_option (\<lambda>k. length k < 2 ^ 64 \<and> range_contains (Included 0, Included (ucast max_key_length)) (of_nat (length k) :: u64))
         (amt_datastore_key t)"

definition slot_ok :: "async_message_limits \<Rightarrow> slot \<Rightarrow> bool" where
  "slot_ok C s \<longleftrightarrow> thread s < aml_thread_count C"

definition function_ok :: "async_message_limits \<Rightarrow> bytes \<Rightarrow> bool" where
  "function_ok C f \<longleftrightarrow> length f \<le> unat (aml_max_function_length C) \<and> utf8_valid f"

definition function_params_ok :: "async_message_limits \<Rightarrow> bytes \<Rightarrow> bool" where
  "function_params_ok C ps \<longleftrightarrow> length ps \<le> unat (aml_max_function_params_length C)"

lemma length_bound_iff:
  fixes m :: "'a::len word"
  shows "n < 2 ^ LENGTH('a) \<and> range_contains (Included 0, Included m) (of_nat n) \<longleftrightarrow> n \<le> unat m"
proof (cases "n < 2 ^ LENGTH('a)")
  case True
  then show ?thesis by (simp add: word_le_nat_alt unat_of_nat)
next
  case False
  then show ?thesis by (metis le_less_trans unat_lt_2p)
qed

lemma codec_ad_slot: "varint_ok V \<Longrightarrow> canonical_codec (slot_ser V) (ad_slot V C) (slot_ok C)"
  using codec_slot [of V full_range "(Included 0, Excluded (aml_thread_count C))"]
  by (simp add: ad_slot_def slot_ok_def [abs_def])

lemma codec_ad_u64: "varint_ok V \<Longrightarrow> canonical_codec (varint_ser V) (ad_u64 V) (\<lambda>_. True)"
  using codec_varint [of V full_range] by (simp add: ad_u64_def canonical_codec_iff)

lemma codec_ad_amount: "varint_ok V \<Longrightarrow> canonical_codec (amount_ser V) (ad_amount V) (\<lambda>_. True)"
  using codec_amount [of V full_range] by (simp add: ad_amount_def canonical_codec_iff)

lemma function_ok_eq:
  "function_ok C = (\<lambda>v. length v < 2 ^ 16
     \<and> range_contains (Included 0, Included (aml_max_function_length C)) (of_nat (length v)) \<and> utf8_valid v)"
proof
  fix v :: bytes
  have "length v \<le> unat (aml_max_function_length C) \<longleftrightarrow> length v < 2 ^ LENGTH(16)
      \<and> range_contains (Included 0, Included (aml_max_function_length C)) (of_nat (length v))"
    by (rule length_bound_iff [symmetric])
  then show "function_ok C v = (length v < 2 ^ 16
      \<and> range_contains (Included 0, Included (aml_max_function_length C)) (of_nat (length v)) \<and> utf8_valid v)"
    by (simp add: function_ok_def)
qed

lemma codec_ad_function: "varint_ok V \<Longrightarrow> canonical_codec (string_u16_ser V) (ad_function V C) (function_ok C)"
  unfolding ad_function_def function_ok_eq by (rule codec_string_u16)

lemma function_params_ok_eq:
  "function_params_ok C = (\<lambda>v. length v < 2 ^ 64
     \<and> range_contains (Included 0, Included (aml_max_function_params_length C)) (of_nat (length v)))"
proof
  fix v :: bytes
  have "length v \<le> unat (aml_max_function_params_length C) \<longleftrightarrow> length v < 2 ^ LENGTH(64)
      \<and> range_contains (Included 0, Included (aml_max_function_params_length C)) (of_nat (length v))"
    by (rule length_bound_iff [symmetric])
  then show "function_params_ok C v = (length v < 2 ^ 64
      \<and> range_contains (Included 0, Included (aml_max_function_params_length C)) (of_nat (length v)))"
    by (simp add: function_params_ok_def)
qed

lemma codec_ad_function_params:
  "varint_ok V \<Longrightarrow> canonical_codec (vec_u8_ser V) (ad_function_params V C) (function_params_ok C)"
  unfolding ad_function_params_def function_params_ok_eq by (rule codec_vec_u8)

lemma codec_trigger:
  assumes "varint_ok V"
  shows "canonical_codec (trigger_ser V) (trigger_deser V max_key_length) (trigger_ok max_key_length)"
proof (rule canonical_codecI)
  note key = codec_option [OF codec_vec_u8 [OF assms]]
  fix t input rest
  show "trigger_ok max_key_length t \<Longrightarrow> \<exists>b. trigger_ser V t = Inr b"
    using canonical_ser_total [OF codec_address [OF assms]]
      canonical_ser_total [OF key [of "(Included 0, Included (ucast max_key_length))"]]
    by (fastforce simp: trigger_ser_def trigger_ok_def)
  show "trigger_deser V max_key_length input = Some (rest, t) \<longleftrightarrow>
      trigger_ok max_key_length t \<and> (\<exists>b. trigger_ser V t = Inr b \<and> input = b @ rest)"
    by (cases t) (auto simp: trigger_deser_def trigger_ser_def trigger_ok_def
        dbind_canonical [OF codec_address [OF assms]] dbind_canonical [OF key])
qed

lemma codec_ad_trigger:
  "varint_ok V \<Longrightarrow> canonical_codec (option_ser (trigger_ser V)) (ad_trigger V C)
     (pred_option (trigger_ok (aml_max_key_length C)))"
  unfolding ad_trigger_def by (rule codec_option [OF codec_trigger])

definition async_message_ok :: "async_message_limits \<Rightarrow> bool \<Rightarrow> async_message \<Rightarrow> bool" where
  "async_message_ok C for_db m \<longleftrightarrow>
     slot_ok C (am_emission_slot m) \<and> address_ok (am_sender m) \<and> address_ok (am_destination m)
     \<and> function_ok C (am_function m) \<and> slot_ok C (am_validity_start m) \<and> slot_ok C (am_validity_end m)
     \<and> function_params_ok C (am_function_params m)
     \<and> pred_option (trigger_ok (aml_max_key_length C)) (am_trigger m)
     \<and> (\<not> for_db \<longrightarrow> am_can_be_executed m = (am_trigger m = None))"

lemmas message_codecs =
  codec_ad_slot codec_ad_u64 codec_ad_amount codec_ad_function codec_ad_function_params codec_ad_trigger
  codec_address

lemma codec_async_message:
  assumes "varint_ok V"
  shows "canonical_codec (async_message_ser V for_db) (async_message_deser V C for_db) (async_message_ok C for_db)"
proof (rule canonical_codecI)
  fix m input rest
  show "async_message_ok C for_db m \<Longrightarrow> \<exists>b. async_message_ser V for_db m = Inr b"
    unfolding async_message_ser_def ser_seq_total async_message_ok_def
    by (auto simp: bool_ser_def intro: message_codecs [OF assms, THEN canonical_ser_total])
  show "async_message_deser V C for_db input = Some (rest, m) \<longleftrightarrow>
      async_message_ok C for_db m \<and> (\<exists>b. async_message_ser V for_db m = Inr b \<and> input = b @ rest)"
  proof
    assume "async_message_deser V C for_db input = Some (rest, m)"
    then show "async_message_ok C for_db m \<and> (\<exists>b. async_message_ser V for_db m = Inr b \<and> input = b @ rest)"
      by (cases for_db)
        (auto simp: async_message_deser_def async_message_ser_def async_message_ok_def async_message_new_def
          message_codecs [OF assms, THEN dbind_canonical] dbind_canonical [OF bool_codec.canonical_codec_axioms])
  next
    assume "async_message_ok C for_db m \<and> (\<exists>b. async_message_ser V for_db m = Inr b \<and> input = b @ rest)"
    then show "async_message_deser V C for_db input = Some (rest, m)"
      unfolding async_message_deser_def async_message_ser_def async_message_ok_def
      apply (cases for_db; clarsimp)
       apply ((rule dbind_intro, rule message_codecs [OF assms] bool_codec.canonical_codec_axioms,
          assumption, simp)+, simp add: async_message_new_def)+
      done
  qed
qed

definition async_message_update_ok :: "async_message_limits \<Rightarrow> bool \<Rightarrow> async_message_update \<Rightarrow> bool" where
  "async_message_update_ok C for_db u \<longleftrightarrow>
     pred_set_or_keep (slot_ok C) (amu_emission_slot u)
     \<and> pred_set_or_keep address_ok (amu_sender u) \<and> pred_set_or_keep address_ok (amu_destination u)
     \<and> pred_set_or_keep (function_ok C) (amu_function u)
     \<and> pred_set_or_keep (slot_ok C) (amu_validity_start u) \<and> pred_set_or_keep (slot_ok C) (amu_validity_end u)
     \<and> pred_set_or_keep (function_params_ok C) (amu_function_params u)
     \<and> pred_set_or_keep (pred_option (trigger_ok (aml_max_key_length C))) (amu_trigger u)
     \<and> (\<not> for_db \<longrightarrow> amu_can_be_executed u = SOK_Keep)"

lemma pred_set_or_keep_True [simp]: "pred_set_or_keep (\<lambda>_. True) x"
  by (cases x) auto

lemmas update_codecs = message_codecs [THEN codec_sok]

lemma codec_async_message_update:
  assumes "varint_ok V"
  shows "canonical_codec (async_message_update_ser V for_db) (async_message_update_deser V C for_db)
    (async_message_update_ok C for_db)"
proof (rule canonical_codecI)
  note bool = codec_sok [OF bool_codec.canonical_codec_axioms]
  fix m input rest
  show "async_message_update_ok C for_db m \<Longrightarrow> \<exists>b. async_message_update_ser V for_db m = Inr b"
    unfolding async_message_update_ser_def ser_seq_total async_message_update_ok_def
    by (auto intro: update_codecs [OF assms, THEN canonical_ser_total] canonical_ser_total [OF bool])
  show "async_message_update_deser V C for_db input = Some (rest, m) \<longleftrightarrow>
      async_message_update_ok C for_db m \<and> (\<exists>b. async_message_update_ser V for_db m = Inr b \<and> input = b @ rest)"
  proof
    assume "async_message_update_deser V C for_db input = Some (rest, m)"
    then show "async_message_update_ok C for_db m \<and> (\<exists>b. async_message_update_ser V for_db m = Inr b \<and> input = b @ rest)"
      by (cases for_db)
        (auto simp: async_message_update_deser_def async_message_update_ser_def async_message_update_ok_def
          update_codecs [OF assms, THEN dbind_canonical] dbind_canonical [OF bool])
  next
    assume "async_message_update_ok C for_db m \<and> (\<exists>b. async_message_update_ser V for_db m = Inr b \<and> input = b @ rest)"
    then show "async_message_update_deser V C for_db input = Some (rest, m)"
      unfolding async_message_update_deser_def async_message_update_ser_def async_message_update_ok_def
      apply (cases for_db; clarsimp)
       apply ((rule dbind_intro, rule update_codecs [OF assms] bool, assumption, simp)+, simp)+
      done
  qed
qed

text \<open>Identifiers.\<close>

definition id_ok :: "u8 \<Rightarrow> async_message_id \<Rightarrow> bool" where
  "id_ok thread_count i \<longleftrightarrow> thread (id_slot i) < thread_count
     \<and> 0 \<le> id_ratio i \<and> fst (quotient_of (id_ratio i)) < 2 ^ 64 \<and> snd (quotient_of (id_ratio i)) < 2 ^ 64"

lemma ratio_of_parts:
  assumes "0 \<le> r" "fst (quotient_of r) < 2 ^ 64" "snd (quotient_of r) < 2 ^ 64"
  shows "ratio_new (ratio_numer r) (ratio_denom r) = r" "1 \<le> ratio_denom r"
proof -
  obtain a b where q: "quotient_of r = (a, b)" by (cases "quotient_of r")
  have b: "0 < b" using quotient_of_denom_pos [OF q] .
  have r: "r = Fract a b" using quotient_of_div [OF q] by (simp add: Fract_of_int_quotient)
  have a: "0 \<le> a" using assms(1) b by (simp add: r zero_le_Fract_iff)
  have "uint (of_int a :: u64) = a" "uint (of_int b :: u64) = b"
    using assms(2,3) a b by (simp_all add: q uint_word_of_int_eq take_bit_int_eq_self)
  then show "ratio_new (ratio_numer r) (ratio_denom r) = r" "1 \<le> ratio_denom r"
    unfolding ratio_new_def ratio_numer_def ratio_denom_def q word_le_def using b r by simp_all
qed

lemma codec_async_message_id:
  assumes "varint_ok V"
  shows "codec (async_message_id_ser V) (async_message_id_deser V thread_count) (id_ok thread_count)"
proof
  fix i b rest
  show "\<exists>b. async_message_id_ser V i = Inr b"
    by (simp add: async_message_id_ser_def ser_seq_total slot_ser_def varint_ser_def)
  assume ok: "id_ok thread_count i" and ser: "async_message_id_ser V i = Inr b"
  let ?s = "venc V 64 (unat (period (id_slot i))) @ [thread (id_slot i)]"
  have b: "b = venc V 64 (unat (ratio_numer (id_ratio i))) @ venc V 64 (unat (ratio_denom (id_ratio i)))
      @ ?s @ venc V 64 (unat (id_index i))"
    using ser by (simp add: async_message_id_ser_def slot_ser_def varint_ser_def)
  have int: "varint_deser V rng (venc V 64 (unat w) @ r) = Some (r, w)"
    if "range_contains rng w" for rng and w :: u64 and r
    using that by (simp add: canonical_deser_iff [OF codec_varint [OF assms]] varint_ser_def)
  have slot: "slot_deser V full_range (Included 0, Excluded thread_count) (?s @ r) = Some (r, id_slot i)" for r
    using ok by (simp add: canonical_deser_iff [OF codec_slot [OF assms]] slot_ser_def varint_ser_def id_ok_def)
  have ratio: "ratio_new (ratio_numer (id_ratio i)) (ratio_denom (id_ratio i)) = id_ratio i"
      "1 \<le> ratio_denom (id_ratio i)"
    using ok ratio_of_parts [of "id_ratio i"] by (simp_all add: id_ok_def)
  show "async_message_id_deser V thread_count (b @ rest) = Some (rest, i)"
    unfolding async_message_id_deser_def b append_assoc using ratio
    by (simp add: dbind_def int slot [simplified])
qed

section \<open>Properties\<close>



end
