(* ===== verification/Massa_Async_Pool.thy ===== *)
theory Massa_Async_Pool
  imports Massa_Async_Msg Massa_Rows
begin

text \<open>
  The pool of asynchronous messages: \<^verbatim>\<open>massa-async-pool/src/changes.rs\<close> and \<^verbatim>\<open>pool.rs\<close>.

  The pool lives in the state column of the database, thirteen rows per message under the keys
  prefix + identifier + field number, and in a cache of messages.  Shown: applying changes keeps the rows
  and the cache in agreement, and the cache that a node recomputes from its database, after a start or a
  bootstrap, is the one it had.  A serialization error is a panic of the program.

  \<open>AsyncMessage::default()\<close> calls itself without end; \<open>async_message_default\<close> returns nothing,
  and so does the merge of an update into a deletion, which asks for the default.
\<close>

section \<open>Changes\<close>

type_synonym async_change = "(async_message, async_message_update) set_update_or_delete"
type_synonym async_pool_changes = "(async_message_id, async_change) btree"

partial_function (option) async_message_default :: "address \<Rightarrow> async_message option" where
  "async_message_default genesis_address =
     Option.bind (async_message_default genesis_address) (\<lambda>d.
       Some (d\<lparr>am_emission_slot := Slot 0 0, am_sender := genesis_address, am_destination := genesis_address,
               am_validity_start := Slot 0 0, am_validity_end := Slot 0 0\<rparr>))"

fun async_change_apply :: "address \<Rightarrow> async_change \<Rightarrow> async_change \<Rightarrow> async_change option" where
  "async_change_apply g self (SUD_Set x) = Some (SUD_Set x)"
| "async_change_apply g self (SUD_Update u) =
     (case self of
        SUD_Set cur \<Rightarrow> Some (SUD_Set (async_message_apply cur u))
      | SUD_Update cur \<Rightarrow> Some (SUD_Update (async_message_update_apply cur u))
      | SUD_Delete \<Rightarrow> map_option (\<lambda>res. SUD_Set (async_message_apply res u)) (async_message_default g))"
| "async_change_apply g self SUD_Delete = Some SUD_Delete"

fun async_pool_changes_apply ::
    "address \<Rightarrow> async_pool_changes \<Rightarrow> async_pool_changes \<Rightarrow> async_pool_changes option" where
  "async_pool_changes_apply g self [] = Some self"
| "async_pool_changes_apply g self ((mid, msg_change) # changes) =
     (case bt_get self mid of
        Some cur \<Rightarrow> Option.bind (async_change_apply g cur msg_change) (\<lambda>c.
                      async_pool_changes_apply g (bt_insert mid c self) changes)
      | None \<Rightarrow> async_pool_changes_apply g (bt_insert mid msg_change self) changes)"

definition push_add :: "address \<Rightarrow> async_message_id \<Rightarrow> async_message \<Rightarrow> async_pool_changes \<Rightarrow> async_pool_changes option" where
  "push_add g msg_id msg self = async_pool_changes_apply g self [(msg_id, SUD_Set msg)]"

definition push_delete :: "address \<Rightarrow> async_message_id \<Rightarrow> async_pool_changes \<Rightarrow> async_pool_changes option" where
  "push_delete g msg_id self = async_pool_changes_apply g self [(msg_id, SUD_Delete)]"

definition push_activate :: "address \<Rightarrow> async_message_id \<Rightarrow> async_pool_changes \<Rightarrow> async_pool_changes option" where
  "push_activate g msg_id self =
     async_pool_changes_apply g self
       [(msg_id, SUD_Update (async_message_update_default\<lparr>amu_can_be_executed := SOK_Set True\<rparr>))]"

section \<open>Rows of the database\<close>

definition ASYNC_POOL_PREFIX :: bytes where
  "ASYNC_POOL_PREFIX = [97, 115, 121, 110, 99, 95, 112, 111, 111, 108, 47]"

definition EMISSION_SLOT_IDENT :: u8 where "EMISSION_SLOT_IDENT = 0"
definition EMISSION_INDEX_IDENT :: u8 where "EMISSION_INDEX_IDENT = 1"
definition SENDER_IDENT :: u8 where "SENDER_IDENT = 2"
definition DESTINATION_IDENT :: u8 where "DESTINATION_IDENT = 3"
definition FUNCTION_IDENT :: u8 where "FUNCTION_IDENT = 4"
definition MAX_GAS_IDENT :: u8 where "MAX_GAS_IDENT = 5"
definition FEE_IDENT :: u8 where "FEE_IDENT = 6"
definition COINS_IDENT :: u8 where "COINS_IDENT = 7"
definition VALIDITY_START_IDENT :: u8 where "VALIDITY_START_IDENT = 8"
definition VALIDITY_END_IDENT :: u8 where "VALIDITY_END_IDENT = 9"
definition FUNCTION_PARAMS_IDENT :: u8 where "FUNCTION_PARAMS_IDENT = 10"
definition TRIGGER_IDENT :: u8 where "TRIGGER_IDENT = 11"
definition CAN_BE_EXECUTED_IDENT :: u8 where "CAN_BE_EXECUTED_IDENT = 12"

definition message_id_prefix :: "bytes \<Rightarrow> bytes" where
  "message_id_prefix mid = ASYNC_POOL_PREFIX @ mid"

definition async_key :: "bytes \<Rightarrow> u8 \<Rightarrow> bytes" where
  "async_key mid ident = ASYNC_POOL_PREFIX @ mid @ [ident]"

datatype pool_panic = MESSAGE_ID_SER_ERROR | MESSAGE_SER_ERROR | MESSAGE_ID_DESER_ERROR

type_synonym message_cache = "(async_message_id, async_message) btree"

text \<open>The fields in the order in which \<open>put_entry\<close> writes them.\<close>

definition message_fields :: "varint_lib \<Rightarrow> async_message \<Rightarrow> field list" where
  "message_fields V message =
     [(EMISSION_SLOT_IDENT, slot_ser V (am_emission_slot message)),
      (EMISSION_INDEX_IDENT, varint_ser V (am_emission_index message)),
      (SENDER_IDENT, address_ser V (am_sender message)),
      (DESTINATION_IDENT, address_ser V (am_destination message)),
      (FUNCTION_IDENT, string_u16_ser V (am_function message)),
      (MAX_GAS_IDENT, varint_ser V (am_max_gas message)),
      (FEE_IDENT, amount_ser V (am_fee message)),
      (COINS_IDENT, amount_ser V (am_coins message)),
      (VALIDITY_START_IDENT, slot_ser V (am_validity_start message)),
      (VALIDITY_END_IDENT, slot_ser V (am_validity_end message)),
      (FUNCTION_PARAMS_IDENT, vec_u8_ser V (am_function_params message)),
      (TRIGGER_IDENT, option_ser (trigger_ser V) (am_trigger message)),
      (CAN_BE_EXECUTED_IDENT, bool_ser (am_can_be_executed message))]"

definition set_field :: "u8 \<Rightarrow> 'a serializer \<Rightarrow> 'a set_or_keep \<Rightarrow> field list" where
  "set_field ident s x = (case x of SOK_Set v \<Rightarrow> [(ident, s v)] | SOK_Keep \<Rightarrow> [])"

definition update_fields :: "varint_lib \<Rightarrow> async_message_update \<Rightarrow> field list" where
  "update_fields V u =
     set_field EMISSION_SLOT_IDENT (slot_ser V) (amu_emission_slot u)
     @ set_field EMISSION_INDEX_IDENT (varint_ser V) (amu_emission_index u)
     @ set_field SENDER_IDENT (address_ser V) (amu_sender u)
     @ set_field DESTINATION_IDENT (address_ser V) (amu_destination u)
     @ set_field FUNCTION_IDENT (string_u16_ser V) (amu_function u)
     @ set_field MAX_GAS_IDENT (varint_ser V) (amu_max_gas u)
     @ set_field FEE_IDENT (amount_ser V) (amu_fee u)
     @ set_field COINS_IDENT (amount_ser V) (amu_coins u)
     @ set_field VALIDITY_START_IDENT (slot_ser V) (amu_validity_start u)
     @ set_field VALIDITY_END_IDENT (slot_ser V) (amu_validity_end u)
     @ set_field FUNCTION_PARAMS_IDENT (vec_u8_ser V) (amu_function_params u)
     @ set_field TRIGGER_IDENT (option_ser (trigger_ser V)) (amu_trigger u)
     @ set_field CAN_BE_EXECUTED_IDENT (bool_ser) (amu_can_be_executed u)"

definition put_entry :: "varint_lib \<Rightarrow> async_message_id \<Rightarrow> async_message \<Rightarrow> db_batch \<Rightarrow> pool_panic + db_batch" where
  "put_entry V message_id message batch =
     rbind (map_err (\<lambda>_. MESSAGE_ID_SER_ERROR) (async_message_id_ser V message_id)) (\<lambda>mid.
       put_rows MESSAGE_SER_ERROR (async_key mid) (message_fields V message) batch)"

definition update_entry ::
    "varint_lib \<Rightarrow> async_message_id \<Rightarrow> async_message_update \<Rightarrow> db_batch \<Rightarrow> pool_panic + db_batch" where
  "update_entry V message_id message_update batch =
     rbind (map_err (\<lambda>_. MESSAGE_ID_SER_ERROR) (async_message_id_ser V message_id)) (\<lambda>mid.
       put_rows MESSAGE_SER_ERROR (async_key mid) (update_fields V message_update) batch)"

definition delete_entry :: "varint_lib \<Rightarrow> async_message_id \<Rightarrow> db_batch \<Rightarrow> pool_panic + db_batch" where
  "delete_entry V message_id batch =
     rbind (map_err (\<lambda>_. MESSAGE_ID_SER_ERROR) (async_message_id_ser V message_id)) (\<lambda>mid.
       Inr (fold (\<lambda>ident b. delete_key b (async_key mid ident))
         [EMISSION_SLOT_IDENT, EMISSION_INDEX_IDENT, SENDER_IDENT,
          DESTINATION_IDENT, FUNCTION_IDENT, MAX_GAS_IDENT,
          FEE_IDENT, COINS_IDENT, VALIDITY_START_IDENT,
          VALIDITY_END_IDENT, FUNCTION_PARAMS_IDENT, TRIGGER_IDENT,
          CAN_BE_EXECUTED_IDENT] batch))"

fun pool_apply_changes_to_batch ::
    "varint_lib \<Rightarrow> async_pool_changes \<Rightarrow> message_cache \<times> db_batch \<Rightarrow> pool_panic + message_cache \<times> db_batch" where
  "pool_apply_changes_to_batch V [] (cache, batch) = Inr (cache, batch)"
| "pool_apply_changes_to_batch V ((mid, SUD_Set message) # changes) (cache, batch) =
     rbind (put_entry V mid message batch) (\<lambda>batch.
       pool_apply_changes_to_batch V changes (bt_insert mid message cache, batch))"
| "pool_apply_changes_to_batch V ((mid, SUD_Update message_update) # changes) (cache, batch) =
     rbind (update_entry V mid message_update batch) (\<lambda>batch.
       pool_apply_changes_to_batch V changes
         (case bt_get cache mid of
            Some message_info \<Rightarrow> bt_insert mid (async_message_apply message_info message_update) cache
          | None \<Rightarrow> cache, batch))"
| "pool_apply_changes_to_batch V ((mid, SUD_Delete) # changes) (cache, batch) =
     rbind (delete_entry V mid batch) (\<lambda>batch.
       pool_apply_changes_to_batch V changes (bt_remove mid cache, batch))"

section \<open>Reading the database\<close>

definition load_message ::
    "varint_lib \<Rightarrow> async_message_limits \<Rightarrow> (bytes, bytes) btree \<Rightarrow> async_message_id \<Rightarrow> pool_panic + async_message option" where
  "load_message V C cf message_id =
     rbind (map_err (\<lambda>_. MESSAGE_ID_SER_ERROR) (async_message_id_ser V message_id)) (\<lambda>mid.
       let serialized_message = concat (map snd (prefix_rows (message_id_prefix mid) cf))
       in Inr (case async_message_deser V C True serialized_message of
                 Some (_, message) \<Rightarrow> Some message
               | None \<Rightarrow> None))"

definition next_entry :: "bytes option \<Rightarrow> (bytes, bytes) btree \<Rightarrow> (bytes \<times> bytes) option" where
  "next_entry last_id cf =
     (case last_id of
        Some mid \<Rightarrow> (case rows_from (async_key mid CAN_BE_EXECUTED_IDENT) cf of
                      _ # e # _ \<Rightarrow> Some e | _ \<Rightarrow> None)
      | None \<Rightarrow> (case rows_from ASYNC_POOL_PREFIX cf of e # _ \<Rightarrow> Some e | [] \<Rightarrow> None))"

text \<open>The loop of \<open>recompute_message_cache\<close>; \<open>None\<close> is not returning.\<close>

partial_function (option) recompute_loop ::
    "varint_lib \<Rightarrow> async_message_limits \<Rightarrow> (bytes, bytes) btree \<Rightarrow> bytes option \<Rightarrow> message_cache
     \<Rightarrow> (pool_panic + message_cache) option" where
  "recompute_loop V C cf last_id cache =
     (case next_entry last_id cf of
        None \<Rightarrow> Some (Inr cache)
      | Some (serialized_message_id, _) \<Rightarrow>
          if \<not> has_prefix ASYNC_POOL_PREFIX serialized_message_id then Some (Inr cache)
          else case async_message_id_deser V (aml_thread_count C) (drop (length ASYNC_POOL_PREFIX) serialized_message_id) of
            None \<Rightarrow> Some (Inl MESSAGE_ID_DESER_ERROR)
          | Some (_, message_id) \<Rightarrow>
              (case load_message V C cf message_id of
                 Inl e \<Rightarrow> Some (Inl e)
               | Inr loaded \<Rightarrow>
                   recompute_loop V C cf
                     (Some (butlast (drop (length ASYNC_POOL_PREFIX) serialized_message_id)))
                     (case loaded of Some message \<Rightarrow> bt_insert message_id message cache | None \<Rightarrow> cache)))"

definition recompute_message_cache ::
    "varint_lib \<Rightarrow> async_message_limits \<Rightarrow> (bytes, bytes) btree \<Rightarrow> (pool_panic + message_cache) option" where
  "recompute_message_cache V C cf = recompute_loop V C cf None []"

definition fetch_messages :: "message_cache \<Rightarrow> async_message_id list \<Rightarrow> (async_message_id \<times> async_message option) list" where
  "fetch_messages cache message_ids = map (\<lambda>message_id. (message_id, bt_get cache message_id)) message_ids"

definition field_value_valid :: "varint_lib \<Rightarrow> async_message_limits \<Rightarrow> u8 \<Rightarrow> bytes \<Rightarrow> bool" where
  "field_value_valid V C ident value =
     (if ident = EMISSION_SLOT_IDENT then exhausts (ad_slot V C) value
      else if ident = EMISSION_INDEX_IDENT then exhausts (ad_u64 V) value
      else if ident = SENDER_IDENT then exhausts (address_deser V) value
      else if ident = DESTINATION_IDENT then exhausts (address_deser V) value
      else if ident = FUNCTION_IDENT then
        (case value of
           [] \<Rightarrow> False
         | len # data \<Rightarrow> if length value \<noteq> unat len + 1 then False else utf8_valid data)
      else if ident = MAX_GAS_IDENT then exhausts (ad_u64 V) value
      else if ident = FEE_IDENT then exhausts (ad_amount V) value
      else if ident = COINS_IDENT then exhausts (ad_amount V) value
      else if ident = VALIDITY_START_IDENT then exhausts (ad_slot V C) value
      else if ident = VALIDITY_END_IDENT then exhausts (ad_slot V C) value
      else if ident = FUNCTION_PARAMS_IDENT then exhausts (ad_function_params V C) value
      else if ident = TRIGGER_IDENT then exhausts (ad_trigger V C) value
      else if ident = CAN_BE_EXECUTED_IDENT then exhausts bool_deser value
      else False)"

definition pool_is_key_value_valid :: "varint_lib \<Rightarrow> async_message_limits \<Rightarrow> bytes \<Rightarrow> bytes \<Rightarrow> bool" where
  "pool_is_key_value_valid V C serialized_key serialized_value =
     (if \<not> has_prefix ASYNC_POOL_PREFIX serialized_key then False
      else case async_message_id_deser V (aml_thread_count C) (drop (length ASYNC_POOL_PREFIX) serialized_key) of
        None \<Rightarrow> False
      | Some (rest, _) \<Rightarrow>
          (case rest of [ident] \<Rightarrow> field_value_valid V C ident serialized_value | _ \<Rightarrow> False))"

section \<open>The default message\<close>

lemma async_message_default_diverges: "async_message_default g = None"
proof (cases "async_message_default g")
  case (Some d)
  have False
    by (rule async_message_default.raw_induct [of "\<lambda>_ _. False", OF _ Some]) (auto simp: bind_eq_Some_conv)
  then show ?thesis ..
qed

lemma async_change_apply_update_deleted: "async_change_apply g SUD_Delete (SUD_Update u) = None"
  by (simp add: async_message_default_diverges)

section \<open>Fields of a message\<close>

lemmas ident_defs =
  EMISSION_SLOT_IDENT_def EMISSION_INDEX_IDENT_def SENDER_IDENT_def DESTINATION_IDENT_def FUNCTION_IDENT_def
  MAX_GAS_IDENT_def FEE_IDENT_def COINS_IDENT_def VALIDITY_START_IDENT_def VALIDITY_END_IDENT_def
  FUNCTION_PARAMS_IDENT_def TRIGGER_IDENT_def CAN_BE_EXECUTED_IDENT_def

definition all_idents :: "u8 list" where
  "all_idents = [0, 1, 2, 3, 4, 5, 6, 7, 8, 9, 10, 11, 12]"

lemma map_fst_message_fields: "map fst (message_fields V m) = all_idents"
  by (simp add: message_fields_def ident_defs all_idents_def)

lemma map_of_message_fields_None: "map_of (message_fields V m) ident = None \<longleftrightarrow> ident \<notin> set all_idents"
  by (metis map_fst_message_fields map_of_eq_None_iff set_map)

lemma map_of_set_field:
  "map_of (set_field j s x) k = (if k = j then (case x of SOK_Set v \<Rightarrow> Some (s v) | SOK_Keep \<Rightarrow> None) else None)"
  by (simp add: set_field_def split: set_or_keep.splits)

lemma map_of_update_fields_outside: "ident \<notin> set all_idents \<Longrightarrow> map_of (update_fields V u) ident = None"
  by (simp add: update_fields_def map_of_set_field ident_defs all_idents_def map_add_def)

text \<open>The rows of an updated message are the rows of the update, then those of the message.\<close>

lemma map_of_message_fields_apply:
  "map_of (message_fields V (async_message_apply m u)) ident
     = (case map_of (update_fields V u) ident of Some r \<Rightarrow> Some r | None \<Rightarrow> map_of (message_fields V m) ident)"
proof (cases "ident \<in> set all_idents")
  case False
  then show ?thesis
    using map_of_message_fields_None [of V m ident] map_of_message_fields_None [of V "async_message_apply m u" ident]
    by (simp add: map_of_update_fields_outside)
next
  case True
  then have "ident = 0 \<or> ident = 1 \<or> ident = 2 \<or> ident = 3 \<or> ident = 4 \<or> ident = 5 \<or> ident = 6 \<or> ident = 7
      \<or> ident = 8 \<or> ident = 9 \<or> ident = 10 \<or> ident = 11 \<or> ident = 12"
    by (simp add: all_idents_def)
  then show ?thesis
    by (elim disjE)
      (simp_all add: update_fields_def map_of_set_field message_fields_def ident_defs map_add_def
        async_message_apply_def split: set_or_keep.splits cong: option.case_cong)
qed

lemma message_fields_Inr:
  assumes "varint_ok V" "async_message_ok C True m"
  shows "fields_written (message_fields V m)"
  using assms(2) unfolding message_fields_def async_message_ok_def
  by (auto simp: fields_written_def bool_ser_def intro: message_codecs [OF assms(1), THEN canonical_ser_total])

lemma set_field_Inr: "(\<And>v. x = SOK_Set v \<Longrightarrow> \<exists>b. s v = Inr b) \<Longrightarrow> fields_written (set_field j s x)"
  by (cases x) (auto simp: set_field_def fields_written_def)

lemma update_fields_Inr:
  assumes "varint_ok V" "async_message_update_ok C True u"
  shows "fields_written (update_fields V u)"
  using assms(2) unfolding update_fields_def async_message_update_ok_def fields_written_append
  by (auto simp: bool_ser_def intro!: set_field_Inr intro: message_codecs [OF assms(1), THEN canonical_ser_total])

lemma pred_set_or_keep_apply_to: "pred_set_or_keep P x \<Longrightarrow> P y \<Longrightarrow> P (sok_apply_to x y)"
  by (cases x) auto

lemma async_message_ok_apply:
  "async_message_ok C True m \<Longrightarrow> async_message_update_ok C True u \<Longrightarrow> async_message_ok C True (async_message_apply m u)"
  by (simp add: async_message_ok_def async_message_update_ok_def async_message_apply_def pred_set_or_keep_apply_to)

text \<open>Written one after the other, the rows of a message are its serialization.\<close>

lemma message_fields_concat:
  "fields_written (message_fields V m) \<Longrightarrow>
     async_message_ser V True m = Inr (concat (map (\<lambda>f. projr (snd f)) (message_fields V m)))"
  using ser_seq_fields [of "message_fields V m"] by (simp add: async_message_ser_def message_fields_def)

section \<open>Keys\<close>

definition id_bytes :: "varint_lib \<Rightarrow> async_message_id \<Rightarrow> bytes" where
  "id_bytes V i = venc V 64 (unat (ratio_numer (id_ratio i))) @ venc V 64 (unat (ratio_denom (id_ratio i)))
     @ venc V 64 (unat (period (id_slot i))) @ [thread (id_slot i)] @ venc V 64 (unat (id_index i))"

definition row_key :: "varint_lib \<Rightarrow> async_message_id \<Rightarrow> u8 \<Rightarrow> bytes" where
  "row_key V i ident = async_key (id_bytes V i) ident"

lemma async_message_id_ser_eq: "async_message_id_ser V i = Inr (id_bytes V i)"
  by (simp add: async_message_id_ser_def id_bytes_def slot_ser_def varint_ser_def)

lemma id_deser_bytes:
  "varint_ok V \<Longrightarrow> id_ok n i \<Longrightarrow> async_message_id_deser V n (id_bytes V i @ rest) = Some (rest, i)"
  using codec.deser_ser [OF codec_async_message_id] async_message_id_ser_eq by blast

lemma id_bytes_prefix_free:
  assumes "varint_ok V" "id_ok n i" "id_ok n j" "id_bytes V i @ r = id_bytes V j @ s"
  shows "i = j \<and> r = s"
  using codec.prefix_free [OF codec_async_message_id [OF assms(1)] assms(2,3) _ _ assms(4)]
  by (simp add: async_message_id_ser_eq)

lemma row_key_prefix [simp]:
  "has_prefix ASYNC_POOL_PREFIX (row_key V i ident)"
  "has_prefix (message_id_prefix (id_bytes V i)) (row_key V i ident)"
  by (auto simp: row_key_def async_key_def message_id_prefix_def has_prefix_iff)

lemma row_key_inj:
  assumes "varint_ok V" "id_ok n i" "id_ok n j"
  shows "row_key V i a = row_key V j b \<longleftrightarrow> i = j \<and> a = b"
  using id_bytes_prefix_free [OF assms, of "[a]" "[b]"] by (auto simp: row_key_def async_key_def)

lemma row_key_of_id_prefix:
  assumes "varint_ok V" "id_ok n i" "id_ok n j" "has_prefix (message_id_prefix (id_bytes V i)) (row_key V j b)"
  shows "i = j"
proof -
  obtain r where "id_bytes V i @ r = id_bytes V j @ [b]"
    using assms(4) by (auto simp: has_prefix_iff row_key_def async_key_def message_id_prefix_def)
  then show ?thesis using id_bytes_prefix_free [OF assms(1-3)] by blast
qed

lemma row_key_less: "row_key V i a < row_key V i b \<longleftrightarrow> a < b"
  by (simp add: row_key_def async_key_def append_less_iff)

lemma row_key_le: "row_key V i a \<le> row_key V i b \<longleftrightarrow> a \<le> b"
  using row_key_less [of V i b a] by (simp add: not_less [symmetric])

section \<open>Rows and cache agree\<close>

definition pool_db_ok :: "varint_lib \<Rightarrow> async_message_limits \<Rightarrow> (bytes, bytes) btree \<Rightarrow> message_cache \<Rightarrow> bool" where
  "pool_db_ok V C cf M \<longleftrightarrow> bt_wf cf \<and> bt_wf M
     \<and> (\<forall>i m. bt_get M i = Some m \<longrightarrow> id_ok (aml_thread_count C) i \<and> async_message_ok C True m)
     \<and> (\<forall>k v. has_prefix ASYNC_POOL_PREFIX k \<longrightarrow>
          (bt_get cf k = Some v \<longleftrightarrow>
             (\<exists>i m ident. bt_get M i = Some m \<and> k = row_key V i ident
                \<and> map_of (message_fields V m) ident = Some (Inr v))))"

lemma inj_async_key: "inj (async_key mid)"
  by (simp add: inj_def async_key_def)

text \<open>One change.\<close>

lemma message_field_get:
  assumes "varint_ok V" "async_message_ok C True m" "ident \<in> set all_idents"
  shows "\<exists>v. map_of (message_fields V m) ident = Some (Inr v)"
proof -
  obtain r where r: "map_of (message_fields V m) ident = Some r"
    using assms(3) map_of_message_fields_None [of V m ident] by blast
  then have "(ident, r) \<in> set (message_fields V m)" by (rule map_of_SomeD)
  then have "\<exists>v. snd (ident, r) = Inr v"
    using message_fields_Inr [OF assms(1,2)] unfolding fields_written_def list_all_iff by blast
  with r show ?thesis by simp
qed

lemma pool_db_okD:
  assumes "pool_db_ok V C cf M"
  shows "bt_wf cf" "bt_wf M"
    and "bt_get M i = Some m \<Longrightarrow> id_ok (aml_thread_count C) i"
    and "bt_get M i = Some m \<Longrightarrow> async_message_ok C True m"
    and "has_prefix ASYNC_POOL_PREFIX k \<Longrightarrow> bt_get cf k = Some v \<longleftrightarrow>
      (\<exists>i m ident. bt_get M i = Some m \<and> k = row_key V i ident \<and> map_of (message_fields V m) ident = Some (Inr v))"
  using assms unfolding pool_db_ok_def by blast+

text \<open>Replacing the rows of one identifier by those of a message.\<close>

lemma pool_db_ok_replace:
  assumes V: "varint_ok V" and ok: "pool_db_ok V C cf M" and wf: "bt_wf cf'"
    and i: "id_ok (aml_thread_count C) i" "async_message_ok C True m"
    and rows: "\<And>ident v. map_of (message_fields V m) ident = Some (Inr v) \<Longrightarrow> bt_get cf' (row_key V i ident) = Some v"
    and other: "\<And>k. (\<And>ident. ident \<in> set all_idents \<Longrightarrow> k \<noteq> row_key V i ident) \<Longrightarrow> bt_get cf' k = bt_get cf k"
  shows "pool_db_ok V C cf' (bt_insert i m M)"
  unfolding pool_db_ok_def
proof (intro conjI allI impI)
  note D = pool_db_okD [OF ok]
  show "bt_wf cf'" "bt_wf (bt_insert i m M)" using wf D by simp_all
  show "bt_get (bt_insert i m M) j = Some m' \<Longrightarrow> id_ok (aml_thread_count C) j"
    "bt_get (bt_insert i m M) j = Some m' \<Longrightarrow> async_message_ok C True m'" for j m'
    using i D(3) [of j m'] D(4) [of j m'] by (simp_all add: bt_get_insert split: if_splits)
  fix k v
  assume pre: "has_prefix ASYNC_POOL_PREFIX k"
  note inj = row_key_inj [OF V _ i(1)]
  show "bt_get cf' k = Some v \<longleftrightarrow> (\<exists>j m' ident. bt_get (bt_insert i m M) j = Some m' \<and> k = row_key V j ident
      \<and> map_of (message_fields V m') ident = Some (Inr v))"
  proof (cases "\<exists>ident \<in> set all_idents. k = row_key V i ident")
    case True
    then obtain ident where ident: "ident \<in> set all_idents" "k = row_key V i ident" by blast
    obtain w where w: "map_of (message_fields V m) ident = Some (Inr w)"
      using message_field_get [OF V i(2) ident(1)] by blast
    have same_row: "j = i \<and> ident' = ident \<and> m' = m"
      if "bt_get (bt_insert i m M) j = Some m'" "k = row_key V j ident'" for j m' ident'
    proof -
      have "id_ok (aml_thread_count C) j"
        using that(1) i(1) D(3) [of j m'] by (simp add: bt_get_insert split: if_splits)
      then have "j = i \<and> ident' = ident" using inj [of j ident' ident] that(2) ident(2) by simp
      with that(1) show ?thesis by (simp add: bt_get_insert)
    qed
    show ?thesis
    proof
      assume "bt_get cf' k = Some v"
      with rows [OF w] ident(2) w show "\<exists>j m' ident. bt_get (bt_insert i m M) j = Some m' \<and> k = row_key V j ident
          \<and> map_of (message_fields V m') ident = Some (Inr v)"
        by (intro exI [of _ i] exI [of _ m] exI [of _ ident]) (simp add: bt_get_insert)
    next
      assume "\<exists>j m' ident. bt_get (bt_insert i m M) j = Some m' \<and> k = row_key V j ident
          \<and> map_of (message_fields V m') ident = Some (Inr v)"
      then have "map_of (message_fields V m) ident = Some (Inr v)" using same_row by blast
      then show "bt_get cf' k = Some v" unfolding ident(2) by (rule rows)
    qed
  next
    case False
    then have same: "bt_get cf' k = bt_get cf k" using other by blast
    have "j \<noteq> i" if "k = row_key V j ident" "map_of (message_fields V m') ident = Some r" for j ident m' r
      using that False map_of_message_fields_None [of V m' ident] by auto
    then have "bt_get (bt_insert i m M) j = Some m' \<and> k = row_key V j ident
          \<and> map_of (message_fields V m') ident = Some (Inr v)
        \<longleftrightarrow> bt_get M j = Some m' \<and> k = row_key V j ident \<and> map_of (message_fields V m') ident = Some (Inr v)"
      for j m' ident
      by (cases "j = i") (auto simp: bt_get_insert)
    then show ?thesis unfolding same D(5) [OF pre] by simp
  qed
qed

lemma pool_db_ok_remove:
  assumes V: "varint_ok V" and ok: "pool_db_ok V C cf M" and wf: "bt_wf cf'" and i: "id_ok (aml_thread_count C) i"
    and rows: "\<And>ident. ident \<in> set all_idents \<Longrightarrow> bt_get cf' (row_key V i ident) = None"
    and other: "\<And>k. (\<And>ident. ident \<in> set all_idents \<Longrightarrow> k \<noteq> row_key V i ident) \<Longrightarrow> bt_get cf' k = bt_get cf k"
  shows "pool_db_ok V C cf' (bt_remove i M)"
  unfolding pool_db_ok_def
proof (intro conjI allI impI)
  note D = pool_db_okD [OF ok]
  show "bt_wf cf'" "bt_wf (bt_remove i M)" using wf D by simp_all
  show "bt_get (bt_remove i M) j = Some m' \<Longrightarrow> id_ok (aml_thread_count C) j"
    "bt_get (bt_remove i M) j = Some m' \<Longrightarrow> async_message_ok C True m'" for j m'
    using D(3) [of j m'] D(4) [of j m'] by (simp_all add: bt_get_remove split: if_splits)
  fix k v
  assume pre: "has_prefix ASYNC_POOL_PREFIX k"
  note inj = row_key_inj [OF V _ i]
  show "bt_get cf' k = Some v \<longleftrightarrow> (\<exists>j m' ident. bt_get (bt_remove i M) j = Some m' \<and> k = row_key V j ident
      \<and> map_of (message_fields V m') ident = Some (Inr v))"
  proof (cases "\<exists>ident \<in> set all_idents. k = row_key V i ident")
    case True
    then obtain ident where ident: "ident \<in> set all_idents" "k = row_key V i ident" by blast
    have "k \<noteq> row_key V j ident'" if "bt_get (bt_remove i M) j = Some m'" for j m' ident'
      using that D(3) [of j m'] inj [of j ident' ident] ident(2) by (auto simp: bt_get_remove split: if_splits)
    then show ?thesis using rows [OF ident(1)] ident(2) by auto
  next
    case False
    then have same: "bt_get cf' k = bt_get cf k" using other by blast
    have "j \<noteq> i" if "k = row_key V j ident" "map_of (message_fields V m') ident = Some r" for j ident m' r
      using that False map_of_message_fields_None [of V m' ident] by auto
    then have "bt_get (bt_remove i M) j = Some m' \<and> k = row_key V j ident
          \<and> map_of (message_fields V m') ident = Some (Inr v)
        \<longleftrightarrow> bt_get M j = Some m' \<and> k = row_key V j ident \<and> map_of (message_fields V m') ident = Some (Inr v)"
      for j m' ident
      by (cases "j = i") (auto simp: bt_get_remove)
    then show ?thesis unfolding same D(5) [OF pre] by simp
  qed
qed

text \<open>
  The view through a batch: \<open>batch_apply batch cf\<close> is what the state column contains once the batch is
  written.
\<close>

definition outside_pool_same :: "db_batch \<Rightarrow> db_batch \<Rightarrow> bool" where
  "outside_pool_same b b' \<longleftrightarrow> (\<forall>k. \<not> has_prefix ASYNC_POOL_PREFIX k \<longrightarrow> bt_get b' k = bt_get b k)"

lemma async_key_has_prefix: "has_prefix ASYNC_POOL_PREFIX (async_key mid ident)"
  by (simp add: async_key_def)

lemma put_rows_outside:
  "put_rows e (async_key mid) fs b = Inr b' \<Longrightarrow> bt_wf b \<Longrightarrow> distinct (map fst fs) \<Longrightarrow> outside_pool_same b b'"
  using put_rows_view(3) [OF _ _ _ inj_async_key] async_key_has_prefix unfolding outside_pool_same_def by metis

lemma distinct_all_idents: "distinct all_idents"
  by (simp add: all_idents_def)

lemma distinct_message_fields: "distinct (map fst (message_fields V m))"
  by (simp add: map_fst_message_fields distinct_all_idents)

lemma set_field_fst: "map fst (set_field j s x) = (if x = SOK_Keep then [] else [j])"
  by (cases x) (simp_all add: set_field_def)

lemma distinct_update_fields: "distinct (map fst (update_fields V u))"
  by (simp add: update_fields_def set_field_fst ident_defs)

lemma put_entry_ok:
  assumes V: "varint_ok V" and ok: "pool_db_ok V C (batch_apply b cf) M" and wf: "bt_wf b" "bt_wf cf"
    and i: "id_ok (aml_thread_count C) i" "async_message_ok C True m"
  shows "\<exists>b'. put_entry V i m b = Inr b' \<and> bt_wf b' \<and> outside_pool_same b b'
    \<and> pool_db_ok V C (batch_apply b' cf) (bt_insert i m M)"
proof -
  obtain b' where b': "put_rows MESSAGE_SER_ERROR (async_key (id_bytes V i)) (message_fields V m) b = Inr b'"
    using put_rows_total [OF message_fields_Inr [OF V i(2)], of MESSAGE_SER_ERROR "async_key (id_bytes V i)" b] by blast
  note view = put_rows_view [OF b' wf(1) distinct_message_fields inj_async_key]
  have "pool_db_ok V C (batch_apply b' cf) (bt_insert i m M)"
  proof (rule pool_db_ok_replace [OF V ok _ i])
    show "bt_wf (batch_apply b' cf)" using wf(2) by simp
    show "map_of (message_fields V m) ident = Some (Inr v) \<Longrightarrow> bt_get (batch_apply b' cf) (row_key V i ident) = Some v"
      for ident v
      using view(2) [of ident v] by (simp add: bt_get_batch_apply [OF view(1)] row_key_def)
    fix k
    assume "\<And>ident. ident \<in> set all_idents \<Longrightarrow> k \<noteq> row_key V i ident"
    then have "k \<noteq> async_key (id_bytes V i) ident" if "ident \<in> fst ` set (message_fields V m)" for ident
      using that map_fst_message_fields [of V m] by (metis list.set_map row_key_def)
    then have "bt_get b' k = bt_get b k" by (rule view(3))
    then show "bt_get (batch_apply b' cf) k = bt_get (batch_apply b cf) k"
      by (simp add: bt_get_batch_apply [OF view(1)] bt_get_batch_apply [OF wf(1)])
  qed
  moreover have "put_entry V i m b = Inr b'" by (simp add: put_entry_def async_message_id_ser_eq b')
  ultimately show ?thesis
    using view(1) put_rows_outside [OF b' wf(1) distinct_message_fields] by blast
qed

lemma update_entry_ok:
  assumes V: "varint_ok V" and ok: "pool_db_ok V C (batch_apply b cf) M" and wf: "bt_wf b" "bt_wf cf"
    and m: "bt_get M i = Some m" and u: "async_message_update_ok C True u"
  shows "\<exists>b'. update_entry V i u b = Inr b' \<and> bt_wf b' \<and> outside_pool_same b b'
    \<and> pool_db_ok V C (batch_apply b' cf) (bt_insert i (async_message_apply m u) M)"
proof -
  note D = pool_db_okD [OF ok]
  obtain b' where b': "put_rows MESSAGE_SER_ERROR (async_key (id_bytes V i)) (update_fields V u) b = Inr b'"
    using put_rows_total [OF update_fields_Inr [OF V u], of MESSAGE_SER_ERROR "async_key (id_bytes V i)" b] by blast
  note view = put_rows_view [OF b' wf(1) distinct_update_fields inj_async_key]
  have "pool_db_ok V C (batch_apply b' cf) (bt_insert i (async_message_apply m u) M)"
  proof (rule pool_db_ok_replace [OF V ok _ D(3) [OF m] async_message_ok_apply [OF D(4) [OF m] u]])
    show "bt_wf (batch_apply b' cf)" using wf(2) by simp
    show "bt_get (batch_apply b' cf) (row_key V i ident) = Some v"
      if "map_of (message_fields V (async_message_apply m u)) ident = Some (Inr v)" for ident v
    proof (cases "map_of (update_fields V u) ident")
      case (Some r)
      with that have "map_of (update_fields V u) ident = Some (Inr v)" by (simp add: map_of_message_fields_apply)
      then show ?thesis using view(2) [of ident v] by (simp add: bt_get_batch_apply [OF view(1)] row_key_def)
    next
      case None
      with that have old: "map_of (message_fields V m) ident = Some (Inr v)" by (simp add: map_of_message_fields_apply)
      have "bt_get b' (row_key V i ident) = bt_get b (row_key V i ident)"
        using None by (intro view(3)) (auto simp: row_key_def async_key_def map_of_eq_None_iff)
      moreover have "bt_get (batch_apply b cf) (row_key V i ident) = Some v"
        using D(5) [of "row_key V i ident" v] m old by auto
      ultimately show ?thesis
        by (simp add: bt_get_batch_apply [OF view(1)] bt_get_batch_apply [OF wf(1)])
    qed
    fix k
    assume out: "\<And>ident. ident \<in> set all_idents \<Longrightarrow> k \<noteq> row_key V i ident"
    have "k \<noteq> async_key (id_bytes V i) ident" if "ident \<in> fst ` set (update_fields V u)" for ident
      using that out [of ident] map_of_update_fields_outside [of ident V u]
      by (auto simp: row_key_def map_of_eq_None_iff)
    then have "bt_get b' k = bt_get b k" by (rule view(3))
    then show "bt_get (batch_apply b' cf) k = bt_get (batch_apply b cf) k"
      by (simp add: bt_get_batch_apply [OF view(1)] bt_get_batch_apply [OF wf(1)])
  qed
  moreover have "update_entry V i u b = Inr b'" by (simp add: update_entry_def async_message_id_ser_eq b')
  ultimately show ?thesis
    using view(1) put_rows_outside [OF b' wf(1) distinct_update_fields] by blast
qed

lemma delete_entry_ok:
  assumes V: "varint_ok V" and ok: "pool_db_ok V C (batch_apply b cf) M" and wf: "bt_wf b" "bt_wf cf"
    and i: "id_ok (aml_thread_count C) i"
  shows "\<exists>b'. delete_entry V i b = Inr b' \<and> bt_wf b' \<and> outside_pool_same b b'
    \<and> pool_db_ok V C (batch_apply b' cf) (bt_remove i M)"
proof -
  define b' where "b' = fold (\<lambda>ident b. delete_key b (row_key V i ident)) all_idents b"
  have b': "b' = fold (\<lambda>k b. delete_key b k) (map (row_key V i) all_idents) b"
    by (simp add: b'_def fold_map comp_def)
  have wf': "bt_wf b'" unfolding b' by (rule bt_wf_delete_keys [OF wf(1)])
  have get: "bt_get b' k = (if k \<in> row_key V i ` set all_idents then Some None else bt_get b k)" for k
    unfolding b' by (simp add: bt_get_delete_keys)
  have "delete_entry V i b = Inr b'"
    by (simp add: delete_entry_def async_message_id_ser_eq b'_def all_idents_def ident_defs row_key_def)
  moreover have "pool_db_ok V C (batch_apply b' cf) (bt_remove i M)"
    by (rule pool_db_ok_remove [OF V ok _ i])
      (auto simp: wf bt_get_batch_apply [OF wf'] bt_get_batch_apply [OF wf(1)] get)
  moreover have "outside_pool_same b b'" by (auto simp: outside_pool_same_def get)
  ultimately show ?thesis using wf' by blast
qed

text \<open>All changes of a slot.\<close>

definition change_ok :: "async_message_limits \<Rightarrow> message_cache \<Rightarrow> async_message_id \<times> async_change \<Rightarrow> bool" where
  "change_ok C M = (\<lambda>(i, c). id_ok (aml_thread_count C) i
     \<and> (case c of
          SUD_Set m \<Rightarrow> async_message_ok C True m
        | SUD_Update u \<Rightarrow> async_message_update_ok C True u \<and> bt_get M i \<noteq> None
        | SUD_Delete \<Rightarrow> True))"

definition change_effect :: "async_change option \<Rightarrow> async_message option \<Rightarrow> async_message option" where
  "change_effect c x = (case c of
     None \<Rightarrow> x
   | Some (SUD_Set m) \<Rightarrow> Some m
   | Some (SUD_Update u) \<Rightarrow> map_option (\<lambda>m. async_message_apply m u) x
   | Some SUD_Delete \<Rightarrow> None)"

lemma outside_pool_same_trans: "outside_pool_same a b \<Longrightarrow> outside_pool_same b c \<Longrightarrow> outside_pool_same a c"
  by (simp add: outside_pool_same_def)

lemma pool_apply_step:
  assumes "varint_ok V" "pool_db_ok V C (batch_apply b cf) M" "bt_wf b" "bt_wf cf" "change_ok C M (i, c)"
  shows "\<exists>M' b'. (\<forall>cs. pool_apply_changes_to_batch V ((i, c) # cs) (M, b) = pool_apply_changes_to_batch V cs (M', b'))
    \<and> bt_wf b' \<and> outside_pool_same b b' \<and> pool_db_ok V C (batch_apply b' cf) M'
    \<and> (\<forall>j. bt_get M' j = (if j = i then change_effect (Some c) (bt_get M i) else bt_get M j))"
proof (cases c)
  case (SUD_Set m)
  then obtain b' where "put_entry V i m b = Inr b'" "bt_wf b'" "outside_pool_same b b'"
      "pool_db_ok V C (batch_apply b' cf) (bt_insert i m M)"
    using put_entry_ok [OF assms(1-4)] assms(5) by (auto simp: change_ok_def)
  then show ?thesis
    by (intro exI [of _ "bt_insert i m M"] exI [of _ b']) (simp add: SUD_Set change_effect_def bt_get_insert)
next
  case (SUD_Update u)
  then obtain m where m: "bt_get M i = Some m" and u: "async_message_update_ok C True u"
    using assms(5) by (auto simp: change_ok_def)
  obtain b' where "update_entry V i u b = Inr b'" "bt_wf b'" "outside_pool_same b b'"
      "pool_db_ok V C (batch_apply b' cf) (bt_insert i (async_message_apply m u) M)"
    using update_entry_ok [OF assms(1-4) m u] by blast
  then show ?thesis
    by (intro exI [of _ "bt_insert i (async_message_apply m u) M"] exI [of _ b'])
      (simp add: SUD_Update change_effect_def bt_get_insert m)
next
  case SUD_Delete
  then obtain b' where "delete_entry V i b = Inr b'" "bt_wf b'" "outside_pool_same b b'"
      "pool_db_ok V C (batch_apply b' cf) (bt_remove i M)"
    using delete_entry_ok [OF assms(1-4)] assms(5) by (auto simp: change_ok_def)
  then show ?thesis
    by (intro exI [of _ "bt_remove i M"] exI [of _ b']) (simp add: SUD_Delete change_effect_def bt_get_remove)
qed

lemma pool_apply_changes_ok:
  assumes "varint_ok V" "pool_db_ok V C (batch_apply b cf) M" "bt_wf b" "bt_wf cf" "bt_wf changes"
    and "list_all (change_ok C M) changes"
  shows "\<exists>M' b'. pool_apply_changes_to_batch V changes (M, b) = Inr (M', b')
    \<and> bt_wf b' \<and> outside_pool_same b b' \<and> pool_db_ok V C (batch_apply b' cf) M'
    \<and> (\<forall>j. bt_get M' j = change_effect (bt_get changes j) (bt_get M j))"
  using assms(2,3,5,6)
proof (induction changes arbitrary: M b)
  case Nil
  then show ?case by (simp add: change_effect_def outside_pool_same_def)
next
  case (Cons e changes)
  obtain i c where e: "e = (i, c)" by (cases e)
  have step_ok: "change_ok C M (i, c)" using Cons.prems(4) by (simp add: e)
  obtain M1 b1 where eq: "\<And>cs. pool_apply_changes_to_batch V ((i, c) # cs) (M, b) = pool_apply_changes_to_batch V cs (M1, b1)"
    and 1: "bt_wf b1" "outside_pool_same b b1" "pool_db_ok V C (batch_apply b1 cf) M1"
    and get: "\<And>j. bt_get M1 j = (if j = i then change_effect (Some c) (bt_get M i) else bt_get M j)"
    using pool_apply_step [OF assms(1) Cons.prems(1,2) assms(4) step_ok] by blast
  have fresh: "bt_get changes i = None" and wf: "bt_wf changes"
    using Cons.prems(3) by (auto simp: e bt_wf_Cons bt_get_eq_None)
  have "change_ok C M1 x" if "x \<in> set changes" for x
  proof -
    have "fst x \<noteq> i" using that fresh by (auto simp: bt_get_eq_None)
    then have "bt_get M1 (fst x) = bt_get M (fst x)" by (simp add: get)
    moreover have "change_ok C M x" using that Cons.prems(4) by (simp add: list_all_iff)
    ultimately show ?thesis by (cases x) (simp add: change_ok_def split: set_update_or_delete.splits)
  qed
  then have "list_all (change_ok C M1) changes" by (simp add: list_all_iff)
  then obtain M' b' where "pool_apply_changes_to_batch V changes (M1, b1) = Inr (M', b')"
      and 2: "bt_wf b'" "outside_pool_same b1 b'" "pool_db_ok V C (batch_apply b' cf) M'"
      and get': "\<And>j. bt_get M' j = change_effect (bt_get changes j) (bt_get M1 j)"
    using Cons.IH [OF 1(3) 1(1) wf] by blast
  then have "pool_apply_changes_to_batch V (e # changes) (M, b) = Inr (M', b')" by (simp add: e eq)
  moreover have "bt_get M' j = change_effect (bt_get (e # changes) j) (bt_get M j)" for j
    using fresh by (cases "j = i") (simp_all add: e get get' change_effect_def)
  ultimately show ?case using 2 outside_pool_same_trans [OF 1(2) 2(2)] by blast
qed

section \<open>Recomputing the cache\<close>

lemma row_key_append: "row_key V i ident = message_id_prefix (id_bytes V i) @ [ident]"
  by (simp add: row_key_def async_key_def message_id_prefix_def)

lemma message_rows:
  assumes V: "varint_ok V" and ok: "pool_db_ok V C cf M" and m: "bt_get M i = Some m"
  shows "prefix_rows (message_id_prefix (id_bytes V i)) cf
    = field_rows (message_id_prefix (id_bytes V i)) (message_fields V m)"
proof (rule prefix_rows_fields)
  note D = pool_db_okD [OF ok]
  show "bt_wf cf" by (rule D(1))
  show "sorted_wrt (<) (map fst (message_fields V m))" by (simp add: map_fst_message_fields all_idents_def)
  show "fields_written (message_fields V m)" by (rule message_fields_Inr [OF V D(4) [OF m]])
  fix ident v
  have "i = j \<and> ident = ident'" if "row_key V i ident = row_key V j ident'" "bt_get M j = Some m'" for j ident' m'
    using that row_key_inj [OF V D(3) [OF m] D(3) [OF that(2)]] by blast
  then have "(\<exists>j m' ident'. bt_get M j = Some m' \<and> row_key V i ident = row_key V j ident'
      \<and> map_of (message_fields V m') ident' = Some (Inr v)) \<longleftrightarrow> map_of (message_fields V m) ident = Some (Inr v)"
    using m by (metis option.inject)
  then show "bt_get cf (message_id_prefix (id_bytes V i) @ [ident]) = Some v
      \<longleftrightarrow> map_of (message_fields V m) ident = Some (Inr v)"
    using D(5) [OF row_key_prefix(1), of V i ident v] by (simp add: row_key_append)
next
  note D = pool_db_okD [OF ok]
  fix k v
  assume k: "has_prefix (message_id_prefix (id_bytes V i)) k" "bt_get cf k = Some v"
  then have "has_prefix ASYNC_POOL_PREFIX k" by (auto simp: has_prefix_iff message_id_prefix_def)
  then obtain j m' ident where j: "bt_get M j = Some m'" "k = row_key V j ident" using D(5) k(2) by blast
  then have "i = j" using row_key_of_id_prefix [OF V D(3) [OF m] D(3) [OF j(1)]] k(1) by blast
  then show "\<exists>ident. k = message_id_prefix (id_bytes V i) @ [ident]" using j(2) by (auto simp: row_key_append)
qed

lemma load_message_ok:
  assumes V: "varint_ok V" and ok: "pool_db_ok V C cf M" and m: "bt_get M i = Some m"
  shows "load_message V C cf i = Inr (Some m)"
proof -
  note D = pool_db_okD [OF ok]
  have "async_message_deser V C True (concat (map (\<lambda>f. projr (snd f)) (message_fields V m)) @ []) = Some ([], m)"
    by (rule codec.deser_ser [OF canonical_codec.axioms(1) [OF codec_async_message [OF V]] D(4) [OF m]
          message_fields_concat [OF message_fields_Inr [OF V D(4) [OF m]]]])
  then show ?thesis
    by (simp add: load_message_def async_message_id_ser_eq Let_def message_rows [OF assms] concat_field_rows)
qed

lemma filter_from_present:
  "bt_wf cf \<Longrightarrow> bt_get cf k = Some v \<Longrightarrow> filter (\<lambda>e. k \<le> fst e) cf = (k, v) # filter (\<lambda>e. k < fst e) cf"
proof (induction cf)
  case (Cons e cf)
  obtain k' v' where e: "e = (k', v')" by (cases e)
  show ?case
  proof (cases "k = k'")
    case True
    then have "\<forall>x \<in> set cf. k < fst x" using Cons.prems(1) by (auto simp: e bt_wf_Cons)
    then have "filter (\<lambda>e. k \<le> fst e) cf = cf" "filter (\<lambda>e. k < fst e) cf = cf"
      by (auto simp: filter_id_conv less_imp_le)
    then show ?thesis using True Cons.prems(2) by (simp add: e)
  next
    case False
    then have get: "bt_get cf k = Some v" using Cons.prems(2) by (simp add: e)
    then have "k \<in> fst ` set cf" using bt_get_eq_None [of cf k] by auto
    then have "k' < k" using Cons.prems(1) by (auto simp: e bt_wf_Cons)
    then show ?thesis using Cons.IH [OF _ get] Cons.prems(1) by (auto simp: e bt_wf_Cons)
  qed
qed simp

lemma next_entry_after:
  assumes "varint_ok V" "pool_db_ok V C cf M" "bt_get M i = Some m"
  shows "next_entry (Some (id_bytes V i)) cf
    = (case filter (\<lambda>e. row_key V i 12 < fst e) cf of [] \<Rightarrow> None | e # _ \<Rightarrow> Some e)"
proof -
  note D = pool_db_okD [OF assms(2)]
  obtain v where "map_of (message_fields V m) 12 = Some (Inr v)"
    using message_field_get [OF assms(1) D(4) [OF assms(3)], of 12] by (auto simp: all_idents_def)
  then have "bt_get cf (row_key V i 12) = Some v" using D(5) [of "row_key V i 12" v] assms(3) by auto
  from filter_from_present [OF D(1) this] show ?thesis
    by (simp add: next_entry_def rows_from_def CAN_BE_EXECUTED_IDENT_def row_key_def split: list.splits)
qed

lemma pool_row_present:
  assumes "varint_ok V" "pool_db_ok V C cf M" "bt_get M i = Some m" "ident \<in> set all_idents"
  shows "row_key V i ident \<in> fst ` set cf"
proof -
  note D = pool_db_okD [OF assms(2)]
  obtain v where "map_of (message_fields V m) ident = Some (Inr v)"
    using message_field_get [OF assms(1) D(4) [OF assms(3)] assms(4)] by blast
  then have "bt_get cf (row_key V i ident) = Some v" using D(5) [of "row_key V i ident" v] assms(3) by auto
  then show ?thesis using bt_get_eq_None [of cf "row_key V i ident"] by auto
qed

lemma filter_min:
  assumes "bt_wf cf" "filter (\<lambda>e. P (fst e)) cf = e # es" "k \<in> fst ` set cf" "P k"
  shows "fst e \<le> k"
proof -
  have "k \<in> fst ` set (e # es)" using assms(3,4) unfolding assms(2) [symmetric] by auto
  moreover have "bt_wf (e # es)" using bt_wf_filter [OF assms(1), of "\<lambda>e. P (fst e)"] unfolding assms(2) .
  ultimately show ?thesis by (cases e) (auto simp: bt_wf_Cons less_imp_le)
qed

lemma bt_retain_all: "bt_wf M \<Longrightarrow> (\<And>i m. bt_get M i = Some m \<Longrightarrow> P i) \<Longrightarrow> bt_retain (\<lambda>i _. P i) M = M"
  by (rule bt_eqI) (auto simp: bt_get_retain split: option.splits)

text \<open>Adding the message whose rows come next.\<close>

lemma recompute_step_cache:
  assumes V: "varint_ok V" and ok: "pool_db_ok V C cf M" and j: "bt_get M j = Some m" "k = row_key V j ident"
    and up: "\<And>k'. k \<le> k' \<Longrightarrow> P k'" and min: "\<And>l n. bt_get M l = Some n \<Longrightarrow> P (row_key V l 12) \<Longrightarrow> k \<le> row_key V l 12"
    and k12: "k \<le> row_key V j 12"
  shows "bt_insert j m (bt_retain (\<lambda>i _. \<not> P (row_key V i 12)) M)
    = bt_retain (\<lambda>i _. \<not> row_key V j 12 < row_key V i 12) M" (is "?a = ?b")
proof (rule bt_eqI)
  note D = pool_db_okD [OF ok]
  show "bt_wf ?a" "bt_wf ?b" using D(2) by simp_all
  fix l
  have "P (row_key V l 12) \<longleftrightarrow> row_key V j 12 < row_key V l 12" if l: "bt_get M l = Some n" "l \<noteq> j" for n
  proof
    assume P: "P (row_key V l 12)"
    have False if "row_key V l 12 \<le> row_key V j 12"
      using has_prefix_between [OF _ row_key_prefix(2) min [OF l(1) P] that]
        row_key_of_id_prefix [OF V D(3) [OF j(1)] D(3) [OF l(1)]] l(2) by (auto simp: j(2))
    then show "row_key V j 12 < row_key V l 12" by (meson not_less)
  next
    assume "row_key V j 12 < row_key V l 12"
    then show "P (row_key V l 12)" using k12 up by (meson less_imp_le order_trans)
  qed
  then show "bt_get ?a l = bt_get ?b l"
    by (cases "l = j") (auto simp: bt_get_insert bt_get_retain [OF D(2)] j(1) split: option.splits)
qed

text \<open>The loop from any point: the messages before it are in the cache, the others are still to come.\<close>

lemma recompute_from:
  assumes V: "varint_ok V" and ok: "pool_db_ok V C cf M"
    and up: "\<And>k k'. P k \<Longrightarrow> k \<le> k' \<Longrightarrow> P k'" and low: "\<And>k. P k \<Longrightarrow> ASYNC_POOL_PREFIX \<le> k"
    and nxt: "next_entry start cf = (case filter (\<lambda>e. P (fst e)) cf of [] \<Rightarrow> None | e # _ \<Rightarrow> Some e)"
  shows "recompute_loop V C cf start (bt_retain (\<lambda>i _. \<not> P (row_key V i 12)) M) = Some (Inr M)"
  using up low nxt
proof (induction "length (filter (\<lambda>e. P (fst e)) cf)" arbitrary: P start rule: less_induct)
  case less
  note D = pool_db_okD [OF ok]
  have present: "row_key V i 12 \<in> fst ` set cf" if "bt_get M i = Some m" for i m
    using pool_row_present [OF V ok that] by (simp add: all_idents_def)
  show ?case
  proof (cases "filter (\<lambda>e. P (fst e)) cf")
    case Nil
    then have "\<not> P (row_key V i 12)" if "bt_get M i = Some m" for i m
      using present [OF that] by (auto simp: filter_empty_conv)
    then have "bt_retain (\<lambda>i _. \<not> P (row_key V i 12)) M = M" by (rule bt_retain_all [OF D(2)])
    then show ?thesis using less.prems(3) Nil by (subst recompute_loop.simps) simp
  next
    case (Cons e es)
    obtain k v where e: "e = (k, v)" by (cases e)
    have k: "P k" "(k, v) \<in> set cf" using Cons by (auto simp: e filter_eq_Cons_iff)
    have min: "k \<le> k'" if "k' \<in> fst ` set cf" "P k'" for k'
      using filter_min [OF D(1) Cons that] by (simp add: e)
    have nxt: "next_entry start cf = Some (k, v)" using less.prems(3) Cons by (simp add: e)
    show ?thesis
    proof (cases "has_prefix ASYNC_POOL_PREFIX k")
      case False
      have "\<not> P (row_key V i 12)" if "bt_get M i = Some m" for i m
        using has_prefix_contiguous [OF less.prems(2) [OF k(1)] False row_key_prefix(1), of V i 12]
          min [OF present [OF that]] by auto
      then have "bt_retain (\<lambda>i _. \<not> P (row_key V i 12)) M = M" by (rule bt_retain_all [OF D(2)])
      then show ?thesis using nxt False by (subst recompute_loop.simps) simp
    next
      case True
      have "bt_get cf k = Some v" using k(2) by (simp add: bt_get_eq_Some [OF D(1)])
      then obtain j m ident where j: "bt_get M j = Some m" "k = row_key V j ident"
        and ident: "map_of (message_fields V m) ident = Some (Inr v)"
        using D(5) [OF True] by blast
      have "ident \<in> set all_idents" using ident map_of_message_fields_None [of V m ident] by auto
      then have "ident \<le> 12" by (auto simp: all_idents_def)
      then have k12: "k \<le> row_key V j 12" by (simp add: j(2) row_key_le)
      have k': "drop (length ASYNC_POOL_PREFIX) k = id_bytes V j @ [ident]"
        by (simp add: j(2) row_key_def async_key_def)
      define P' where "P' = (\<lambda>x. row_key V j 12 < x)"
      have "bt_insert j m (bt_retain (\<lambda>i _. \<not> P (row_key V i 12)) M) = bt_retain (\<lambda>i _. \<not> P' (row_key V i 12)) M"
        unfolding P'_def using present min k12 less.prems(1) [OF k(1)]
        by (intro recompute_step_cache [OF V ok j(1), of k ident]) (auto simp: j(2))
      moreover have "recompute_loop V C cf (Some (id_bytes V j)) (bt_retain (\<lambda>i _. \<not> P' (row_key V i 12)) M) = Some (Inr M)"
      proof (rule less.hyps)
        have "filter (\<lambda>e. P' (fst e)) cf = filter (\<lambda>e. P' (fst e)) (filter (\<lambda>e. P (fst e)) cf)"
          unfolding filter_filter P'_def using k12 less.prems(1) [OF k(1)]
          by (intro filter_cong refl) (meson less_imp_le order_trans)
        also have "\<dots> = filter (\<lambda>e. P' (fst e)) es" using k12 by (simp add: Cons e P'_def)
        finally show "length (filter (\<lambda>e. P' (fst e)) cf) < length (filter (\<lambda>e. P (fst e)) cf)"
          by (simp add: Cons le_imp_less_Suc)
        show "P' x \<Longrightarrow> x \<le> y \<Longrightarrow> P' y" for x y by (simp add: P'_def)
        show "P' x \<Longrightarrow> ASYNC_POOL_PREFIX \<le> x" for x
          using has_prefix_ge [OF row_key_prefix(1), of V j 12] by (simp add: P'_def)
        show "next_entry (Some (id_bytes V j)) cf = (case filter (\<lambda>e. P' (fst e)) cf of [] \<Rightarrow> None | e # _ \<Rightarrow> Some e)"
          unfolding P'_def by (rule next_entry_after [OF V ok j(1)])
      qed
      ultimately show ?thesis
        using nxt True k' id_deser_bytes [OF V D(3) [OF j(1)], of "[ident]"] load_message_ok [OF V ok j(1)]
        by (subst recompute_loop.simps) simp
    qed
  qed
qed

lemma recompute_message_cache_ok:
  assumes "varint_ok V" "pool_db_ok V C cf M"
  shows "recompute_message_cache V C cf = Some (Inr M)"
proof -
  have "bt_retain (\<lambda>i _. \<not> ASYNC_POOL_PREFIX \<le> row_key V i 12) M = []"
    using has_prefix_ge [OF row_key_prefix(1)] by (auto simp: bt_retain_def filter_empty_conv)
  with recompute_from [OF assms, of "\<lambda>k. ASYNC_POOL_PREFIX \<le> k" None] show ?thesis
    by (force simp: recompute_message_cache_def next_entry_def rows_from_def split: list.splits)
qed

section \<open>Validity of rows\<close>

text \<open>The encoding that the integer package documents.\<close>

definition varint_leb :: "varint_lib \<Rightarrow> bool" where
  "varint_leb V \<longleftrightarrow> varint_ok V \<and> (\<forall>w n. venc V w n = leb128 n)"

lemma varint_leb_example: "varint_leb example_varint"
  by (simp add: varint_leb_def varint_ok_example) (simp add: example_varint_def)

lemma key_value_valid_row:
  "varint_ok V \<Longrightarrow> id_ok (aml_thread_count C) i \<Longrightarrow>
     pool_is_key_value_valid V C (row_key V i ident) v = field_value_valid V C ident v"
  using id_deser_bytes [of V "aml_thread_count C" i "[ident]"] row_key_prefix(1) [of V i ident]
  by (simp add: pool_is_key_value_valid_def) (simp add: row_key_def async_key_def)

lemma field_value_valid_other:
  assumes "varint_ok V" "async_message_ok C True m" "ident \<noteq> FUNCTION_IDENT"
    and "map_of (message_fields V m) ident = Some (Inr v)"
  shows "field_value_valid V C ident v"
  using assms(2-4) unfolding message_fields_def async_message_ok_def
  by (auto simp: field_value_valid_def ident_defs
      intro: message_codecs [OF assms(1), THEN exhausts_ser] exhausts_ser [OF bool_codec.canonical_codec_axioms]
      split: if_splits)

lemma function_row:
  assumes "varint_leb V" "function_ok C f"
  shows "string_u16_ser V f = Inr (leb128 (length f) @ f)"
proof -
  have "length f < 2 ^ 16" using assms(2) by (simp add: function_ok_eq)
  with assms(1) show ?thesis by (simp add: string_u16_ser_def varint_ser_def varint_leb_def unat_of_nat)
qed

lemma field_value_valid_function:
  assumes "varint_leb V" "function_ok C f" "length f < 256" "string_u16_ser V f = Inr v"
  shows "field_value_valid V C FUNCTION_IDENT v \<longleftrightarrow> length f < 128"
proof -
  have v: "v = leb128 (length f) @ f" using function_row [OF assms(1,2)] assms(4) by simp
  have utf8: "utf8_valid f" using assms(2) by (simp add: function_ok_def)
  show ?thesis
  proof (cases "length f < 128")
    case True
    then have "leb128 (length f) = [of_nat (length f)]" by (subst leb128.simps) simp
    with True utf8 show ?thesis by (simp add: v field_value_valid_def ident_defs unat_of_nat)
  next
    case False
    define n where "n = length f - 128"
    have n: "length f = 128 + n" "n < 128" using False assms(3) by (simp_all add: n_def)
    have "leb128 (128 + n) = of_nat (128 + n) # leb128 1"
      using n(2) by (subst leb128.simps) (simp del: of_nat_add)
    also have "leb128 1 = [1]" by (subst leb128.simps) simp
    finally have "leb128 (length f) = [of_nat (length f), 1]" by (simp add: n(1) del: of_nat_add)
    with False assms(3) show ?thesis by (simp add: v field_value_valid_def ident_defs unat_of_nat)
  qed
qed

section \<open>Properties\<close>

text \<open>C24. Applying the changes of a slot to the asynchronous pool succeeds, changes the cached messages as
  the changes say and no database row outside the pool, and the cache recomputed from the database that
  results is the updated cache: a node that restarts or bootstraps has the pool of the others.\<close>

theorem async_pool_recomputed:
  assumes "varint_ok V" "pool_db_ok V C (batch_apply b cf) M" "bt_wf b" "bt_wf cf" "bt_wf changes"
    and "list_all (change_ok C M) changes"
  shows "\<exists>M' b'. pool_apply_changes_to_batch V changes (M, b) = Inr (M', b')
    \<and> (\<forall>i. bt_get M' i = change_effect (bt_get changes i) (bt_get M i))
    \<and> outside_pool_same b b'
    \<and> pool_db_ok V C (batch_apply b' cf) M'
    \<and> recompute_message_cache V C (batch_apply b' cf) = Some (Inr M')"
proof -
  obtain M' b' where "pool_apply_changes_to_batch V changes (M, b) = Inr (M', b')"
      "\<forall>j. bt_get M' j = change_effect (bt_get changes j) (bt_get M j)" "outside_pool_same b b'"
      and ok: "pool_db_ok V C (batch_apply b' cf) M'"
    using pool_apply_changes_ok [OF assms] by blast
  with recompute_message_cache_ok [OF assms(1) ok] show ?thesis by blast
qed

definition example_limits :: async_message_limits where
  "example_limits = \<lparr>aml_thread_count = 32, aml_max_function_length = 255,
     aml_max_function_params_length = 1000, aml_max_key_length = 255\<rparr>"

definition example_message :: async_message where
  "example_message = async_message_new (Slot 1 0) 0 (Address_User (replicate 32 7)) (Address_SC (replicate 32 8))
     [102] 10 0 0 (Slot 1 0) (Slot 2 0) [1, 2] None None"

lemma example_message_ok: "async_message_ok example_limits for_db example_message"
  by (simp add: async_message_ok_def example_limits_def example_message_def async_message_new_def slot_ok_def
      address_ok_def HASH_SIZE_BYTES_def function_ok_def function_params_ok_def)

theorem async_pool_recomputed_witness:
  "\<exists>M' b'. pool_apply_changes_to_batch example_varint [(AsyncMessageId 0 (Slot 1 0) 0, SUD_Set example_message)] ([], [])
       = Inr (M', b')
     \<and> bt_get M' (AsyncMessageId 0 (Slot 1 0) 0) = Some example_message
     \<and> recompute_message_cache example_varint example_limits (batch_apply b' []) = Some (Inr M')"
proof -
  have "pool_db_ok example_varint example_limits (batch_apply [] []) []"
    by (simp add: pool_db_ok_def batch_apply_def)
  moreover have "id_ok (aml_thread_count example_limits) (AsyncMessageId 0 (Slot 1 0) 0)"
    by (simp add: id_ok_def example_limits_def)
  ultimately show ?thesis
    using async_pool_recomputed [of example_varint example_limits "[]" "[]" "[]"
        "[(AsyncMessageId 0 (Slot 1 0) 0, SUD_Set example_message)]"]
    by (auto simp: varint_ok_example change_ok_def example_message_ok bt_wf_Cons change_effect_def)
qed

text \<open>C26. Every row that the pool writes is accepted by the validity check that runs after a bootstrap,
  except the rows of function names of 128 bytes or more: the check takes the first byte as the whole
  length, while the length of such names takes two bytes. Names of up to 255 bytes can be emitted.\<close>

theorem pool_rows_accepted:
  assumes "varint_leb V" "async_message_ok C True m" "id_ok (aml_thread_count C) i"
    and "map_of (message_fields V m) ident = Some (Inr v)" "length (am_function m) < 256"
  shows "pool_is_key_value_valid V C (row_key V i ident) v
    \<longleftrightarrow> ident \<noteq> FUNCTION_IDENT \<or> length (am_function m) < 128"
proof (cases "ident = FUNCTION_IDENT")
  case True
  then have "string_u16_ser V (am_function m) = Inr v"
    using assms(4) by (simp add: message_fields_def ident_defs)
  with True assms show ?thesis
    using field_value_valid_function [OF assms(1) _ assms(5)]
    by (simp add: key_value_valid_row varint_leb_def async_message_ok_def)
next
  case False
  with assms show ?thesis
    using field_value_valid_other [OF _ assms(2) False assms(4)] by (simp add: key_value_valid_row varint_leb_def)
qed

theorem pool_rows_accepted_witness:
  "\<not> pool_is_key_value_valid example_varint example_limits
       (row_key example_varint (AsyncMessageId 0 (Slot 1 0) 0) FUNCTION_IDENT)
       (leb128 130 @ replicate 130 102)"
proof -
  let ?m = "example_message\<lparr>am_function := replicate 130 102\<rparr>"
  have "utf8_valid (replicate n 102)" for n by (induction n) auto
  then have ok: "async_message_ok example_limits True ?m"
    using example_message_ok [of True]
    by (simp add: async_message_ok_def function_ok_def example_limits_def)
  then have "string_u16_ser example_varint (am_function ?m) = Inr (leb128 130 @ replicate 130 102)"
    using function_row [OF varint_leb_example, of example_limits "am_function ?m"]
    by (simp add: async_message_ok_def)
  then have "map_of (message_fields example_varint ?m) FUNCTION_IDENT = Some (Inr (leb128 130 @ replicate 130 102))"
    by (simp add: message_fields_def ident_defs)
  then show ?thesis
    using pool_rows_accepted [OF varint_leb_example ok, of "AsyncMessageId 0 (Slot 1 0) 0" FUNCTION_IDENT]
    by (simp add: id_ok_def example_limits_def)
qed

end
