(* ===== verification/Massa_Active_History.thy ===== *)
theory Massa_Active_History
  imports Massa_Executed Massa_PoS_Changes Massa_Async_Pool Massa_Deferred_Calls
begin

text \<open>
  The changes of a slot, \<^verbatim>\<open>massa-final-state/src/state_changes.rs\<close>, and the history of the slots that are
  executed but not final, \<^verbatim>\<open>massa-execution-worker/src/active_history.rs\<close>.

  The readers search the history from the newest slot.  They are shown to read the state that results
  from applying the changes of the history, oldest first, to the final state.  The positions of slots and
  cycles in the history are related to the global slot number.  Of the output of a slot the record has
  the fields that the history reads.
\<close>

section \<open>State changes and history\<close>

record state_changes =
  st_ledger_changes :: ledger_changes
  st_async_pool_changes :: async_pool_changes
  st_deferred_call_changes :: registry_changes
  st_pos_changes :: pos_changes
  st_executed_ops_changes :: executed_ops_changes
  st_executed_denunciations_changes :: executed_denunciations_changes
  st_execution_trail_hash_change :: "bytes set_or_keep"

definition state_changes_default :: state_changes where
  "state_changes_default =
     \<lparr>st_ledger_changes = Map.empty, st_async_pool_changes = [], st_deferred_call_changes = registry_changes_default,
      st_pos_changes = pos_changes_default, st_executed_ops_changes = [], st_executed_denunciations_changes = [],
      st_execution_trail_hash_change = SOK_Keep\<rparr>"

record execution_output =
  eo_slot :: slot
  eo_state_changes :: state_changes

type_synonym active_history = "execution_output list"

datatype 'a history_search_result = Present 'a | Absent | NoInfo

datatype slot_index_position = PosPast | PosFuture | PosFound nat | PosNoHistory

abbreviation newest :: "(execution_output \<Rightarrow> 'b option) \<Rightarrow> active_history \<Rightarrow> 'b option" where
  "newest f H \<equiv> find_map f (rev H)"

definition or_no_info :: "'a history_search_result option \<Rightarrow> 'a history_search_result" where
  "or_no_info r = (case r of Some x \<Rightarrow> x | None \<Rightarrow> NoInfo)"

definition fetch_executed_op :: "active_history \<Rightarrow> operation_id \<Rightarrow> unit history_search_result" where
  "fetch_executed_op H op_id = or_no_info (newest (\<lambda>h.
     if bt_contains (st_executed_ops_changes (eo_state_changes h)) op_id then Some (Present ()) else None) H)"

definition fetch_executed_denunciation :: "active_history \<Rightarrow> denunciation_index \<Rightarrow> unit history_search_result" where
  "fetch_executed_denunciation H de_idx = or_no_info (newest (\<lambda>h.
     if de_idx \<in> set (st_executed_denunciations_changes (eo_state_changes h)) then Some (Present ()) else None) H)"

definition fetch_balance :: "active_history \<Rightarrow> address \<Rightarrow> amount history_search_result" where
  "fetch_balance H addr = or_no_info (newest (\<lambda>h.
     case st_ledger_changes (eo_state_changes h) addr of
       Some (SUD_Set v) \<Rightarrow> Some (Present (le_balance v))
     | Some (SUD_Update u) \<Rightarrow> (case leu_balance u of SOK_Set v \<Rightarrow> Some (Present v) | SOK_Keep \<Rightarrow> None)
     | Some SUD_Delete \<Rightarrow> Some Absent
     | None \<Rightarrow> None) H)"

definition fetch_bytecode :: "active_history \<Rightarrow> address \<Rightarrow> bytes history_search_result" where
  "fetch_bytecode H addr = or_no_info (newest (\<lambda>h.
     case st_ledger_changes (eo_state_changes h) addr of
       Some (SUD_Set v) \<Rightarrow> Some (Present (le_bytecode v))
     | Some (SUD_Update u) \<Rightarrow> (case leu_bytecode u of SOK_Set v \<Rightarrow> Some (Present v) | SOK_Keep \<Rightarrow> None)
     | Some SUD_Delete \<Rightarrow> Some Absent
     | None \<Rightarrow> None) H)"

definition fetch_active_history_data_entry :: "active_history \<Rightarrow> address \<Rightarrow> bytes \<Rightarrow> bytes history_search_result" where
  "fetch_active_history_data_entry H addr key = or_no_info (newest (\<lambda>h.
     case st_ledger_changes (eo_state_changes h) addr of
       Some (SUD_Set e) \<Rightarrow>
         (case fmlookup (le_datastore e) key of Some v \<Rightarrow> Some (Present v) | None \<Rightarrow> Some Absent)
     | Some (SUD_Update u) \<Rightarrow>
         (case fmlookup (leu_datastore u) key of
            Some (SOD_Set v) \<Rightarrow> Some (Present v) | Some SOD_Delete \<Rightarrow> Some Absent | None \<Rightarrow> None)
     | Some SUD_Delete \<Rightarrow> Some Absent
     | None \<Rightarrow> None) H)"

definition fetch_roll_count :: "active_history \<Rightarrow> address \<Rightarrow> u64 option" where
  "fetch_roll_count H addr = newest (\<lambda>h. roll_changes (st_pos_changes (eo_state_changes h)) addr) H"

definition get_all_deferred_credits_until :: "active_history \<Rightarrow> slot \<Rightarrow> deferred_credits" where
  "get_all_deferred_credits_until H slot =
     foldl (\<lambda>acc e. dc_extend acc (dc_get_slot_range (Unbounded, Included slot)
       (pos_changes.deferred_credits (st_pos_changes (eo_state_changes e))))) dc_new H"

definition get_address_deferred_credit_for :: "active_history \<Rightarrow> address \<Rightarrow> slot \<Rightarrow> amount option" where
  "get_address_deferred_credit_for H addr slot =
     newest (\<lambda>h. get_address_credits_for_slot (pos_changes.deferred_credits (st_pos_changes (eo_state_changes h))) addr slot) H"

definition get_execution_trail_hash :: "active_history \<Rightarrow> bytes history_search_result" where
  "get_execution_trail_hash H = or_no_info (newest (\<lambda>h.
     case st_execution_trail_hash_change (eo_state_changes h) of SOK_Set hash \<Rightarrow> Some (Present hash) | SOK_Keep \<Rightarrow> None) H)"

definition get_slot_index :: "active_history \<Rightarrow> slot \<Rightarrow> u8 \<Rightarrow> slot_index_position" where
  "get_slot_index H slot thread_count =
     (case H of
        [] \<Rightarrow> PosNoHistory
      | itm # _ \<Rightarrow>
          if slot < eo_slot itm then PosPast
          else case slots_since slot (eo_slot itm) thread_count of
            Inl _ \<Rightarrow> PosPast
          | Inr d \<Rightarrow> if length H \<le> unat d then PosFuture else PosFound (unat d))"

definition truncate_from :: "slot \<Rightarrow> u8 \<Rightarrow> active_history \<Rightarrow> active_history" where
  "truncate_from slot thread_count H =
     (case get_slot_index H slot thread_count of
        PosPast \<Rightarrow> []
      | PosFound index \<Rightarrow> take index H
      | _ \<Rightarrow> H)"

definition find_cycle_indices :: "active_history \<Rightarrow> u64 \<Rightarrow> u64 \<Rightarrow> u8 \<Rightarrow> (nat \<times> nat) \<times> bool \<times> bool" where
  "find_cycle_indices H cycle periods_per_cycle thread_count =
     (let first_index = (case new_first_of_cycle cycle periods_per_cycle of
            Inl _ \<Rightarrow> PosFuture | Inr s \<Rightarrow> get_slot_index H s thread_count);
          last_index = (case new_last_of_cycle cycle periods_per_cycle thread_count of
            Inl _ \<Rightarrow> PosFuture | Inr s \<Rightarrow> get_slot_index H s thread_count)
      in case (first_index, last_index) of
           (PosNoHistory, _) \<Rightarrow> ((0, 0), True, True)
         | (_, PosNoHistory) \<Rightarrow> ((0, 0), True, True)
         | (PosFuture, _) \<Rightarrow> ((0, 0), False, True)
         | (_, PosPast) \<Rightarrow> ((0, 0), True, False)
         | (PosPast, PosFuture) \<Rightarrow> ((0, length H), True, True)
         | (PosPast, PosFound idx) \<Rightarrow> ((0, idx + 1), True, False)
         | (PosFound idx, PosFuture) \<Rightarrow> ((idx, length H), False, True)
         | (PosFound idx1, PosFound idx2) \<Rightarrow> ((idx1, idx2 + 1), False, False))"

fun ops_exec_status_loop ::
    "execution_output list \<Rightarrow> operation_id set \<Rightarrow> (operation_id \<rightharpoonup> bool) \<Rightarrow> operation_id \<rightharpoonup> bool" where
  "ops_exec_status_loop [] to_find found = found"
| "ops_exec_status_loop (h # hs) to_find found =
     (let ops = bt_get (st_executed_ops_changes (eo_state_changes h));
          found = (\<lambda>op_id. if op_id \<in> to_find then
                     (case ops op_id of Some (success, _) \<Rightarrow> Some success | None \<Rightarrow> found op_id) else found op_id);
          to_find = Set.filter (\<lambda>op_id. ops op_id = None) to_find
      in if to_find = {} then found else ops_exec_status_loop hs to_find found)"

definition get_ops_exec_status :: "active_history \<Rightarrow> operation_id list \<Rightarrow> bool option list" where
  "get_ops_exec_status H batch = map (ops_exec_status_loop (rev H) (set batch) Map.empty) batch"

section \<open>Reading the state under the history\<close>

definition history_ledger :: "active_history \<Rightarrow> ledger \<Rightarrow> ledger" where
  "history_ledger H L = fold (\<lambda>h. ledger_apply (st_ledger_changes (eo_state_changes h))) H L"

text \<open>No slot of the history updates an address that did not exist when it was executed.\<close>

fun history_updates_exist :: "active_history \<Rightarrow> ledger \<Rightarrow> bool" where
  "history_updates_exist [] L \<longleftrightarrow> True"
| "history_updates_exist (h # hs) L \<longleftrightarrow>
     updates_exist (st_ledger_changes (eo_state_changes h)) L
     \<and> history_updates_exist hs (ledger_apply (st_ledger_changes (eo_state_changes h)) L)"

definition resolve :: "'a history_search_result \<Rightarrow> 'a option \<Rightarrow> 'a option" where
  "resolve r below = (case r of Present v \<Rightarrow> Some v | Absent \<Rightarrow> None | NoInfo \<Rightarrow> below)"

lemma history_updates_exist_snoc:
  "history_updates_exist (H @ [h]) L \<longleftrightarrow>
     history_updates_exist H L \<and> updates_exist (st_ledger_changes (eo_state_changes h)) (history_ledger H L)"
  by (induction H arbitrary: L) (auto simp: history_ledger_def)

lemma history_ledger_snoc:
  "history_ledger (H @ [h]) L = ledger_apply (st_ledger_changes (eo_state_changes h)) (history_ledger H L)"
  by (simp add: history_ledger_def)

lemma newest_snoc: "newest f (H @ [h]) = (case f h of Some r \<Rightarrow> Some r | None \<Rightarrow> newest f H)"
  by simp

lemma fetch_balance_snoc:
  "resolve (fetch_balance (H @ [h]) a) below
     = get_balance_or_else (st_ledger_changes (eo_state_changes h)) a (resolve (fetch_balance H a) below)"
  by (auto simp: fetch_balance_def or_no_info_def resolve_def get_balance_or_else_def
      split: option.splits set_update_or_delete.splits set_or_keep.splits)

lemma fetch_bytecode_snoc:
  "resolve (fetch_bytecode (H @ [h]) a) below
     = get_bytecode_or_else (st_ledger_changes (eo_state_changes h)) a (resolve (fetch_bytecode H a) below)"
  by (auto simp: fetch_bytecode_def or_no_info_def resolve_def get_bytecode_or_else_def
      split: option.splits set_update_or_delete.splits set_or_keep.splits)

lemma fetch_data_entry_snoc:
  "resolve (fetch_active_history_data_entry (H @ [h]) a k) below
     = get_data_entry_or_else (st_ledger_changes (eo_state_changes h)) a k
         (resolve (fetch_active_history_data_entry H a k) below)"
  by (auto simp: fetch_active_history_data_entry_def or_no_info_def resolve_def get_data_entry_or_else_def
      split: option.splits set_update_or_delete.splits set_or_delete.splits)

lemma fetch_balance_eq:
  "history_updates_exist H L \<Longrightarrow>
     resolve (fetch_balance H a) (map_option le_balance (L a)) = map_option le_balance (history_ledger H L a)"
proof (induction H rule: rev_induct)
  case Nil
  then show ?case by (simp add: fetch_balance_def or_no_info_def resolve_def history_ledger_def)
next
  case (snoc h H)
  then show ?case
    by (simp add: fetch_balance_snoc history_updates_exist_snoc history_ledger_snoc get_balance_or_else_effect)
qed

lemma fetch_bytecode_eq:
  "history_updates_exist H L \<Longrightarrow>
     resolve (fetch_bytecode H a) (map_option le_bytecode (L a)) = map_option le_bytecode (history_ledger H L a)"
proof (induction H rule: rev_induct)
  case Nil
  then show ?case by (simp add: fetch_bytecode_def or_no_info_def resolve_def history_ledger_def)
next
  case (snoc h H)
  then show ?case
    by (simp add: fetch_bytecode_snoc history_updates_exist_snoc history_ledger_snoc get_bytecode_or_else_effect)
qed

lemma fetch_data_entry_eq:
  "resolve (fetch_active_history_data_entry H a k) (data_of (L a) k) = data_of (history_ledger H L a) k"
proof (induction H rule: rev_induct)
  case Nil
  then show ?case by (simp add: fetch_active_history_data_entry_def or_no_info_def resolve_def history_ledger_def)
next
  case (snoc h H)
  then show ?case by (simp add: fetch_data_entry_snoc history_ledger_snoc get_data_entry_or_else_effect)
qed

text \<open>Statuses of operations: the newest slot that executed an operation decides.\<close>

definition ops_status :: "execution_output \<Rightarrow> operation_id \<rightharpoonup> bool" where
  "ops_status h op_id = map_option fst (bt_get (st_executed_ops_changes (eo_state_changes h)) op_id)"

definition history_ops_status :: "active_history \<Rightarrow> operation_id \<rightharpoonup> bool" where
  "history_ops_status H = fold (\<lambda>h m. m ++ ops_status h) H Map.empty"

lemma history_ops_status_eq: "history_ops_status H op = newest (\<lambda>h. ops_status h op) H"
  by (induction H rule: rev_induct) (auto simp: history_ops_status_def map_add_def split: option.splits)

lemma ops_exec_status_loop_eq:
  "ops_exec_status_loop hs to_find found op
     = (if op \<in> to_find then (case find_map (\<lambda>h. ops_status h op) hs of Some r \<Rightarrow> Some r | None \<Rightarrow> found op) else found op)"
proof (induction hs arbitrary: to_find found)
  case (Cons h hs)
  define ops where "ops = bt_get (st_executed_ops_changes (eo_state_changes h))"
  define found' where "found' = (\<lambda>op_id. if op_id \<in> to_find then
      (case ops op_id of Some (success, _) \<Rightarrow> Some success | None \<Rightarrow> found op_id) else found op_id)"
  define to_find' where "to_find' = Set.filter (\<lambda>op_id. ops op_id = None) to_find"
  have step: "ops_exec_status_loop (h # hs) to_find found
      = (if to_find' = {} then found' else ops_exec_status_loop hs to_find' found')"
    by (simp only: ops_exec_status_loop.simps Let_def ops_def found'_def to_find'_def)
  have status: "ops_status h op = map_option fst (ops op)" by (simp add: ops_status_def ops_def)
  have "ops_exec_status_loop hs to_find' found' op = (if op \<in> to_find'
      then (case find_map (\<lambda>h. ops_status h op) hs of Some r \<Rightarrow> Some r | None \<Rightarrow> found' op) else found' op)"
    by (rule Cons.IH)
  moreover have "op \<notin> to_find'" if "to_find' = {}" using that by simp
  ultimately have "ops_exec_status_loop (h # hs) to_find found op = (if op \<in> to_find'
      then (case find_map (\<lambda>h. ops_status h op) hs of Some r \<Rightarrow> Some r | None \<Rightarrow> found' op) else found' op)"
    unfolding step by auto
  also have "\<dots> = (if op \<in> to_find then (case find_map (\<lambda>h. ops_status h op) (h # hs) of Some r \<Rightarrow> Some r | None \<Rightarrow> found op) else found op)"
    by (cases "ops op") (auto simp: to_find'_def found'_def status split: option.splits)
  finally show ?case .
qed simp

lemma get_ops_exec_status_eq: "get_ops_exec_status H batch = map (history_ops_status H) batch"
  by (auto simp: get_ops_exec_status_def ops_exec_status_loop_eq history_ops_status_eq split: option.splits)

section \<open>Positions\<close>

text \<open>The slots of the history are consecutive.\<close>

definition history_ok :: "u8 \<Rightarrow> active_history \<Rightarrow> bool" where
  "history_ok tc H \<longleftrightarrow> (\<forall>i < length H. slot_wf tc (eo_slot (H ! i))
     \<and> slot_index tc (eo_slot (H ! i)) = slot_index tc (eo_slot (H ! 0)) + i)"

lemma history_okD:
  assumes "history_ok tc H" "i < length H"
  shows "slot_wf tc (eo_slot (H ! i))"
    "slot_index tc (eo_slot (H ! i)) = slot_index tc (eo_slot (H ! 0)) + i"
  using assms unfolding history_ok_def by blast+

lemma get_slot_index_eq:
  assumes "history_ok tc H" "slot_wf tc s" "slot_index tc s < 2 ^ 64" "H \<noteq> []"
  shows "get_slot_index H s tc =
    (if slot_index tc s < slot_index tc (eo_slot (H ! 0)) then PosPast
     else if slot_index tc s < slot_index tc (eo_slot (H ! 0)) + length H
       then PosFound (slot_index tc s - slot_index tc (eo_slot (H ! 0)))
     else PosFuture)"
proof -
  obtain h hs where H: "H = h # hs" using assms(4) by (cases H) auto
  have wf: "slot_wf tc (eo_slot h)" using history_okD(1) [OF assms(1), of 0] by (simp add: H)
  show ?thesis
  proof (cases "s < eo_slot h")
    case True
    then show ?thesis using slot_index_less_iff [OF assms(2) wf] by (simp add: get_slot_index_def H)
  next
    case False
    then have le: "eo_slot h \<le> s" by simp
    obtain n where n: "slots_since s (eo_slot h) tc = Inr n" using slots_since_total [OF le assms(3)] by blast
    have "slot_index tc (eo_slot h) + unat n = slot_index tc s" by (rule slots_since_ok [OF le wf assms(2) n])
    with False n slot_index_less_iff [OF assms(2) wf] show ?thesis by (auto simp: get_slot_index_def H)
  qed
qed

lemma filter_eq_take: "(\<And>i. i < length xs \<Longrightarrow> P (xs ! i) \<longleftrightarrow> i < k) \<Longrightarrow> filter P xs = take k xs"
proof (induction xs arbitrary: k)
  case (Cons x xs)
  have x: "P x \<longleftrightarrow> 0 < k" using Cons.prems [of 0] by simp
  have "P (xs ! i) \<longleftrightarrow> i < k - 1" if "i < length xs" for i using Cons.prems [of "Suc i"] that by auto
  then have "filter P xs = take (k - 1) xs" by (rule Cons.IH)
  with x show ?case by (cases k) (auto simp: filter_empty_conv)
qed simp

lemma truncate_from_eq:
  assumes "history_ok tc H" "slot_wf tc s" "slot_index tc s < 2 ^ 64"
  shows "truncate_from s tc H = filter (\<lambda>h. eo_slot h < s) H"
proof (cases "H = []")
  case False
  define k where "k = slot_index tc s - slot_index tc (eo_slot (H ! 0))"
  have "eo_slot (H ! i) < s \<longleftrightarrow> i < k" if "i < length H" for i
    using slot_index_less_iff [OF history_okD(1) [OF assms(1) that] assms(2)] history_okD(2) [OF assms(1) that]
    by (auto simp: k_def)
  then have "filter (\<lambda>h. eo_slot h < s) H = take k H" by (rule filter_eq_take)
  then show ?thesis
    using get_slot_index_eq [OF assms False] by (auto simp: truncate_from_def k_def)
qed (simp add: truncate_from_def get_slot_index_def)

section \<open>Properties\<close>

text \<open>C30. Searching the history from the newest slot for the balance, the bytecode or a datastore entry of
  an address, and falling back on the final ledger, gives what the final ledger contains after the changes
  of the history are applied oldest first; the status of an operation is the one the history set last.\<close>

theorem active_history_readers:
  assumes "history_updates_exist H L"
  shows "resolve (fetch_balance H a) (map_option le_balance (L a)) = map_option le_balance (history_ledger H L a)
    \<and> resolve (fetch_bytecode H a) (map_option le_bytecode (L a)) = map_option le_bytecode (history_ledger H L a)
    \<and> resolve (fetch_active_history_data_entry H a k) (data_of (L a) k) = data_of (history_ledger H L a) k
    \<and> get_ops_exec_status H batch = map (history_ops_status H) batch"
  using fetch_balance_eq [OF assms] fetch_bytecode_eq [OF assms] fetch_data_entry_eq get_ops_exec_status_eq by blast

definition example_history :: active_history where
  "example_history =
     [\<lparr>eo_slot = Slot 4 0, eo_state_changes = state_changes_default
        \<lparr>st_ledger_changes := [Address_User [1] \<mapsto> SUD_Set (ledger_entry_default\<lparr>le_balance := 9\<rparr>)],
         st_executed_ops_changes := [([1], False, Slot 6 0)]\<rparr>\<rparr>,
      \<lparr>eo_slot = Slot 4 1, eo_state_changes = state_changes_default
        \<lparr>st_ledger_changes := lc_set_bytecode Map.empty (Address_User [1]) [42]\<rparr>\<rparr>]"

theorem active_history_readers_witness:
  "resolve (fetch_balance example_history (Address_User [1])) None
     = map_option le_balance (history_ledger example_history Map.empty (Address_User [1]))
   \<and> fetch_balance example_history (Address_User [1]) = Present 9
   \<and> get_ops_exec_status example_history [[1], [2]] = [Some False, None]"
proof -
  have "history_updates_exist example_history Map.empty"
    by (simp add: example_history_def state_changes_default_def updates_exist_def ledger_apply_def changes_effect_def
        lc_set_bytecode_def)
  from active_history_readers [OF this, of "Address_User [1]" "[]" "[[1], [2]]"] show ?thesis
    by (simp add: history_ops_status_def example_history_def state_changes_default_def ops_status_def map_add_def
        fetch_balance_def or_no_info_def lc_set_bytecode_def ledger_entry_update_default_def)
qed

text \<open>C31. The positions that the history computes are exact while slot numbers fit in 64 bits: the range of
  a cycle contains the indices of the slots of that cycle and no other, the two flags say whether the
  cycle starts before the history and ends after it, and truncating from a slot keeps the earlier slots.\<close>

theorem find_cycle_indices_exact:
  assumes "history_ok tc H" "H \<noteq> []" "ppc \<noteq> 0"
    and "new_first_of_cycle c ppc = Inr f" "new_last_of_cycle c ppc tc = Inr l" "slot_index tc l < 2 ^ 64"
    and "slot_wf tc s" "slot_index tc s < 2 ^ 64"
  shows "(case find_cycle_indices H c ppc tc of ((a, b), before, after) \<Rightarrow>
      (\<forall>i < length H. a \<le> i \<and> i < b \<longleftrightarrow> get_cycle (eo_slot (H ! i)) ppc = Inr c) \<and> b \<le> length H
      \<and> (before \<longleftrightarrow> f < eo_slot (H ! 0)) \<and> (after \<longleftrightarrow> eo_slot (H ! (length H - 1)) < l))
    \<and> truncate_from s tc H = filter (\<lambda>h. eo_slot h < s) H"
proof (rule conjI [OF _ truncate_from_eq [OF assms(1,7,8)]])
  have len: "0 < length H" using assms(2) by simp
  have tc: "tc \<noteq> 0" using history_okD(1) [OF assms(1) len] by (auto simp: slot_wf_def)
  have tc0: "0 < unat tc" using tc by (simp add: unat_gt_0)
  have f: "slot_wf tc f"
    using assms(4) tc0 by (auto simp: new_first_of_cycle_def result_simps slot_wf_def word_less_nat_alt)
  have l: "slot_wf tc l"
    using assms(5) tc0 by (auto simp: new_last_of_cycle_def result_simps slot_wf_def word_less_nat_alt
        unat_saturating_sub_one)
  note cyc = first_last_of_cycle [OF assms(3) tc assms(4,5)]
  have fl: "slot_index tc f \<le> slot_index tc l"
    using cyc(5) [OF f] cyc(3) slot_index_le_iff [OF f l] by simp
  define x0 where "x0 = slot_index tc (eo_slot (H ! 0))"
  have idx: "slot_index tc (eo_slot (H ! i)) = x0 + i" if "i < length H" for i
    using history_okD(2) [OF assms(1) that] by (simp add: x0_def)
  have in_cycle: "get_cycle (eo_slot (H ! i)) ppc = Inr c \<longleftrightarrow> slot_index tc f \<le> x0 + i \<and> x0 + i \<le> slot_index tc l"
    if i: "i < length H" for i
    using cyc(5) [OF history_okD(1) [OF assms(1) i]] slot_index_le_iff [OF f history_okD(1) [OF assms(1) i]]
      slot_index_le_iff [OF history_okD(1) [OF assms(1) i] l] idx [OF i] by simp
  have before: "f < eo_slot (H ! 0) \<longleftrightarrow> slot_index tc f < x0"
    using slot_index_less_iff [OF f history_okD(1) [OF assms(1) len]] by (simp add: x0_def)
  have last: "length H - 1 < length H" using len by simp
  have after: "eo_slot (H ! (length H - 1)) < l \<longleftrightarrow> x0 + (length H - 1) < slot_index tc l"
    using slot_index_less_iff [OF history_okD(1) [OF assms(1) last] l] idx [OF last] by simp
  have f64: "slot_index tc f < 2 ^ 64" using fl assms(6) by simp
  note pos = get_slot_index_eq [OF assms(1) f f64 assms(2)] get_slot_index_eq [OF assms(1) l assms(6,2)]
  define xf xl n where "xf = slot_index tc f" and "xl = slot_index tc l" and "n = length H"
  define goal where "goal = (\<lambda>r. case r of ((a, b), before, after) \<Rightarrow>
      (\<forall>i < n. a \<le> i \<and> i < b \<longleftrightarrow> xf \<le> x0 + i \<and> x0 + i \<le> xl) \<and> b \<le> n
      \<and> (before \<longleftrightarrow> xf < x0) \<and> (after \<longleftrightarrow> x0 + (n - 1) < xl))"
  note pos = pos [folded x0_def xf_def xl_def n_def]
  have n: "0 < n" "xf \<le> xl" using len fl by (simp_all add: n_def xf_def xl_def)
  consider "x0 + n \<le> xf" | "xl < x0" | "xf < x0" "x0 \<le> xl" "xl < x0 + n" | "xf < x0" "x0 + n \<le> xl"
    | "x0 \<le> xf" "xl < x0 + n" | "x0 \<le> xf" "xf < x0 + n" "x0 + n \<le> xl"
    by linarith
  then have "goal (find_cycle_indices H c ppc tc)"
    by cases (use n in \<open>auto simp: find_cycle_indices_def assms(4,5) pos n_def [symmetric] goal_def\<close>)
  then show "case find_cycle_indices H c ppc tc of ((a, b), before, after) \<Rightarrow>
      (\<forall>i < length H. a \<le> i \<and> i < b \<longleftrightarrow> get_cycle (eo_slot (H ! i)) ppc = Inr c) \<and> b \<le> length H
      \<and> (before \<longleftrightarrow> f < eo_slot (H ! 0)) \<and> (after \<longleftrightarrow> eo_slot (H ! (length H - 1)) < l)"
    unfolding goal_def n_def before after xf_def xl_def using in_cycle by (simp split: prod.splits)
qed

theorem find_cycle_indices_exact_witness:
  "find_cycle_indices example_history 1 4 2 = ((0, 2), False, True)
   \<and> get_cycle (eo_slot (example_history ! 0)) 4 = Inr 1 \<and> get_cycle (eo_slot (example_history ! 1)) 4 = Inr 1
   \<and> truncate_from (Slot 4 1) 2 example_history = filter (\<lambda>h. eo_slot h < Slot 4 1) example_history"
proof -
  have "history_ok 2 example_history"
    by (auto simp: history_ok_def example_history_def slot_wf_def slot_index_def less_Suc_eq)
  moreover have "new_first_of_cycle 1 4 = Inr (Slot 4 0)" "new_last_of_cycle 1 4 2 = Inr (Slot 7 1)"
    by (simp_all add: new_first_of_cycle_def new_last_of_cycle_def checked_mul_def checked_add_def saturating_sub_def)
  moreover have "find_cycle_indices example_history 1 4 2 = ((0, 2), False, True)"
    by (simp add: find_cycle_indices_def new_first_of_cycle_def new_last_of_cycle_def checked_mul_def checked_add_def
        saturating_sub_def get_slot_index_def example_history_def less_slot_def slots_since_def)
  moreover have "example_history \<noteq> []" by (simp add: example_history_def)
  ultimately show ?thesis
    using find_cycle_indices_exact [of 2 example_history 4 1 "Slot 4 0" "Slot 7 1" "Slot 4 1"]
    by (simp add: slot_index_def slot_wf_def get_cycle_def example_history_def)
qed

text \<open>Beyond 64 bits a slot in the far future is reported as past.\<close>

lemma get_slot_index_overflow:
  "get_slot_index [\<lparr>eo_slot = Slot 0 0, eo_state_changes = state_changes_default\<rparr>] (Slot (2 ^ 60) 0) 32 = PosPast"
  by (simp add: get_slot_index_def slots_since_def checked_mul_def less_slot_def)

end
