(* ===== verification/Massa_Speculative_Ledger.thy ===== *)
theory Massa_Speculative_Ledger
  imports Massa_Active_History
begin

text \<open>
  The speculative ledger: \<^verbatim>\<open>massa-execution-worker/src/speculative_ledger.rs\<close>.

  It reads the added changes, then the history, then the final ledger, and writes to the added changes.
  Its abstract state is the ledger that results from applying all of them, \<open>sl_view\<close>.  Every operation is
  shown to refine an operation on a plain ledger, errors included, and transfers to conserve coins.

  Lengths of byte vectors are below \<open>2 ^ 63\<close> in Rust, so that conversions of lengths to \<open>u64\<close> and
  \<open>i64\<close> are exact.  Each \<open>RuntimeError\<close> message is a constructor of \<open>ledger_error\<close>.
\<close>

section \<open>State and readers\<close>

record storage_costs_constants =
  ledger_cost_per_byte :: amount
  ledger_entry_base_cost :: amount
  ledger_entry_datastore_base_cost :: amount

record speculative_ledger =
  sl_final_ledger :: ledger
  sl_active_history :: active_history
  sl_added_changes :: ledger_changes
  sl_max_datastore_key_length :: u8
  sl_max_datastore_value_size :: u64
  sl_max_bytecode_size :: u64
  sl_storage_costs_constants :: storage_costs_constants

datatype ledger_error =
    SpendingAddressNotFound
  | InsufficientBalance
  | CreditOverflow
  | NonExistingSmartContract
  | InsufficientToCreate
  | CreatorDoesNotExist
  | TargetAlreadyExists
  | BytecodeTooLarge
  | StorageCostOverflow
  | AddressDoesNotExist
  | BadKeyLength
  | BadValueLength
  | ChargeFailed ledger_error
  | EntryDoesNotExist

definition sl_take :: "speculative_ledger \<Rightarrow> ledger_changes \<times> speculative_ledger" where
  "sl_take self = (sl_added_changes self, self\<lparr>sl_added_changes := Map.empty\<rparr>)"

definition sl_get_snapshot :: "speculative_ledger \<Rightarrow> ledger_changes" where
  "sl_get_snapshot self = sl_added_changes self"

definition sl_reset_to_snapshot :: "ledger_changes \<Rightarrow> speculative_ledger \<Rightarrow> speculative_ledger" where
  "sl_reset_to_snapshot snapshot self = self\<lparr>sl_added_changes := snapshot\<rparr>"

definition sl_get_balance :: "speculative_ledger \<Rightarrow> address \<Rightarrow> amount option" where
  "sl_get_balance self addr = get_balance_or_else (sl_added_changes self) addr
     (case fetch_balance (sl_active_history self) addr of
        Present par_balance \<Rightarrow> Some par_balance
      | NoInfo \<Rightarrow> map_option le_balance (sl_final_ledger self addr)
      | Absent \<Rightarrow> None)"

definition sl_get_bytecode :: "speculative_ledger \<Rightarrow> address \<Rightarrow> bytes option" where
  "sl_get_bytecode self addr = get_bytecode_or_else (sl_added_changes self) addr
     (case fetch_bytecode (sl_active_history self) addr of
        Present bytecode \<Rightarrow> Some bytecode
      | NoInfo \<Rightarrow> map_option le_bytecode (sl_final_ledger self addr)
      | Absent \<Rightarrow> None)"

definition sl_entry_exists :: "speculative_ledger \<Rightarrow> address \<Rightarrow> bool" where
  "sl_entry_exists self addr = entry_exists_or_else (sl_added_changes self) addr
     (case fetch_balance (sl_active_history self) addr of
        Present _ \<Rightarrow> True
      | NoInfo \<Rightarrow> sl_final_ledger self addr \<noteq> None
      | Absent \<Rightarrow> False)"

definition sl_get_data_entry :: "speculative_ledger \<Rightarrow> address \<Rightarrow> bytes \<Rightarrow> bytes option" where
  "sl_get_data_entry self addr key = get_data_entry_or_else (sl_added_changes self) addr key
     (case fetch_active_history_data_entry (sl_active_history self) addr key of
        Present entry \<Rightarrow> Some entry
      | NoInfo \<Rightarrow> data_of (sl_final_ledger self addr) key
      | Absent \<Rightarrow> None)"

definition sl_has_data_entry :: "speculative_ledger \<Rightarrow> address \<Rightarrow> bytes \<Rightarrow> bool" where
  "sl_has_data_entry self addr key = has_data_entry_or_else (sl_added_changes self) addr key
     (case fetch_active_history_data_entry (sl_active_history self) addr key of
        Present _ \<Rightarrow> True
      | NoInfo \<Rightarrow> data_of (sl_final_ledger self addr) key \<noteq> None
      | Absent \<Rightarrow> False)"

section \<open>Writers\<close>

definition spend_changes ::
    "speculative_ledger \<Rightarrow> address option \<Rightarrow> amount \<Rightarrow> ledger_changes \<Rightarrow> ledger_error + ledger_changes" where
  "spend_changes self from_addr amount changes =
     (case from_addr of
        None \<Rightarrow> Inr changes
      | Some from_addr \<Rightarrow>
          rbind (ok_or (sl_get_balance self from_addr) SpendingAddressNotFound) (\<lambda>balance.
          rbind (ok_or (amount_checked_sub balance amount) InsufficientBalance) (\<lambda>new_balance.
          Inr (lc_set_balance changes from_addr new_balance))))"

definition credit_changes ::
    "speculative_ledger \<Rightarrow> address option \<Rightarrow> amount \<Rightarrow> ledger_changes \<Rightarrow> ledger_error + ledger_changes" where
  "credit_changes self to_addr amount changes =
     (case to_addr of
        None \<Rightarrow> Inr changes
      | Some to_addr \<Rightarrow>
          (case get_balance_or_else changes to_addr (sl_get_balance self to_addr) of
             Some old_balance \<Rightarrow>
               rbind (ok_or (amount_checked_add old_balance amount) CreditOverflow) (\<lambda>new_balance.
               Inr (lc_set_balance changes to_addr new_balance))
           | None \<Rightarrow>
               (case to_addr of
                  Address_SC _ \<Rightarrow> Inl NonExistingSmartContract
                | Address_User _ \<Rightarrow>
                    (case amount_checked_sub amount (ledger_entry_base_cost (sl_storage_costs_constants self)) of
                       Some remaining_coins \<Rightarrow>
                         Inr (lc_set_balance (create_address changes to_addr) to_addr remaining_coins)
                     | None \<Rightarrow> Inl InsufficientToCreate))))"

definition sl_transfer_coins ::
    "address option \<Rightarrow> address option \<Rightarrow> amount \<Rightarrow> speculative_ledger \<Rightarrow> ledger_error + speculative_ledger" where
  "sl_transfer_coins from_addr to_addr amount self =
     rbind (spend_changes self from_addr amount Map.empty) (\<lambda>changes.
     rbind (credit_changes self to_addr amount changes) (\<lambda>changes.
     Inr (self\<lparr>sl_added_changes := ledger_changes_apply (sl_added_changes self) changes\<rparr>)))"

definition bytes_cost :: "storage_costs_constants \<Rightarrow> nat \<Rightarrow> ledger_error + amount" where
  "bytes_cost C n = ok_or (amount_checked_mul_u64 (ledger_cost_per_byte C) (of_nat n)) StorageCostOverflow"

definition sl_create_new_sc_address ::
    "address \<Rightarrow> address \<Rightarrow> bytes \<Rightarrow> speculative_ledger \<Rightarrow> ledger_error + speculative_ledger" where
  "sl_create_new_sc_address creator_address addr bytecode self =
     (if \<not> sl_entry_exists self creator_address then Inl CreatorDoesNotExist
      else if sl_entry_exists self addr then Inl TargetAlreadyExists
      else if unat (sl_max_bytecode_size self) < length bytecode then Inl BytecodeTooLarge
      else
        rbind (bytes_cost (sl_storage_costs_constants self) (length bytecode)) (\<lambda>bytecode_cost.
        rbind (ok_or (amount_checked_add (ledger_entry_base_cost (sl_storage_costs_constants self)) bytecode_cost)
                 StorageCostOverflow) (\<lambda>address_storage_cost.
        rbind (sl_transfer_coins (Some creator_address) None address_storage_cost self) (\<lambda>self.
        Inr (self\<lparr>sl_added_changes :=
               lc_set_bytecode (create_address (sl_added_changes self) addr) addr bytecode\<rparr>)))))"

definition sl_set_bytecode ::
    "address \<Rightarrow> address \<Rightarrow> bytes \<Rightarrow> speculative_ledger \<Rightarrow> ledger_error + speculative_ledger" where
  "sl_set_bytecode caller_addr addr bytecode self =
     (if \<not> sl_entry_exists self addr then Inl AddressDoesNotExist
      else if unat (sl_max_bytecode_size self) < length bytecode then Inl BytecodeTooLarge
      else
        rbind
          (case sl_get_bytecode self addr of
             Some old_bytecode \<Rightarrow>
               (let diff_size_storage = int (length bytecode) - int (length old_bytecode) in
                rbind (bytes_cost (sl_storage_costs_constants self) (nat \<bar>diff_size_storage\<bar>)) (\<lambda>storage_cost_bytecode.
                if 0 < diff_size_storage then sl_transfer_coins (Some caller_addr) None storage_cost_bytecode self
                else if diff_size_storage < 0 then sl_transfer_coins None (Some caller_addr) storage_cost_bytecode self
                else Inr self))
           | None \<Rightarrow>
               rbind (bytes_cost (sl_storage_costs_constants self) (length bytecode)) (\<lambda>bytecode_storage_cost.
               sl_transfer_coins (Some caller_addr) None bytecode_storage_cost self))
          (\<lambda>self. Inr (self\<lparr>sl_added_changes := lc_set_bytecode (sl_added_changes self) addr bytecode\<rparr>)))"

definition sl_set_bytecode_raw :: "address \<Rightarrow> bytes \<Rightarrow> speculative_ledger \<Rightarrow> speculative_ledger" where
  "sl_set_bytecode_raw addr bytecode self =
     self\<lparr>sl_added_changes := lc_set_bytecode (sl_added_changes self) addr bytecode\<rparr>"

definition get_storage_cost_datastore_entry ::
    "storage_costs_constants \<Rightarrow> bytes \<Rightarrow> bytes \<Rightarrow> ledger_error + amount" where
  "get_storage_cost_datastore_entry C key value =
     rbind (bytes_cost C (length key)) (\<lambda>key_cost.
     rbind (bytes_cost C (length value)) (\<lambda>value_cost.
     rbind (ok_or (amount_checked_add (ledger_entry_datastore_base_cost C) key_cost) StorageCostOverflow) (\<lambda>c.
     ok_or (amount_checked_add c value_cost) StorageCostOverflow)))"

definition datastore_entry_cost ::
    "storage_costs_constants \<Rightarrow> (bytes \<times> bytes) option \<Rightarrow> ledger_error + amount" where
  "datastore_entry_cost C kv =
     (case kv of None \<Rightarrow> Inr amount_zero | Some (key, value) \<Rightarrow> get_storage_cost_datastore_entry C key value)"

definition charge_datastore_entry_change_storage ::
    "address \<Rightarrow> (bytes \<times> bytes) option \<Rightarrow> (bytes \<times> bytes) option \<Rightarrow> speculative_ledger
     \<Rightarrow> ledger_error + speculative_ledger" where
  "charge_datastore_entry_change_storage caller_addr old_key_value new_key_value self =
     rbind (datastore_entry_cost (sl_storage_costs_constants self) old_key_value) (\<lambda>old_storage_cost.
     rbind (datastore_entry_cost (sl_storage_costs_constants self) new_key_value) (\<lambda>new_storage_cost.
     map_err ChargeFailed
       (if old_storage_cost < new_storage_cost then
          sl_transfer_coins (Some caller_addr) None (amount_saturating_sub new_storage_cost old_storage_cost) self
        else if new_storage_cost < old_storage_cost then
          sl_transfer_coins None (Some caller_addr) (amount_saturating_sub old_storage_cost new_storage_cost) self
        else Inr self)))"

definition sl_set_data_entry ::
    "address \<Rightarrow> address \<Rightarrow> bytes \<Rightarrow> bytes \<Rightarrow> speculative_ledger \<Rightarrow> ledger_error + speculative_ledger" where
  "sl_set_data_entry caller_addr addr key value self =
     (if \<not> sl_entry_exists self addr then Inl AddressDoesNotExist
      else if length key = 0 \<or> unat (sl_max_datastore_key_length self) < length key then Inl BadKeyLength
      else if unat (sl_max_datastore_value_size self) < length value then Inl BadValueLength
      else
        rbind (charge_datastore_entry_change_storage caller_addr
                 (map_option (\<lambda>v. (key, v)) (sl_get_data_entry self addr key)) (Some (key, value)) self) (\<lambda>self.
        Inr (self\<lparr>sl_added_changes := lc_set_data_entry (sl_added_changes self) addr key value\<rparr>)))"

definition sl_delete_data_entry ::
    "address \<Rightarrow> address \<Rightarrow> bytes \<Rightarrow> speculative_ledger \<Rightarrow> ledger_error + speculative_ledger" where
  "sl_delete_data_entry caller_addr addr key self =
     (case sl_get_data_entry self addr key of
        Some value \<Rightarrow>
          rbind (charge_datastore_entry_change_storage caller_addr (Some (key, value)) None self) (\<lambda>self.
          Inr (self\<lparr>sl_added_changes := lc_delete_data_entry (sl_added_changes self) addr key\<rparr>))
      | None \<Rightarrow> Inl EntryDoesNotExist)"

section \<open>Operations on a plain ledger\<close>

definition ab_spend :: "address option \<Rightarrow> amount \<Rightarrow> ledger \<Rightarrow> ledger_error + ledger" where
  "ab_spend from_addr amount L =
     (case from_addr of
        None \<Rightarrow> Inr L
      | Some a \<Rightarrow>
          (case L a of
             None \<Rightarrow> Inl SpendingAddressNotFound
           | Some e \<Rightarrow>
               if amount \<le> le_balance e then Inr (L(a \<mapsto> e\<lparr>le_balance := le_balance e - amount\<rparr>))
               else Inl InsufficientBalance))"

definition ab_credit :: "storage_costs_constants \<Rightarrow> address option \<Rightarrow> amount \<Rightarrow> ledger \<Rightarrow> ledger_error + ledger" where
  "ab_credit C to_addr amount L =
     (case to_addr of
        None \<Rightarrow> Inr L
      | Some a \<Rightarrow>
          (case L a of
             Some e \<Rightarrow>
               if unat (le_balance e) + unat amount < 2 ^ 64
               then Inr (L(a \<mapsto> e\<lparr>le_balance := le_balance e + amount\<rparr>)) else Inl CreditOverflow
           | None \<Rightarrow>
               (case a of
                  Address_SC _ \<Rightarrow> Inl NonExistingSmartContract
                | Address_User _ \<Rightarrow>
                    if ledger_entry_base_cost C \<le> amount
                    then Inr (L(a \<mapsto> ledger_entry_default\<lparr>le_balance := amount - ledger_entry_base_cost C\<rparr>))
                    else Inl InsufficientToCreate)))"

definition ab_transfer ::
    "storage_costs_constants \<Rightarrow> address option \<Rightarrow> address option \<Rightarrow> amount \<Rightarrow> ledger \<Rightarrow> ledger_error + ledger" where
  "ab_transfer C from_addr to_addr amount L = rbind (ab_spend from_addr amount L) (ab_credit C to_addr amount)"

definition ab_create_sc ::
    "storage_costs_constants \<Rightarrow> u64 \<Rightarrow> address \<Rightarrow> address \<Rightarrow> bytes \<Rightarrow> ledger \<Rightarrow> ledger_error + ledger" where
  "ab_create_sc C max_size creator a bytecode L =
     (if L creator = None then Inl CreatorDoesNotExist
      else if L a \<noteq> None then Inl TargetAlreadyExists
      else if unat max_size < length bytecode then Inl BytecodeTooLarge
      else
        rbind (bytes_cost C (length bytecode)) (\<lambda>cost.
        rbind (ok_or (amount_checked_add (ledger_entry_base_cost C) cost) StorageCostOverflow) (\<lambda>total.
        rbind (ab_transfer C (Some creator) None total L) (\<lambda>L.
        Inr (L(a \<mapsto> ledger_entry_default\<lparr>le_bytecode := bytecode\<rparr>))))))"

definition ab_set_bytecode ::
    "storage_costs_constants \<Rightarrow> u64 \<Rightarrow> address \<Rightarrow> address \<Rightarrow> bytes \<Rightarrow> ledger \<Rightarrow> ledger_error + ledger" where
  "ab_set_bytecode C max_size caller a bytecode L =
     (case L a of
        None \<Rightarrow> Inl AddressDoesNotExist
      | Some e \<Rightarrow>
          if unat max_size < length bytecode then Inl BytecodeTooLarge
          else
            let old = length (le_bytecode e); new = length bytecode in
            rbind (bytes_cost C (if old < new then new - old else old - new)) (\<lambda>cost.
            rbind (if old < new then ab_transfer C (Some caller) None cost L
                   else if new < old then ab_transfer C None (Some caller) cost L
                   else Inr L) (\<lambda>L.
            Inr (L(a \<mapsto> (entry_or_default (L a))\<lparr>le_bytecode := bytecode\<rparr>)))))"

definition ab_charge ::
    "storage_costs_constants \<Rightarrow> address \<Rightarrow> (bytes \<times> bytes) option \<Rightarrow> (bytes \<times> bytes) option \<Rightarrow> ledger
     \<Rightarrow> ledger_error + ledger" where
  "ab_charge C caller old new L =
     rbind (datastore_entry_cost C old) (\<lambda>old_cost.
     rbind (datastore_entry_cost C new) (\<lambda>new_cost.
     map_err ChargeFailed
       (if old_cost < new_cost then ab_transfer C (Some caller) None (new_cost - old_cost) L
        else if new_cost < old_cost then ab_transfer C None (Some caller) (old_cost - new_cost) L
        else Inr L)))"

definition ab_set_data ::
    "storage_costs_constants \<Rightarrow> u8 \<Rightarrow> u64 \<Rightarrow> address \<Rightarrow> address \<Rightarrow> bytes \<Rightarrow> bytes \<Rightarrow> ledger \<Rightarrow> ledger_error + ledger" where
  "ab_set_data C max_key max_value caller a key v L =
     (if L a = None then Inl AddressDoesNotExist
      else if key = [] \<or> unat max_key < length key then Inl BadKeyLength
      else if unat max_value < length v then Inl BadValueLength
      else
        rbind (ab_charge C caller (map_option (\<lambda>v. (key, v)) (data_of (L a) key)) (Some (key, v)) L) (\<lambda>L.
        let e = entry_or_default (L a) in Inr (L(a \<mapsto> e\<lparr>le_datastore := fmupd key v (le_datastore e)\<rparr>))))"

definition ab_delete_data ::
    "storage_costs_constants \<Rightarrow> address \<Rightarrow> address \<Rightarrow> bytes \<Rightarrow> ledger \<Rightarrow> ledger_error + ledger" where
  "ab_delete_data C caller a key L =
     (case data_of (L a) key of
        None \<Rightarrow> Inl EntryDoesNotExist
      | Some v \<Rightarrow>
          rbind (ab_charge C caller (Some (key, v)) None L) (\<lambda>L.
          let e = entry_or_default (L a) in Inr (L(a \<mapsto> e\<lparr>le_datastore := fmdrop key (le_datastore e)\<rparr>))))"

section \<open>The view\<close>

definition sl_below :: "speculative_ledger \<Rightarrow> ledger" where
  "sl_below st = history_ledger (sl_active_history st) (sl_final_ledger st)"

definition sl_view :: "speculative_ledger \<Rightarrow> ledger" where
  "sl_view st = ledger_apply (sl_added_changes st) (sl_below st)"

definition sl_ok :: "speculative_ledger \<Rightarrow> bool" where
  "sl_ok st \<longleftrightarrow> history_updates_exist (sl_active_history st) (sl_final_ledger st)
     \<and> updates_exist (sl_added_changes st) (sl_below st)"

lemma sl_below_update [simp]: "sl_below (st\<lparr>sl_added_changes := c\<rparr>) = sl_below st"
  by (simp add: sl_below_def)

lemma resolve_fold: "(case r of Present v \<Rightarrow> Some v | Absent \<Rightarrow> None | NoInfo \<Rightarrow> b) = resolve r b"
  by (simp add: resolve_def)

lemma sl_get_balance_view: "sl_ok st \<Longrightarrow> sl_get_balance st a = map_option le_balance (sl_view st a)"
  unfolding sl_get_balance_def resolve_fold
  by (simp add: sl_ok_def fetch_balance_eq get_balance_or_else_effect sl_view_def flip: sl_below_def)

lemma sl_get_bytecode_view: "sl_ok st \<Longrightarrow> sl_get_bytecode st a = map_option le_bytecode (sl_view st a)"
  unfolding sl_get_bytecode_def resolve_fold
  by (simp add: sl_ok_def fetch_bytecode_eq get_bytecode_or_else_effect sl_view_def flip: sl_below_def)

lemma sl_entry_exists_view:
  assumes "sl_ok st"
  shows "sl_entry_exists st a \<longleftrightarrow> sl_view st a \<noteq> None"
proof -
  have "resolve (fetch_balance (sl_active_history st) a) (map_option le_balance (sl_final_ledger st a))
      = map_option le_balance (sl_below st a)"
    using assms by (simp add: sl_ok_def fetch_balance_eq sl_below_def)
  then have "(case fetch_balance (sl_active_history st) a of
      Present _ \<Rightarrow> True | NoInfo \<Rightarrow> sl_final_ledger st a \<noteq> None | Absent \<Rightarrow> False) \<longleftrightarrow> sl_below st a \<noteq> None"
    by (cases "sl_below st a") (auto simp: resolve_def split: history_search_result.splits)
  then show ?thesis by (simp only: sl_entry_exists_def sl_view_def entry_exists_or_else_effect)
qed

lemma sl_get_data_entry_view: "sl_get_data_entry st a k = data_of (sl_view st a) k"
  unfolding sl_get_data_entry_def resolve_fold
  by (simp add: fetch_data_entry_eq get_data_entry_or_else_effect sl_view_def flip: sl_below_def)

lemma sl_has_data_entry_view: "sl_has_data_entry st a k \<longleftrightarrow> data_of (sl_view st a) k \<noteq> None"
proof -
  have "resolve (fetch_active_history_data_entry (sl_active_history st) a k) (data_of (sl_final_ledger st a) k)
      = data_of (sl_below st a) k"
    by (simp add: fetch_data_entry_eq sl_below_def)
  then have "(case fetch_active_history_data_entry (sl_active_history st) a k of
      Present _ \<Rightarrow> True | NoInfo \<Rightarrow> data_of (sl_final_ledger st a) k \<noteq> None | Absent \<Rightarrow> False)
      \<longleftrightarrow> data_of (sl_below st a) k \<noteq> None"
    by (cases "data_of (sl_below st a) k") (auto simp: resolve_def split: history_search_result.splits)
  then show ?thesis by (simp only: sl_has_data_entry_def sl_view_def has_data_entry_or_else_effect)
qed

text \<open>Setters on the added changes act on the view.\<close>

lemma sl_view_setters:
  "sl_view (st\<lparr>sl_added_changes := lc_set_bytecode (sl_added_changes st) a bc\<rparr>)
     = (sl_view st)(a \<mapsto> (entry_or_default (sl_view st a))\<lparr>le_bytecode := bc\<rparr>)"
  "sl_view (st\<lparr>sl_added_changes := lc_set_data_entry (sl_added_changes st) a k v\<rparr>)
     = (sl_view st)(a \<mapsto> (entry_or_default (sl_view st a))\<lparr>le_datastore := fmupd k v (le_datastore (entry_or_default (sl_view st a)))\<rparr>)"
  "sl_view (st\<lparr>sl_added_changes := lc_set_bytecode (create_address (sl_added_changes st) a) a bc\<rparr>)
     = (sl_view st)(a \<mapsto> ledger_entry_default\<lparr>le_bytecode := bc\<rparr>)"
  by (simp_all add: sl_view_def ledger_apply_set_bytecode ledger_apply_set_data_entry ledger_apply_create_address Let_def)

lemma sl_view_delete_data:
  "sl_view st a \<noteq> None \<Longrightarrow> sl_view (st\<lparr>sl_added_changes := lc_delete_data_entry (sl_added_changes st) a k\<rparr>)
     = (sl_view st)(a \<mapsto> (entry_or_default (sl_view st a))\<lparr>le_datastore := fmdrop k (le_datastore (entry_or_default (sl_view st a)))\<rparr>)"
  by (auto simp: sl_view_def ledger_apply_delete_data_entry Let_def)
    (auto simp: ledger_apply_def changes_effect_def)

lemma sl_ok_setters:
  assumes "sl_ok st" "sl_view st a \<noteq> None"
  shows "sl_ok (st\<lparr>sl_added_changes := lc_set_bytecode (sl_added_changes st) a bc\<rparr>)"
    "sl_ok (st\<lparr>sl_added_changes := lc_set_data_entry (sl_added_changes st) a k v\<rparr>)"
    "sl_ok (st\<lparr>sl_added_changes := lc_delete_data_entry (sl_added_changes st) a k\<rparr>)"
proof -
  have ex: "entry_exists_or_else (sl_added_changes st) a (sl_below st a \<noteq> None)"
    unfolding entry_exists_or_else_effect using assms(2) unfolding sl_view_def .
  have up: "updates_exist (sl_added_changes st) (sl_below st)" using assms(1) by (simp add: sl_ok_def)
  show "sl_ok (st\<lparr>sl_added_changes := lc_set_bytecode (sl_added_changes st) a bc\<rparr>)"
    "sl_ok (st\<lparr>sl_added_changes := lc_set_data_entry (sl_added_changes st) a k v\<rparr>)"
    "sl_ok (st\<lparr>sl_added_changes := lc_delete_data_entry (sl_added_changes st) a k\<rparr>)"
    using assms(1) updates_exist_setters(3-5) [OF up ex] by (simp_all add: sl_ok_def)
qed

lemma sl_ok_create:
  assumes "sl_ok st"
  shows "sl_ok (st\<lparr>sl_added_changes := lc_set_bytecode (create_address (sl_added_changes st) a) a bc\<rparr>)"
proof -
  have "updates_exist (create_address (sl_added_changes st) a) (sl_below st)"
    using assms by (simp add: sl_ok_def updates_exist_setters(1))
  moreover have "entry_exists_or_else (create_address (sl_added_changes st) a) a (sl_below st a \<noteq> None)"
    by (simp add: entry_exists_or_else_def create_address_def)
  ultimately show ?thesis using assms updates_exist_setters(3) by (simp add: sl_ok_def)
qed

section \<open>Refinement\<close>

text \<open>A result refines an abstract one: the same error, or a good state whose view is the abstract ledger.\<close>

definition sl_same_limits :: "speculative_ledger \<Rightarrow> speculative_ledger \<Rightarrow> bool" where
  "sl_same_limits st st' \<longleftrightarrow> sl_final_ledger st' = sl_final_ledger st \<and> sl_active_history st' = sl_active_history st
     \<and> sl_max_datastore_key_length st' = sl_max_datastore_key_length st
     \<and> sl_max_datastore_value_size st' = sl_max_datastore_value_size st
     \<and> sl_max_bytecode_size st' = sl_max_bytecode_size st
     \<and> sl_storage_costs_constants st' = sl_storage_costs_constants st"

definition refines :: "speculative_ledger \<Rightarrow> ledger_error + speculative_ledger \<Rightarrow> ledger_error + ledger \<Rightarrow> bool" where
  "refines st r q \<longleftrightarrow>
     (case r of
        Inl e \<Rightarrow> q = Inl e
      | Inr st' \<Rightarrow> q = Inr (sl_view st') \<and> sl_ok st' \<and> sl_same_limits st st')"

lemma refines_simps [simp]:
  "refines st (Inl e) q \<longleftrightarrow> q = Inl e"
  "refines st (Inr st') q \<longleftrightarrow> q = Inr (sl_view st') \<and> sl_ok st' \<and> sl_same_limits st st'"
  by (simp_all add: refines_def)

lemma sl_same_limits_refl [simp]: "sl_same_limits st st"
  by (simp add: sl_same_limits_def)

lemma sl_same_limits_update [simp]: "sl_same_limits st st' \<Longrightarrow> sl_same_limits st (st'\<lparr>sl_added_changes := c\<rparr>)"
  by (simp add: sl_same_limits_def)

lemma sl_same_limits_trans: "sl_same_limits st st' \<Longrightarrow> sl_same_limits st' st'' \<Longrightarrow> sl_same_limits st st''"
  by (simp add: sl_same_limits_def)

lemma refines_bind:
  assumes "refines st r q" "\<And>st'. sl_ok st' \<Longrightarrow> sl_same_limits st st' \<Longrightarrow> r = Inr st' \<Longrightarrow> refines st' (f st') (g (sl_view st'))"
  shows "refines st (rbind r f) (rbind q g)"
proof (cases r)
  case (Inr st')
  then have st': "q = Inr (sl_view st')" "sl_ok st'" "sl_same_limits st st'" using assms(1) by auto
  then have "refines st' (f st') (g (sl_view st'))" using assms(2) Inr by blast
  with st' show ?thesis
    by (cases "f st'") (auto simp: Inr intro: sl_same_limits_trans)
qed (use assms(1) in simp)

lemma refines_bind_same: "(\<And>x. r = Inr x \<Longrightarrow> refines st (f x) (g x)) \<Longrightarrow> refines st (rbind r f) (rbind r g)"
  by (cases r) auto

lemma refines_map_err: "refines st r q \<Longrightarrow> refines st (map_err h r) (map_err h q)"
  by (cases r) auto

text \<open>The changes of a transfer, applied on top of the view.\<close>

lemma spend_refines:
  assumes "sl_ok st"
  shows "map_sum (\<lambda>e. e) (\<lambda>c. ledger_apply c (sl_view st)) (spend_changes st f am Map.empty) = ab_spend f am (sl_view st)
    \<and> (\<forall>c. spend_changes st f am Map.empty = Inr c \<longrightarrow> updates_exist c (sl_view st))"
proof (cases f)
  case (Some a)
  show ?thesis
  proof (cases "sl_view st a")
    case (Some e)
    then have "updates_exist (lc_set_balance Map.empty a b) (sl_view st)" for b
      by (auto simp: updates_exist_def lc_set_balance_def)
    then show ?thesis
      using Some \<open>f = Some a\<close>
      by (auto simp: spend_changes_def ab_spend_def sl_get_balance_view [OF assms] amount_checked_sub_def checked_sub_def
          ledger_apply_set_balance)
  qed (simp add: Some spend_changes_def ab_spend_def sl_get_balance_view [OF assms])
qed (simp add: spend_changes_def ab_spend_def)

lemma credit_refines:
  assumes "sl_ok st" "updates_exist c (sl_view st)"
  shows "map_sum (\<lambda>e. e) (\<lambda>c. ledger_apply c (sl_view st)) (credit_changes st t am c)
      = ab_credit (sl_storage_costs_constants st) t am (ledger_apply c (sl_view st))
    \<and> (\<forall>c'. credit_changes st t am c = Inr c' \<longrightarrow> updates_exist c' (sl_view st))"
proof (cases t)
  case (Some a)
  have read: "get_balance_or_else c a (sl_get_balance st a) = map_option le_balance (ledger_apply c (sl_view st) a)"
    unfolding sl_get_balance_view [OF assms(1)] by (rule get_balance_or_else_effect [OF assms(2)])
  show ?thesis
  proof (cases "ledger_apply c (sl_view st) a")
    case None
    have "updates_exist (lc_set_balance (create_address c a) a b) (sl_view st)" for b
      by (rule updates_exist_setters(2) [OF updates_exist_setters(1) [OF assms(2)]])
        (simp add: entry_exists_or_else_def create_address_def)
    then show ?thesis
      using None Some by (auto simp: credit_changes_def ab_credit_def read amount_checked_sub_def checked_sub_def
          ledger_apply_set_balance ledger_apply_create_address split: address.splits)
  next
    case (Some e)
    then have ex: "entry_exists_or_else c a (sl_view st a \<noteq> None)" unfolding entry_exists_or_else_effect by simp
    then have "updates_exist (lc_set_balance c a b) (sl_view st)" for b
      by (rule updates_exist_setters(2) [OF assms(2)])
    then show ?thesis
      using Some \<open>t = Some a\<close> by (auto simp: credit_changes_def ab_credit_def read amount_checked_add_def checked_add_def
          ledger_apply_set_balance)
  qed
qed (use assms in \<open>simp add: credit_changes_def ab_credit_def\<close>)

lemma transfer_refines:
  assumes "sl_ok st"
  shows "refines st (sl_transfer_coins f t am st) (ab_transfer (sl_storage_costs_constants st) f t am (sl_view st))"
proof (cases "spend_changes st f am Map.empty")
  case (Inl e)
  then have "ab_spend f am (sl_view st) = Inl e" using spend_refines [OF assms, of f am] by (metis map_sum.simps(1))
  with Inl show ?thesis by (simp add: sl_transfer_coins_def ab_transfer_def)
next
  case (Inr c)
  then have c: "ab_spend f am (sl_view st) = Inr (ledger_apply c (sl_view st))" "updates_exist c (sl_view st)"
    using spend_refines [OF assms, of f am] by auto
  show ?thesis
  proof (cases "credit_changes st t am c")
    case (Inl e)
    then have "ab_credit (sl_storage_costs_constants st) t am (ledger_apply c (sl_view st)) = Inl e"
      using credit_refines [OF assms c(2), of t am] by (metis map_sum.simps(1))
    with Inl c Inr show ?thesis by (simp add: sl_transfer_coins_def ab_transfer_def)
  next
    case (Inr d)
    then have d: "ab_credit (sl_storage_costs_constants st) t am (ledger_apply c (sl_view st)) = Inr (ledger_apply d (sl_view st))"
        "updates_exist d (sl_view st)"
      using credit_refines [OF assms c(2), of t am] by auto
    define st' where "st' = st\<lparr>sl_added_changes := ledger_changes_apply (sl_added_changes st) d\<rparr>"
    have "sl_view st' = ledger_apply d (sl_view st)"
      by (simp add: sl_view_def st'_def ledger_apply_merge)
    moreover have "sl_ok st'"
      using assms d(2) updates_exist_merge [of "sl_added_changes st" "sl_below st" d]
      by (simp add: sl_ok_def st'_def sl_view_def)
    ultimately show ?thesis
      using c d Inr \<open>spend_changes st f am Map.empty = Inr c\<close>
      by (simp add: sl_transfer_coins_def ab_transfer_def flip: st'_def) (simp add: st'_def)
  qed
qed

lemma ab_spend_Inr:
  "ab_spend f am L = Inr L' \<longleftrightarrow>
     (case f of None \<Rightarrow> L' = L
      | Some a \<Rightarrow> (\<exists>e. L a = Some e \<and> am \<le> le_balance e \<and> L' = L(a \<mapsto> e\<lparr>le_balance := le_balance e - am\<rparr>)))"
  by (cases f) (auto simp: ab_spend_def split: option.splits)

lemma ab_credit_Inr:
  "ab_credit C t am L = Inr L' \<longleftrightarrow>
     (case t of None \<Rightarrow> L' = L
      | Some a \<Rightarrow>
          (case L a of
             Some e \<Rightarrow> unat (le_balance e) + unat am < 2 ^ 64 \<and> L' = L(a \<mapsto> e\<lparr>le_balance := le_balance e + am\<rparr>)
           | None \<Rightarrow> (\<exists>p. a = Address_User p) \<and> ledger_entry_base_cost C \<le> am
               \<and> L' = L(a \<mapsto> ledger_entry_default\<lparr>le_balance := am - ledger_entry_base_cost C\<rparr>)))"
  by (cases t) (auto simp: ab_credit_def split: option.splits address.splits)

lemma ab_transfer_domain:
  assumes "ab_transfer C f t am L = Inr L'" "L a \<noteq> None"
  shows "L' a \<noteq> None"
proof -
  obtain M where M: "ab_spend f am L = Inr M" "ab_credit C t am M = Inr L'"
    using assms(1) by (auto simp: ab_transfer_def rbind_eq_Inr)
  have "M a \<noteq> None" using M(1) assms(2) by (auto simp: ab_spend_Inr split: option.splits)
  then show ?thesis using M(2) by (auto simp: ab_credit_Inr split: option.splits)
qed

lemma create_sc_refines:
  assumes "sl_ok st"
  shows "refines st (sl_create_new_sc_address creator a bytecode st)
    (ab_create_sc (sl_storage_costs_constants st) (sl_max_bytecode_size st) creator a bytecode (sl_view st))"
proof -
  have "refines st' (Inr (st'\<lparr>sl_added_changes := lc_set_bytecode (create_address (sl_added_changes st') a) a bytecode\<rparr>))
      (Inr ((sl_view st')(a \<mapsto> ledger_entry_default\<lparr>le_bytecode := bytecode\<rparr>)))" if "sl_ok st'" for st'
    using that by (simp add: sl_view_setters sl_ok_create)
  then show ?thesis
    unfolding sl_create_new_sc_address_def ab_create_sc_def sl_entry_exists_view [OF assms]
    by (auto intro!: refines_bind_same refines_bind [OF transfer_refines [OF assms]])
qed

lemma set_bytecode_charge_refines:
  assumes "sl_ok st"
  shows "refines st
     (rbind (bytes_cost (sl_storage_costs_constants st) (nat \<bar>int new - int old\<bar>)) (\<lambda>cost.
        if 0 < int new - int old then sl_transfer_coins (Some caller) None cost st
        else if int new - int old < 0 then sl_transfer_coins None (Some caller) cost st else Inr st))
     (rbind (bytes_cost (sl_storage_costs_constants st) (if old < new then new - old else old - new)) (\<lambda>cost.
        if old < new then ab_transfer (sl_storage_costs_constants st) (Some caller) None cost (sl_view st)
        else if new < old then ab_transfer (sl_storage_costs_constants st) None (Some caller) cost (sl_view st)
        else Inr (sl_view st)))"
proof -
  have "nat \<bar>int new - int old\<bar> = (if old < new then new - old else old - new)" by auto
  then show ?thesis using assms transfer_refines [OF assms] by (auto intro!: refines_bind_same)
qed

lemma set_bytecode_refines:
  assumes "sl_ok st"
  shows "refines st (sl_set_bytecode caller a bytecode st)
    (ab_set_bytecode (sl_storage_costs_constants st) (sl_max_bytecode_size st) caller a bytecode (sl_view st))"
proof (cases "sl_view st a")
  case None
  then show ?thesis by (simp add: sl_set_bytecode_def ab_set_bytecode_def sl_entry_exists_view [OF assms])
next
  case (Some e)
  define q where "q = (\<lambda>cost. if length (le_bytecode e) < length bytecode
      then ab_transfer (sl_storage_costs_constants st) (Some caller) None cost (sl_view st)
      else if length bytecode < length (le_bytecode e)
        then ab_transfer (sl_storage_costs_constants st) None (Some caller) cost (sl_view st) else Inr (sl_view st))"
  have kept: "L' a \<noteq> None" if "q cost = Inr L'" for L' cost
    using that Some ab_transfer_domain [of "sl_storage_costs_constants st" _ _ cost "sl_view st" L' a]
    by (auto simp: q_def split: if_splits)
  have last: "refines st' (Inr (st'\<lparr>sl_added_changes := lc_set_bytecode (sl_added_changes st') a bytecode\<rparr>))
      (Inr ((sl_view st')(a \<mapsto> (entry_or_default (sl_view st' a))\<lparr>le_bytecode := bytecode\<rparr>)))"
    if "sl_ok st'" "sl_view st' a \<noteq> None" for st'
    using that by (simp add: sl_view_setters sl_ok_setters(1))
  define n where "n = (if length (le_bytecode e) < length bytecode then length bytecode - length (le_bytecode e)
      else length (le_bytecode e) - length bytecode)"
  define r where "r = rbind (bytes_cost (sl_storage_costs_constants st) (nat \<bar>int (length bytecode) - int (length (le_bytecode e))\<bar>)) (\<lambda>cost.
        if 0 < int (length bytecode) - int (length (le_bytecode e)) then sl_transfer_coins (Some caller) None cost st
        else if int (length bytecode) - int (length (le_bytecode e)) < 0 then sl_transfer_coins None (Some caller) cost st else Inr st)"
  have r: "refines st r (rbind (bytes_cost (sl_storage_costs_constants st) n) q)"
    using set_bytecode_charge_refines [OF assms, of "length bytecode" "length (le_bytecode e)" caller]
    by (simp add: r_def q_def n_def)
  have "refines st (rbind r (\<lambda>st. Inr (st\<lparr>sl_added_changes := lc_set_bytecode (sl_added_changes st) a bytecode\<rparr>)))
    (rbind (rbind (bytes_cost (sl_storage_costs_constants st) n) q)
      (\<lambda>L. Inr (L(a \<mapsto> (entry_or_default (L a))\<lparr>le_bytecode := bytecode\<rparr>))))"
  proof (rule refines_bind [OF r last])
    fix st'
    assume "r = Inr st'"
    then have "rbind (bytes_cost (sl_storage_costs_constants st) n) q = Inr (sl_view st')" using r by simp
    then show "sl_view st' a \<noteq> None" using kept by (auto simp: result_simps)
  qed
  then show ?thesis
    using Some by (simp add: sl_set_bytecode_def ab_set_bytecode_def sl_entry_exists_view [OF assms] sl_get_bytecode_view [OF assms]
        Let_def rbind_assoc r_def q_def n_def)
qed

lemma charge_refines:
  assumes "sl_ok st"
  shows "refines st (charge_datastore_entry_change_storage caller old new st)
    (ab_charge (sl_storage_costs_constants st) caller old new (sl_view st))"
proof -
  have sub: "amount_saturating_sub x y = x - y" if "y < x" for x y :: amount
    using that less_imp_le [OF that] by (simp add: amount_saturating_sub_def saturating_sub_def)
  show ?thesis
    unfolding charge_datastore_entry_change_storage_def ab_charge_def
    using assms transfer_refines [OF assms] by (auto simp: sub intro!: refines_bind_same refines_map_err)
qed

lemma ab_charge_domain:
  assumes "ab_charge C caller old new L = Inr L'" "L a \<noteq> None"
  shows "L' a \<noteq> None"
  using assms ab_transfer_domain [of C _ _ _ L L' a]
  by (auto simp: ab_charge_def result_simps split: if_splits)

lemma charge_kept:
  assumes "sl_ok st" "charge_datastore_entry_change_storage caller old new st = Inr st'" "sl_view st a \<noteq> None"
  shows "sl_view st' a \<noteq> None"
proof -
  have "ab_charge (sl_storage_costs_constants st) caller old new (sl_view st) = Inr (sl_view st')"
    using charge_refines [OF assms(1), of caller old new] assms(2) by simp
  from ab_charge_domain [OF this assms(3)] show ?thesis .
qed

lemma set_data_refines:
  assumes "sl_ok st"
  shows "refines st (sl_set_data_entry caller a key v st)
    (ab_set_data (sl_storage_costs_constants st) (sl_max_datastore_key_length st) (sl_max_datastore_value_size st)
       caller a key v (sl_view st))"
proof (cases "sl_view st a")
  case None
  then show ?thesis by (simp add: sl_set_data_entry_def ab_set_data_def sl_entry_exists_view [OF assms])
next
  case (Some e)
  have "refines st
    (rbind (charge_datastore_entry_change_storage caller old new st)
      (\<lambda>st. Inr (st\<lparr>sl_added_changes := lc_set_data_entry (sl_added_changes st) a key v\<rparr>)))
    (rbind (ab_charge (sl_storage_costs_constants st) caller old new (sl_view st))
      (\<lambda>L. let e = entry_or_default (L a) in Inr (L(a \<mapsto> e\<lparr>le_datastore := fmupd key v (le_datastore e)\<rparr>))))" for old new
  proof (rule refines_bind [OF charge_refines [OF assms]])
    fix st'
    assume st': "sl_ok st'" "charge_datastore_entry_change_storage caller old new st = Inr st'"
    then have "sl_view st' a \<noteq> None" using charge_kept [OF assms] Some by blast
    with st'(1) show "refines st' (Inr (st'\<lparr>sl_added_changes := lc_set_data_entry (sl_added_changes st') a key v\<rparr>))
      (let e = entry_or_default (sl_view st' a) in Inr ((sl_view st')(a \<mapsto> e\<lparr>le_datastore := fmupd key v (le_datastore e)\<rparr>)))"
      by (simp add: Let_def sl_view_setters sl_ok_setters(2))
  qed
  then show ?thesis
    using Some by (simp add: sl_set_data_entry_def ab_set_data_def sl_entry_exists_view [OF assms] sl_get_data_entry_view)
qed

lemma delete_data_refines:
  assumes "sl_ok st"
  shows "refines st (sl_delete_data_entry caller a key st)
    (ab_delete_data (sl_storage_costs_constants st) caller a key (sl_view st))"
proof (cases "data_of (sl_view st a) key")
  case None
  then show ?thesis by (simp add: sl_delete_data_entry_def ab_delete_data_def sl_get_data_entry_view)
next
  case (Some v)
  then have a: "sl_view st a \<noteq> None" by (auto simp: data_of_def split: option.splits)
  have "refines st
    (rbind (charge_datastore_entry_change_storage caller (Some (key, v)) None st)
      (\<lambda>st. Inr (st\<lparr>sl_added_changes := lc_delete_data_entry (sl_added_changes st) a key\<rparr>)))
    (rbind (ab_charge (sl_storage_costs_constants st) caller (Some (key, v)) None (sl_view st))
      (\<lambda>L. let e = entry_or_default (L a) in Inr (L(a \<mapsto> e\<lparr>le_datastore := fmdrop key (le_datastore e)\<rparr>))))"
  proof (rule refines_bind [OF charge_refines [OF assms]])
    fix st'
    assume st': "sl_ok st'" "charge_datastore_entry_change_storage caller (Some (key, v)) None st = Inr st'"
    then have "sl_view st' a \<noteq> None" using charge_kept [OF assms] a by blast
    with st'(1) show "refines st' (Inr (st'\<lparr>sl_added_changes := lc_delete_data_entry (sl_added_changes st') a key\<rparr>))
      (let e = entry_or_default (sl_view st' a) in Inr ((sl_view st')(a \<mapsto> e\<lparr>le_datastore := fmdrop key (le_datastore e)\<rparr>)))"
      by (simp add: Let_def sl_view_delete_data sl_ok_setters(3))
  qed
  then show ?thesis
    using Some by (simp add: sl_delete_data_entry_def ab_delete_data_def sl_get_data_entry_view)
qed

section \<open>Conservation of coins\<close>

text \<open>The coins of an entry are its balance and the coins its storage costs.\<close>

definition data_coins :: "storage_costs_constants \<Rightarrow> (bytes, bytes) fmap \<Rightarrow> nat" where
  "data_coins C m = (\<Sum>k \<in> fmdom' m. unat (ledger_entry_datastore_base_cost C)
     + unat (ledger_cost_per_byte C) * (length k + length (the (fmlookup m k))))"

definition entry_coins :: "storage_costs_constants \<Rightarrow> ledger_entry \<Rightarrow> nat" where
  "entry_coins C e = unat (le_balance e) + unat (ledger_entry_base_cost C)
     + unat (ledger_cost_per_byte C) * length (le_bytecode e) + data_coins C (le_datastore e)"

definition ledger_coins :: "storage_costs_constants \<Rightarrow> ledger \<Rightarrow> nat" where
  "ledger_coins C L = (\<Sum>a \<in> dom L. entry_coins C (the (L a)))"

definition entry_sizes_ok :: "ledger_entry \<Rightarrow> bool" where
  "entry_sizes_ok e \<longleftrightarrow> length (le_bytecode e) < 2 ^ 64
     \<and> fmpred (\<lambda>k v. length k < 2 ^ 64 \<and> length v < 2 ^ 64) (le_datastore e)"

definition ledger_wf :: "ledger \<Rightarrow> bool" where
  "ledger_wf L \<longleftrightarrow> finite (dom L) \<and> (\<forall>a e. L a = Some e \<longrightarrow> entry_sizes_ok e)"

definition option_coins :: "storage_costs_constants \<Rightarrow> ledger_entry option \<Rightarrow> nat" where
  "option_coins C e = (case e of None \<Rightarrow> 0 | Some e \<Rightarrow> entry_coins C e)"

lemma ledger_coins_upd:
  assumes "finite (dom L)"
  shows "ledger_coins C (L(a \<mapsto> e)) + option_coins C (L a) = ledger_coins C L + entry_coins C e"
proof -
  have "ledger_coins C (L(a \<mapsto> e)) = (\<Sum>b \<in> insert a (dom L - {a}). entry_coins C (the ((L(a \<mapsto> e)) b)))"
    by (simp add: ledger_coins_def)
  also have "\<dots> = entry_coins C e + (\<Sum>b \<in> dom L - {a}. entry_coins C (the (L b)))"
    using assms by (subst sum.insert) (auto intro!: sum.cong)
  finally have upd: "ledger_coins C (L(a \<mapsto> e)) = entry_coins C e + (\<Sum>b \<in> dom L - {a}. entry_coins C (the (L b)))" .
  have "ledger_coins C L = option_coins C (L a) + (\<Sum>b \<in> dom L - {a}. entry_coins C (the (L b)))"
  proof (cases "L a")
    case None
    then have "dom L - {a} = dom L" by auto
    then show ?thesis by (simp add: ledger_coins_def option_coins_def None)
  next
    case (Some e0)
    then have "a \<in> dom L" by auto
    from sum.remove [OF assms this, of "\<lambda>b. entry_coins C (the (L b))"] show ?thesis by (simp add: ledger_coins_def option_coins_def Some)
  qed
  with upd show ?thesis by simp
qed

lemma ledger_wf_upd: "ledger_wf L \<Longrightarrow> entry_sizes_ok e \<Longrightarrow> ledger_wf (L(a \<mapsto> e))"
  by (simp add: ledger_wf_def)

lemma ledger_wf_entry: "ledger_wf L \<Longrightarrow> L a = Some e \<Longrightarrow> entry_sizes_ok e"
  by (simp add: ledger_wf_def)

lemma entry_sizes_default [simp]: "entry_sizes_ok ledger_entry_default"
  by (simp add: entry_sizes_ok_def ledger_entry_default_def)

lemma data_coins_empty [simp]: "data_coins C fmempty = 0"
  by (simp add: data_coins_def)

lemma entry_sizes_balance [simp]: "entry_sizes_ok (e\<lparr>le_balance := b\<rparr>) \<longleftrightarrow> entry_sizes_ok e"
  by (simp add: entry_sizes_ok_def)

lemma ab_spend_coins:
  assumes "ab_spend (Some a) am L = Inr L'" "ledger_wf L"
  shows "ledger_coins C L' + unat am = ledger_coins C L" "ledger_wf L'"
proof -
  obtain e where e: "L a = Some e" "am \<le> le_balance e" and L': "L' = L(a \<mapsto> e\<lparr>le_balance := le_balance e - am\<rparr>)"
    using assms(1) by (auto simp: ab_spend_Inr)
  have "unat (le_balance e - am) + unat am = unat (le_balance e)"
    using e(2) by (simp add: unat_sub word_le_nat_alt)
  then have "entry_coins C (e\<lparr>le_balance := le_balance e - am\<rparr>) + unat am = entry_coins C e"
    by (simp add: entry_coins_def)
  then show "ledger_coins C L' + unat am = ledger_coins C L"
    using ledger_coins_upd [of L C a "e\<lparr>le_balance := le_balance e - am\<rparr>"] assms(2) e
    by (simp add: L' ledger_wf_def option_coins_def)
  show "ledger_wf L'" using assms(2) ledger_wf_entry [OF assms(2) e(1)] by (simp add: L' ledger_wf_upd)
qed

lemma ab_credit_coins:
  assumes "ab_credit C (Some a) am L = Inr L'" "ledger_wf L"
  shows "ledger_coins C L' = ledger_coins C L + unat am" "ledger_wf L'"
proof -
  obtain e where L': "L' = L(a \<mapsto> e)" and e: "entry_coins C e = option_coins C (L a) + unat am" "entry_sizes_ok e"
  proof (cases "L a")
    case None
    then have "ledger_entry_base_cost C \<le> am" "L' = L(a \<mapsto> ledger_entry_default\<lparr>le_balance := am - ledger_entry_base_cost C\<rparr>)"
      using assms(1) by (auto simp: ab_credit_Inr)
    moreover from this(1) have "unat (am - ledger_entry_base_cost C) + unat (ledger_entry_base_cost C) = unat am"
      by (simp add: unat_sub word_le_nat_alt)
    ultimately show ?thesis using None that
      by (auto simp: entry_coins_def option_coins_def ledger_entry_default_def entry_sizes_ok_def)
  next
    case (Some e)
    then have b: "unat (le_balance e) + unat am < 2 ^ 64" and L': "L' = L(a \<mapsto> e\<lparr>le_balance := le_balance e + am\<rparr>)"
      using assms(1) by (auto simp: ab_credit_Inr)
    from b have "unat (le_balance e + am) = unat (le_balance e) + unat am" by (simp add: unat_word_ariths)
    with L' ledger_wf_entry [OF assms(2) Some] show ?thesis
      by (intro that [OF L']) (simp_all add: entry_coins_def option_coins_def Some)
  qed
  show "ledger_coins C L' = ledger_coins C L + unat am"
    using ledger_coins_upd [of L C a e] assms(2) e by (simp add: L' ledger_wf_def)
  show "ledger_wf L'" using assms(2) e(2) by (simp add: L' ledger_wf_upd)
qed

lemma ab_transfer_coins:
  assumes "ab_transfer C f t am L = Inr L'" "ledger_wf L"
  shows "ledger_coins C L' + (if f = None then 0 else unat am) = ledger_coins C L + (if t = None then 0 else unat am)"
    "ledger_wf L'"
proof -
  obtain M where M: "ab_spend f am L = Inr M" "ab_credit C t am M = Inr L'"
    using assms(1) by (auto simp: ab_transfer_def rbind_eq_Inr)
  have m: "ledger_coins C M + (if f = None then 0 else unat am) = ledger_coins C L" "ledger_wf M"
    using M(1) assms(2) ab_spend_coins by (cases f; force simp: ab_spend_Inr)+
  have "ledger_coins C L' = ledger_coins C M + (if t = None then 0 else unat am)" "ledger_wf L'"
    using M(2) m(2) ab_credit_coins by (cases t; force simp: ab_credit_Inr)+
  with m show "ledger_coins C L' + (if f = None then 0 else unat am) = ledger_coins C L + (if t = None then 0 else unat am)"
    "ledger_wf L'" by auto
qed

lemma ab_transfer_keeps:
  assumes "ab_transfer C f t am L = Inr L'" "L a = Some e"
  obtains b where "L' a = Some (e\<lparr>le_balance := b\<rparr>)"
proof -
  obtain M where M: "ab_spend f am L = Inr M" "ab_credit C t am M = Inr L'"
    using assms(1) by (auto simp: ab_transfer_def rbind_eq_Inr)
  obtain b where b: "M a = Some (e\<lparr>le_balance := b\<rparr>)"
  proof (cases "f = Some a")
    case True
    then show ?thesis using M(1) assms(2) that by (auto simp: ab_spend_Inr)
  next
    case False
    then have "M a = Some (e\<lparr>le_balance := le_balance e\<rparr>)"
      using M(1) assms(2) by (auto simp: ab_spend_Inr split: option.splits)
    then show ?thesis by (rule that)
  qed
  show ?thesis
  proof (cases "t = Some a")
    case True
    then show ?thesis using M(2) b by (intro that) (auto simp: ab_credit_Inr)
  next
    case False
    then have "L' a = M a" using M(2) by (auto simp: ab_credit_Inr split: option.splits)
    then show ?thesis using b that by simp
  qed
qed

definition kv_coins :: "storage_costs_constants \<Rightarrow> (bytes \<times> bytes) option \<Rightarrow> nat" where
  "kv_coins C kv = (case kv of None \<Rightarrow> 0 | Some (k, v) \<Rightarrow>
     unat (ledger_entry_datastore_base_cost C) + unat (ledger_cost_per_byte C) * (length k + length v))"

definition kv_sizes_ok :: "(bytes \<times> bytes) option \<Rightarrow> bool" where
  "kv_sizes_ok kv = (case kv of None \<Rightarrow> True | Some (k, v) \<Rightarrow> length k < 2 ^ 64 \<and> length v < 2 ^ 64)"

lemma bytes_cost_coins:
  assumes "bytes_cost C n = Inr c" "n < 2 ^ 64"
  shows "unat c = unat (ledger_cost_per_byte C) * n"
proof -
  have "unat (of_nat n :: u64) = n" using assms(2) by (simp add: unat_of_nat)
  then show ?thesis using assms(1)
    by (auto simp: bytes_cost_def amount_checked_mul_u64_def result_simps word_simps)
qed

lemma datastore_entry_cost_coins:
  assumes "datastore_entry_cost C kv = Inr c" "kv_sizes_ok kv"
  shows "unat c = kv_coins C kv"
proof (cases kv)
  case None
  then show ?thesis using assms by (simp add: datastore_entry_cost_def kv_coins_def amount_zero_def)
next
  case (Some p)
  obtain k v where p: "p = (k, v)" by force
  obtain kc vc d where c: "bytes_cost C (length k) = Inr kc" "bytes_cost C (length v) = Inr vc"
      "amount_checked_add (ledger_entry_datastore_base_cost C) kc = Some d" "amount_checked_add d vc = Some c"
    using assms(1) by (auto simp: Some p datastore_entry_cost_def get_storage_cost_datastore_entry_def result_simps)
  have "unat kc = unat (ledger_cost_per_byte C) * length k" "unat vc = unat (ledger_cost_per_byte C) * length v"
    using c(1,2) assms(2) bytes_cost_coins by (auto simp: Some p kv_sizes_ok_def)
  moreover have "unat d = unat (ledger_entry_datastore_base_cost C) + unat kc" "unat c = unat d + unat vc"
    using c(3,4) by (auto simp: amount_checked_add_def word_simps)
  ultimately show ?thesis by (simp add: Some p kv_coins_def algebra_simps)
qed

lemma data_coins_upd:
  "data_coins C (fmupd k v m) + kv_coins C (map_option (Pair k) (fmlookup m k)) = data_coins C m + kv_coins C (Some (k, v))"
  "data_coins C (fmdrop k m) + kv_coins C (map_option (Pair k) (fmlookup m k)) = data_coins C m"
proof -
  define one where "one = (\<lambda>m k. unat (ledger_entry_datastore_base_cost C)
     + unat (ledger_cost_per_byte C) * (length (k :: bytes) + length (the (fmlookup m k) :: bytes)))"
  have m: "data_coins C m = kv_coins C (map_option (Pair k) (fmlookup m k)) + (\<Sum>j \<in> fmdom' m - {k}. one m j)"
  proof (cases "fmlookup m k")
    case None
    then have "fmdom' m - {k} = fmdom' m" by (auto simp: fmlookup_dom'_iff)
    then show ?thesis using None by (simp add: data_coins_def kv_coins_def one_def)
  next
    case (Some v0)
    then have "k \<in> fmdom' m" by (simp add: fmlookup_dom'_iff)
    from sum.remove [OF finite_fmdom' this, of "one m"] show ?thesis
      using Some by (simp add: data_coins_def kv_coins_def one_def)
  qed
  have "fmdom' (fmupd k v m) = insert k (fmdom' m - {k})" by auto
  then have "data_coins C (fmupd k v m) = (\<Sum>j \<in> insert k (fmdom' m - {k}). one (fmupd k v m) j)"
    by (simp only: data_coins_def one_def)
  also have "\<dots> = kv_coins C (Some (k, v)) + (\<Sum>j \<in> fmdom' m - {k}. one m j)"
  proof -
    have "(\<Sum>j \<in> fmdom' m - {k}. one (fmupd k v m) j) = (\<Sum>j \<in> fmdom' m - {k}. one m j)"
      by (rule sum.cong) (auto simp: one_def)
    moreover have "one (fmupd k v m) k = kv_coins C (Some (k, v))" by (simp add: one_def kv_coins_def)
    ultimately show ?thesis by (subst sum.insert) simp_all
  qed
  finally show "data_coins C (fmupd k v m) + kv_coins C (map_option (Pair k) (fmlookup m k))
      = data_coins C m + kv_coins C (Some (k, v))"
    using m by simp
  have "data_coins C (fmdrop k m) = (\<Sum>j \<in> fmdom' m - {k}. one m j)"
    by (auto simp: data_coins_def one_def intro!: sum.cong)
  with m show "data_coins C (fmdrop k m) + kv_coins C (map_option (Pair k) (fmlookup m k)) = data_coins C m" by simp
qed

lemma ab_charge_coins:
  assumes "ab_charge C caller old new L = Inr L'" "ledger_wf L" "kv_sizes_ok old" "kv_sizes_ok new"
  shows "ledger_coins C L' + kv_coins C new = ledger_coins C L + kv_coins C old" "ledger_wf L'"
proof -
  obtain oc nc where c: "datastore_entry_cost C old = Inr oc" "datastore_entry_cost C new = Inr nc"
    and t: "(if oc < nc then ab_transfer C (Some caller) None (nc - oc) L
        else if nc < oc then ab_transfer C None (Some caller) (oc - nc) L else Inr L) = Inr L'"
    using assms(1) by (auto simp: ab_charge_def result_simps)
  have u: "unat oc = kv_coins C old" "unat nc = kv_coins C new"
    using c assms(3,4) by (simp_all add: datastore_entry_cost_coins)
  have sub: "unat (x - y) = unat x - unat y" "unat y < unat x" if "y < x" for x y :: amount
    using that less_imp_le [OF that] by (simp_all add: unat_sub word_less_nat_alt)
  consider "oc < nc" | "nc < oc" | "oc = nc" by force
  then have "ledger_coins C L' + kv_coins C new = ledger_coins C L + kv_coins C old \<and> ledger_wf L'"
  proof cases
    case 1
    then show ?thesis using t ab_transfer_coins [of C "Some caller" None "nc - oc" L L'] assms(2) sub [OF 1] u by simp
  next
    case 2
    then have "\<not> oc < nc" by simp
    with 2 show ?thesis using t ab_transfer_coins [of C None "Some caller" "oc - nc" L L'] assms(2) sub [OF 2] u by simp
  next
    case 3
    then show ?thesis using t u assms(2) by simp
  qed
  then show "ledger_coins C L' + kv_coins C new = ledger_coins C L + kv_coins C old" "ledger_wf L'" by simp_all
qed

lemma ab_charge_keeps:
  assumes "ab_charge C caller old new L = Inr L'" "L a = Some e"
  obtains b where "L' a = Some (e\<lparr>le_balance := b\<rparr>)"
proof -
  obtain oc nc where t: "(if oc < nc then ab_transfer C (Some caller) None (nc - oc) L
        else if nc < oc then ab_transfer C None (Some caller) (oc - nc) L else Inr L) = Inr L'"
    using assms(1) by (auto simp: ab_charge_def result_simps)
  have "L' a = Some (e\<lparr>le_balance := le_balance e\<rparr>)" if "L' = L" using assms(2) that by simp
  then show ?thesis
    using t ab_transfer_keeps [of C _ _ _ L L' a e] assms(2) that by (metis Inr_inject)
qed

lemma entry_coins_fields:
  "entry_coins C (e\<lparr>le_balance := b, le_bytecode := bc\<rparr>) + unat (ledger_cost_per_byte C) * length (le_bytecode e)
     = entry_coins C (e\<lparr>le_balance := b\<rparr>) + unat (ledger_cost_per_byte C) * length bc"
  "entry_coins C (e\<lparr>le_balance := b, le_datastore := m\<rparr>) + data_coins C (le_datastore e)
     = entry_coins C (e\<lparr>le_balance := b\<rparr>) + data_coins C m"
  by (simp_all add: entry_coins_def)

lemma ab_create_sc_coins:
  assumes "ab_create_sc C ms creator a bc L = Inr L'" "ledger_wf L"
  shows "ledger_coins C L' = ledger_coins C L \<and> ledger_wf L'"
proof -
  obtain cost total M where c: "L a = None" "length bc \<le> unat ms" "bytes_cost C (length bc) = Inr cost"
      "amount_checked_add (ledger_entry_base_cost C) cost = Some total" "ab_transfer C (Some creator) None total L = Inr M"
      "L' = M(a \<mapsto> ledger_entry_default\<lparr>le_bytecode := bc\<rparr>)"
    using assms(1) by (auto simp: ab_create_sc_def result_simps split: if_splits)
  have len: "length bc < 2 ^ 64" using c(2) unsigned_less [of ms, where ?'a = nat] by simp
  have u: "unat total = unat (ledger_entry_base_cost C) + unat (ledger_cost_per_byte C) * length bc"
    using c(4) bytes_cost_coins [OF c(3) len] by (simp add: amount_checked_add_def word_simps)
  have M: "ledger_coins C M + unat total = ledger_coins C L" "ledger_wf M"
    using ab_transfer_coins [OF c(5) assms(2)] by simp_all
  have "M a = None"
    using c(1,5) by (auto simp: ab_transfer_def ab_spend_Inr ab_credit_Inr rbind_eq_Inr)
  then have "ledger_coins C L' = ledger_coins C L"
    using ledger_coins_upd [of M C a "ledger_entry_default\<lparr>le_bytecode := bc\<rparr>"] M u
    by (simp add: c(6) ledger_wf_def option_coins_def entry_coins_def ledger_entry_default_def)
  moreover have "ledger_wf L'"
    using M(2) len by (simp add: c(6) ledger_wf_upd entry_sizes_ok_def ledger_entry_default_def)
  ultimately show ?thesis by simp
qed

lemma ab_set_bytecode_coins:
  assumes "ab_set_bytecode C ms caller a bc L = Inr L'" "ledger_wf L"
  shows "ledger_coins C L' = ledger_coins C L \<and> ledger_wf L'"
proof -
  define p where "p = unat (ledger_cost_per_byte C)"
  obtain e where e: "L a = Some e" using assms(1) by (auto simp: ab_set_bytecode_def split: option.splits)
  define old new where "old = length (le_bytecode e)" and "new = length bc"
  obtain cost M where c: "new \<le> unat ms" "bytes_cost C (if old < new then new - old else old - new) = Inr cost"
      "(if old < new then ab_transfer C (Some caller) None cost L
        else if new < old then ab_transfer C None (Some caller) cost L else Inr L) = Inr M"
      "L' = M(a \<mapsto> (entry_or_default (M a))\<lparr>le_bytecode := bc\<rparr>)"
  proof -
    have size: "\<not> unat ms < length bc" using assms(1) e by (auto simp: ab_set_bytecode_def)
    then show ?thesis
      using assms(1) e that
      by (simp only: ab_set_bytecode_def Let_def option.case if_False rbind_eq_Inr old_def [symmetric] new_def [symmetric] sum.inject)
        (metis not_less)
  qed
  have len: "new < 2 ^ 64" "old < 2 ^ 64"
    using c(1) unsigned_less [of ms, where ?'a = nat] ledger_wf_entry [OF assms(2) e] by (simp_all add: entry_sizes_ok_def old_def)
  then have cost: "unat cost = p * (if old < new then new - old else old - new)"
    using bytes_cost_coins [OF c(2)] by (simp add: p_def)
  have M: "ledger_coins C M + p * new = ledger_coins C L + p * old \<and> ledger_wf M"
  proof (cases "old < new")
    case True
    then have "p * new = p * (new - old) + p * old" by (simp flip: distrib_left)
    with True show ?thesis using c(3) cost assms(2) ab_transfer_coins [of C "Some caller" None cost L M] by simp
  next
    case False
    then have "p * old = p * (old - new) + p * new" by (simp flip: distrib_left)
    with False show ?thesis using c(3) cost assms(2) ab_transfer_coins [of C None "Some caller" cost L M]
      by (auto split: if_splits)
  qed
  obtain b where b: "M a = Some (e\<lparr>le_balance := b\<rparr>)"
  proof (cases "old = new")
    case True
    then have "M a = Some (e\<lparr>le_balance := le_balance e\<rparr>)" using c(3) e by simp
    then show ?thesis by (rule that)
  next
    case False
    then obtain f t where "ab_transfer C f t cost L = Inr M" using c(3) by (auto split: if_splits)
    from ab_transfer_keeps [OF this e] show ?thesis using that by blast
  qed
  have "ledger_coins C L' = ledger_coins C L"
    using ledger_coins_upd [of M C a "e\<lparr>le_balance := b, le_bytecode := bc\<rparr>"] M entry_coins_fields(1) [of C bc b e]
    by (simp add: c(4) b ledger_wf_def option_coins_def entry_or_default_def p_def old_def new_def)
  moreover have "ledger_wf L'"
    using M len ledger_wf_entry [OF assms(2) e]
    by (simp add: c(4) b ledger_wf_upd entry_or_default_def entry_sizes_ok_def new_def)
  ultimately show ?thesis by simp
qed

lemma data_sizes_ok:
  assumes "ledger_wf L" "L a = Some e" "fmlookup (le_datastore e) k = Some v"
  shows "kv_sizes_ok (Some (k, v))"
  using ledger_wf_entry [OF assms(1,2)] assms(3) by (auto simp: entry_sizes_ok_def kv_sizes_ok_def dest: fmpredD)

lemma ab_set_data_coins:
  assumes "ab_set_data C mk mv caller a k v L = Inr L'" "ledger_wf L"
  shows "ledger_coins C L' = ledger_coins C L \<and> ledger_wf L'"
proof -
  obtain e where e: "L a = Some e" using assms(1) by (auto simp: ab_set_data_def split: if_splits)
  define old where "old = map_option (Pair k) (fmlookup (le_datastore e) k)"
  obtain M where c: "length k \<le> unat mk" "length v \<le> unat mv" "ab_charge C caller old (Some (k, v)) L = Inr M"
      "L' = M(a \<mapsto> (entry_or_default (M a))\<lparr>le_datastore := fmupd k v (le_datastore (entry_or_default (M a)))\<rparr>)"
    using assms(1) e by (auto simp: ab_set_data_def Let_def rbind_eq_Inr old_def data_of_def split: if_splits)
  have kv: "kv_sizes_ok (Some (k, v))"
    using c(1,2) unsigned_less [of mk, where ?'a = nat] unsigned_less [of mv, where ?'a = nat] by (simp add: kv_sizes_ok_def)
  have "kv_sizes_ok old"
    using data_sizes_ok [OF assms(2) e, of k] by (cases "fmlookup (le_datastore e) k") (auto simp: old_def kv_sizes_ok_def)
  note M = ab_charge_coins [OF c(3) assms(2) this kv]
  obtain b where b: "M a = Some (e\<lparr>le_balance := b\<rparr>)" using ab_charge_keeps [OF c(3) e] by blast
  have "ledger_coins C L' = ledger_coins C L"
    using ledger_coins_upd [of M C a "e\<lparr>le_balance := b, le_datastore := fmupd k v (le_datastore e)\<rparr>"] M
      entry_coins_fields(2) [of C "fmupd k v (le_datastore e)" b e] data_coins_upd(1) [of C k v "le_datastore e"]
    by (simp add: c(4) b ledger_wf_def option_coins_def entry_or_default_def old_def)
  moreover have "ledger_wf L'"
    using M(2) kv ledger_wf_entry [OF assms(2) e]
    by (auto simp: c(4) b entry_or_default_def entry_sizes_ok_def kv_sizes_ok_def intro!: ledger_wf_upd)
  ultimately show ?thesis by simp
qed

lemma ab_delete_data_coins:
  assumes "ab_delete_data C caller a k L = Inr L'" "ledger_wf L"
  shows "ledger_coins C L' = ledger_coins C L \<and> ledger_wf L'"
proof -
  obtain e v M where e: "L a = Some e" "fmlookup (le_datastore e) k = Some v"
    and c: "ab_charge C caller (Some (k, v)) None L = Inr M"
      "L' = M(a \<mapsto> (entry_or_default (M a))\<lparr>le_datastore := fmdrop k (le_datastore (entry_or_default (M a)))\<rparr>)"
    using assms(1) by (auto simp: ab_delete_data_def Let_def rbind_eq_Inr data_of_def split: option.splits)
  have "kv_sizes_ok None" by (simp add: kv_sizes_ok_def)
  note M = ab_charge_coins [OF c(1) assms(2) data_sizes_ok [OF assms(2) e] this]
  obtain b where b: "M a = Some (e\<lparr>le_balance := b\<rparr>)" using ab_charge_keeps [OF c(1) e(1)] by blast
  have "ledger_coins C L' = ledger_coins C L"
    using ledger_coins_upd [of M C a "e\<lparr>le_balance := b, le_datastore := fmdrop k (le_datastore e)\<rparr>"] M
      entry_coins_fields(2) [of C "fmdrop k (le_datastore e)" b e] data_coins_upd(2) [of C k "le_datastore e"] e(2)
    by (simp add: c(2) b ledger_wf_def option_coins_def entry_or_default_def kv_coins_def)
  moreover have "ledger_wf L'"
    using M(2) ledger_wf_entry [OF assms(2) e(1)]
    by (simp add: c(2) b ledger_wf_upd entry_or_default_def entry_sizes_ok_def fmpred_drop)
  ultimately show ?thesis by simp
qed

section \<open>Properties\<close>

inductive sl_step :: "speculative_ledger \<Rightarrow> speculative_ledger \<Rightarrow> bool" where
  step_transfer: "sl_transfer_coins (Some f) (Some t) am st = Inr st' \<Longrightarrow> sl_step st st'"
| step_create: "sl_create_new_sc_address creator a bc st = Inr st' \<Longrightarrow> sl_step st st'"
| step_bytecode: "sl_set_bytecode caller a bc st = Inr st' \<Longrightarrow> sl_step st st'"
| step_set_data: "sl_set_data_entry caller a k v st = Inr st' \<Longrightarrow> sl_step st st'"
| step_delete_data: "sl_delete_data_entry caller a k st = Inr st' \<Longrightarrow> sl_step st st'"

lemma refines_Inr:
  assumes "refines st (Inr st') q"
  shows "q = Inr (sl_view st')" "sl_ok st'" "sl_storage_costs_constants st' = sl_storage_costs_constants st"
  using assms by (simp_all add: sl_same_limits_def)

lemma sl_step_coins:
  assumes "sl_step st st'" "sl_ok st" "ledger_wf (sl_view st)"
  shows "sl_ok st' \<and> ledger_wf (sl_view st') \<and> sl_storage_costs_constants st' = sl_storage_costs_constants st
    \<and> ledger_coins (sl_storage_costs_constants st) (sl_view st') = ledger_coins (sl_storage_costs_constants st) (sl_view st)"
  using assms(1)
proof cases
  case (step_transfer f t am)
  note r = refines_Inr [OF transfer_refines [OF assms(2), of "Some f" "Some t" am, unfolded step_transfer]]
  show ?thesis using r(2,3) ab_transfer_coins [OF r(1) assms(3)] by simp
next
  case (step_create creator a bc)
  note r = refines_Inr [OF create_sc_refines [OF assms(2), of creator a bc, unfolded step_create]]
  show ?thesis using r(2,3) ab_create_sc_coins [OF r(1) assms(3)] by simp
next
  case (step_bytecode caller a bc)
  note r = refines_Inr [OF set_bytecode_refines [OF assms(2), of caller a bc, unfolded step_bytecode]]
  show ?thesis using r(2,3) ab_set_bytecode_coins [OF r(1) assms(3)] by simp
next
  case (step_set_data caller a k v)
  note r = refines_Inr [OF set_data_refines [OF assms(2), of caller a k v, unfolded step_set_data]]
  show ?thesis using r(2,3) ab_set_data_coins [OF r(1) assms(3)] by simp
next
  case (step_delete_data caller a k)
  note r = refines_Inr [OF delete_data_refines [OF assms(2), of caller a k, unfolded step_delete_data]]
  show ?thesis using r(2,3) ab_delete_data_coins [OF r(1) assms(3)] by simp
qed


definition example_ledger :: speculative_ledger where
  "example_ledger = \<lparr>sl_final_ledger = [Address_User [1] \<mapsto> ledger_entry_default\<lparr>le_balance := 100\<rparr>],
     sl_active_history = [], sl_added_changes = Map.empty, sl_max_datastore_key_length = 4,
     sl_max_datastore_value_size = 10, sl_max_bytecode_size = 10,
     sl_storage_costs_constants = \<lparr>ledger_cost_per_byte = 1, ledger_entry_base_cost = 5, ledger_entry_datastore_base_cost = 2\<rparr>\<rparr>"

lemma example_ledger_ok:
  "sl_ok example_ledger" "ledger_wf (sl_view example_ledger)"
  "sl_view example_ledger = [Address_User [1] \<mapsto> ledger_entry_default\<lparr>le_balance := 100\<rparr>]"
proof -
  show v: "sl_view example_ledger = [Address_User [1] \<mapsto> ledger_entry_default\<lparr>le_balance := 100\<rparr>]"
    by (simp add: sl_view_def sl_below_def example_ledger_def history_ledger_def)
  show "sl_ok example_ledger" by (simp add: sl_ok_def example_ledger_def updates_exist_def)
  show "ledger_wf (sl_view example_ledger)" by (auto simp: v ledger_wf_def split: if_splits)
qed

lemma example_transfer:
  "ab_transfer (sl_storage_costs_constants example_ledger) (Some (Address_User [1])) (Some (Address_User [2])) 30
     (sl_view example_ledger)
   = Inr [Address_User [1] \<mapsto> ledger_entry_default\<lparr>le_balance := 70\<rparr>,
          Address_User [2] \<mapsto> ledger_entry_default\<lparr>le_balance := 25\<rparr>]"
  unfolding example_ledger_ok(3) ab_transfer_def ab_spend_def ab_credit_def
  by (simp add: example_ledger_def ledger_entry_default_def)


text \<open>C27. Coins are conserved: over any sequence of transfers between addresses, creations of smart
  contracts, changes of bytecode, and writes and deletions of datastore entries, the sum over all ledger
  entries of the balance and the cost of the storage they occupy does not change.  Storage is paid and
  refunded exactly, and the creation of an address by a transfer locks its base cost.\<close>

theorem speculative_ledger_conserves_coins:
  assumes "sl_step\<^sup>*\<^sup>* st st'" "sl_ok st" "ledger_wf (sl_view st)"
  shows "ledger_coins (sl_storage_costs_constants st) (sl_view st') = ledger_coins (sl_storage_costs_constants st) (sl_view st)
    \<and> sl_ok st' \<and> ledger_wf (sl_view st')"
proof -
  from assms(1) have "ledger_coins (sl_storage_costs_constants st) (sl_view st')
      = ledger_coins (sl_storage_costs_constants st) (sl_view st)
    \<and> sl_ok st' \<and> ledger_wf (sl_view st') \<and> sl_storage_costs_constants st' = sl_storage_costs_constants st"
  proof induction
    case base
    show ?case using assms(2,3) by simp
  next
    case (step st' st'')
    then show ?case using sl_step_coins [of st' st''] by simp
  qed
  then show ?thesis by simp
qed

theorem speculative_ledger_conserves_coins_witness:
  "\<exists>st'. sl_transfer_coins (Some (Address_User [1])) (Some (Address_User [2])) 30 example_ledger = Inr st'
     \<and> ledger_coins (sl_storage_costs_constants example_ledger) (sl_view st') = 105"
proof -
  note r = transfer_refines [OF example_ledger_ok(1), of "Some (Address_User [1])" "Some (Address_User [2])" 30,
      unfolded example_transfer]
  from r obtain st' where st': "sl_transfer_coins (Some (Address_User [1])) (Some (Address_User [2])) 30 example_ledger = Inr st'"
    by (cases "sl_transfer_coins (Some (Address_User [1])) (Some (Address_User [2])) 30 example_ledger") auto
  then have "sl_step\<^sup>*\<^sup>* example_ledger st'" by (blast intro: sl_step.intros)
  from speculative_ledger_conserves_coins [OF this example_ledger_ok(1,2)] st' show ?thesis
    by (simp add: example_ledger_ok(3) ledger_coins_def entry_coins_def ledger_entry_default_def)
      (simp add: example_ledger_def)
qed

end
