(* ===== verification/Massa_Timeslots.thy ===== *)
theory Massa_Timeslots
  imports Massa_Slot
begin

text \<open>
  \<^verbatim>\<open>massa-time/src/lib.rs\<close> (the arithmetic of \<open>MassaTime\<close>, a number of milliseconds)
  and \<^verbatim>\<open>massa-models/src/timeslots.rs\<close> (the correspondence of slots and timestamps).
  \<open>clock_wf\<close> is the assumption the Rust module states in its header: there is a thread, the
  period is positive and divides into the threads evenly.  Under it the timestamp of a slot
  is linear in the slot number, and looking a timestamp up gives the slot that is in
  progress at that instant.
\<close>

section \<open>MassaTime\<close>

type_synonym massa_time = u64

definition EPSILON :: massa_time where
  "EPSILON = 1"

definition time_saturating_sub :: "massa_time \<Rightarrow> massa_time \<Rightarrow> massa_time" where
  [massa_defs]: "time_saturating_sub self t = saturating_sub self t"

definition time_saturating_add :: "massa_time \<Rightarrow> massa_time \<Rightarrow> massa_time" where
  [massa_defs]: "time_saturating_add self t = saturating_add self t"

definition time_checked_sub :: "massa_time \<Rightarrow> massa_time \<Rightarrow> time_error + massa_time" where
  [massa_defs]: "time_checked_sub self t =
     ok_or (checked_sub self t) (CheckedOperationError ''subtraction error'')"

definition time_checked_add :: "massa_time \<Rightarrow> massa_time \<Rightarrow> time_error + massa_time" where
  [massa_defs]: "time_checked_add self t =
     ok_or (checked_add self t) (CheckedOperationError ''addition error'')"

definition time_checked_div_time :: "massa_time \<Rightarrow> massa_time \<Rightarrow> time_error + u64" where
  [massa_defs]: "time_checked_div_time self t =
     ok_or (checked_div self t) (CheckedOperationError ''division error'')"

definition time_checked_div_u64 :: "massa_time \<Rightarrow> u64 \<Rightarrow> time_error + massa_time" where
  [massa_defs]: "time_checked_div_u64 self n =
     ok_or (checked_div self n) (CheckedOperationError ''division error'')"

definition time_saturating_mul :: "massa_time \<Rightarrow> u64 \<Rightarrow> massa_time" where
  [massa_defs]: "time_saturating_mul self n = saturating_mul self n"

definition time_checked_mul :: "massa_time \<Rightarrow> u64 \<Rightarrow> time_error + massa_time" where
  [massa_defs]: "time_checked_mul self n =
     ok_or (checked_mul self n) (CheckedOperationError ''multiplication error'')"

definition time_checked_rem_time :: "massa_time \<Rightarrow> massa_time \<Rightarrow> time_error + massa_time" where
  [massa_defs]: "time_checked_rem_time self t =
     ok_or (checked_rem self t) (CheckedOperationError ''remainder error'')"

definition time_checked_rem_u64 :: "massa_time \<Rightarrow> u64 \<Rightarrow> time_error + massa_time" where
  [massa_defs]: "time_checked_rem_u64 self n =
     ok_or (checked_rem self n) (CheckedOperationError ''remainder error'')"

definition time_abs_diff :: "massa_time \<Rightarrow> massa_time \<Rightarrow> massa_time" where
  "time_abs_diff self t = (if self < t then t - self else self - t)"

section \<open>Slots and timestamps\<close>

definition slot_count_in_range :: "slot \<Rightarrow> slot \<Rightarrow> u8 \<Rightarrow> models_error + u64" where
  "slot_count_in_range a b thread_count =
     rbind (ok_or (checked_sub (period b) (period a)) TimeOverflowError) (\<lambda>n.
     rbind (ok_or (checked_mul n (u8_to_u64 thread_count)) TimeOverflowError) (\<lambda>n'.
     rbind (ok_or (checked_add n' (u8_to_u64 (thread b))) TimeOverflowError) (\<lambda>n''.
     ok_or (checked_sub n'' (u8_to_u64 (thread a))) TimeOverflowError)))"

definition get_block_slot_timestamp ::
    "u8 \<Rightarrow> massa_time \<Rightarrow> massa_time \<Rightarrow> slot \<Rightarrow> models_error + massa_time" where
  "get_block_slot_timestamp thread_count t0 genesis_timestamp s =
     rbind (map_err (\<lambda>_. TimeOverflowError) (time_checked_div_u64 t0 (u8_to_u64 thread_count))) (\<lambda>d.
     rbind (map_err (\<lambda>_. TimeOverflowError) (time_checked_mul d (u8_to_u64 (thread s)))) (\<lambda>base.
     rbind (map_err (\<lambda>_. TimeOverflowError) (time_checked_mul t0 (period s))) (\<lambda>shift.
     rbind (map_err (\<lambda>_. TimeOverflowError) (time_checked_add genesis_timestamp base)) (\<lambda>g.
     map_err (\<lambda>_. TimeOverflowError) (time_checked_add g shift)))))"

definition get_latest_block_slot_at_timestamp ::
    "u8 \<Rightarrow> massa_time \<Rightarrow> massa_time \<Rightarrow> massa_time \<Rightarrow> models_error + slot option" where
  "get_latest_block_slot_at_timestamp thread_count t0 genesis_timestamp timestamp =
     (case time_checked_sub timestamp genesis_timestamp of
        Inr time_since_genesis \<Rightarrow>
          rbind (map_err TimeError (time_checked_rem_time time_since_genesis t0)) (\<lambda>r.
          rbind (map_err TimeError (time_checked_div_u64 t0 (u8_to_u64 thread_count))) (\<lambda>d.
          rbind (map_err TimeError (time_checked_div_time r d)) (\<lambda>th.
          rbind (map_err TimeError (time_checked_div_time time_since_genesis t0)) (\<lambda>p.
          Inr (Some (Slot p (ucast th)))))))
      | Inl _ \<Rightarrow> Inr None)"

definition slot_of_number :: "u64 \<Rightarrow> u8 \<Rightarrow> models_error + slot" where
  "slot_of_number slot_number thread_count =
     rbind (ok_or (checked_div slot_number (u8_to_u64 thread_count)) TimeOverflowError) (\<lambda>p.
     rbind (ok_or (checked_rem slot_number (u8_to_u64 thread_count)) TimeOverflowError) (\<lambda>t.
     if t \<le> 255 then Inr (Slot p (ucast t)) else Inl ThreadOverflowError))"

definition time_to_slot_bound ::
    "u8 \<Rightarrow> massa_time \<Rightarrow> massa_time \<Rightarrow> massa_time option \<Rightarrow> models_error + slot option" where
  "time_to_slot_bound thread_count t0 genesis_timestamp bnd =
     (case bnd of
        None \<Rightarrow> Inr None
      | Some t \<Rightarrow>
          rbind (map_err TimeError (time_checked_div_u64 t0 (u8_to_u64 thread_count))) (\<lambda>inter_slot.
          rbind (map_err TimeError
            (time_checked_add (time_saturating_sub t genesis_timestamp) inter_slot)) (\<lambda>x.
          rbind (map_err TimeError
            (time_checked_div_time (time_saturating_sub x EPSILON) inter_slot)) (\<lambda>slot_number.
          rbind (slot_of_number slot_number thread_count) (\<lambda>s. Inr (Some s))))))"

definition time_range_to_slot_range ::
    "u8 \<Rightarrow> massa_time \<Rightarrow> massa_time \<Rightarrow> massa_time option \<Rightarrow> massa_time option
      \<Rightarrow> models_error + slot option \<times> slot option" where
  "time_range_to_slot_range thread_count t0 genesis_timestamp start_time end_time =
     rbind (time_to_slot_bound thread_count t0 genesis_timestamp start_time) (\<lambda>start_slot.
     rbind (time_to_slot_bound thread_count t0 genesis_timestamp end_time) (\<lambda>end_slot.
     Inr (start_slot, end_slot)))"

definition get_closest_slot_to_timestamp ::
    "u8 \<Rightarrow> massa_time \<Rightarrow> massa_time \<Rightarrow> massa_time \<Rightarrow> models_error + slot" where
  "get_closest_slot_to_timestamp thread_count t0 genesis_timestamp timestamp =
     (case get_latest_block_slot_at_timestamp thread_count t0 genesis_timestamp timestamp of
        Inl _ \<Rightarrow> Inl Panic
      | Inr None \<Rightarrow> Inr (Slot 0 0)
      | Inr (Some latest_past_slot) \<Rightarrow>
          (case get_block_slot_timestamp thread_count t0 genesis_timestamp latest_past_slot of
             Inl _ \<Rightarrow> Inl Panic
           | Inr t_latest \<Rightarrow>
               (case (time_checked_mul (time_saturating_sub timestamp t_latest) 2,
                      time_checked_div_u64 t0 (u8_to_u64 thread_count)) of
                  (Inr dbl, Inr inter_slot) \<Rightarrow>
                    if dbl \<le> inter_slot then Inr latest_past_slot
                    else Inr (case get_next_slot latest_past_slot thread_count of
                                Inr s \<Rightarrow> s | Inl _ \<Rightarrow> latest_past_slot)
                | _ \<Rightarrow> Inl Panic)))"

section \<open>Correctness\<close>

definition clock_wf :: "u8 \<Rightarrow> massa_time \<Rightarrow> bool" where
  "clock_wf tc t0 \<longleftrightarrow> tc \<noteq> 0 \<and> t0 \<noteq> 0 \<and> unat tc dvd unat t0"

definition inter_slot :: "u8 \<Rightarrow> massa_time \<Rightarrow> nat" where
  "inter_slot tc t0 = unat t0 div unat tc"

lemma clock_wfD:
  assumes "clock_wf tc t0"
  shows "0 < unat tc" "0 < unat t0" "0 < inter_slot tc t0" "unat t0 = inter_slot tc t0 * unat tc"
    "u8_to_u64 tc \<noteq> 0"
proof -
  show c: "0 < unat tc" and t: "0 < unat t0"
    using assms by (simp_all add: clock_wf_def unat_gt_0)
  show eq: "unat t0 = inter_slot tc t0 * unat tc"
    using assms by (simp add: clock_wf_def inter_slot_def)
  then show "0 < inter_slot tc t0" using t by (cases "inter_slot tc t0") auto
  show "u8_to_u64 tc \<noteq> 0"
    using c by (simp add: word_eq_iff_unat)
qed

lemma slot_count_in_range_iff:
  "slot_count_in_range a b tc = Inr n \<longleftrightarrow>
     period a \<le> period b \<and> slot_index tc a + unat n = slot_index tc b
     \<and> unat (period b - period a) * unat tc + unat (thread b) < 2 ^ 64"
proof -
  have idx: "unat (period b) * unat tc = unat (period a) * unat tc + unat d * unat tc"
    if "unat (period b) = unat (period a) + unat d" for d :: u64
    using that by (simp add: add_mult_distrib)
  show ?thesis
  proof (cases "period a \<le> period b")
    case False
    then have "checked_sub (period b) (period a) = None"
      by (simp add: checked_sub_def)
    with False show ?thesis by (simp add: slot_count_in_range_def)
  next
    case True
    define d where "d = period b - period a"
    have sub: "checked_sub (period b) (period a) = Some d"
      using True by (simp add: checked_sub_def d_def)
    then have d: "unat (period b) = unat (period a) + unat d" by (simp add: word_simps)
    have "slot_count_in_range a b tc = Inr n \<longleftrightarrow>
        unat d * unat tc + unat (thread b) < 2 ^ 64 \<and>
        unat d * unat tc + unat (thread b) = unat (thread a) + unat n"
    proof
      assume "slot_count_in_range a b tc = Inr n"
      then obtain m k where "checked_mul d (u8_to_u64 tc) = Some m"
        "checked_add m (u8_to_u64 (thread b)) = Some k" "checked_sub k (u8_to_u64 (thread a)) = Some n"
        by (auto simp: slot_count_in_range_def sub result_simps)
      then show "unat d * unat tc + unat (thread b) < 2 ^ 64 \<and>
        unat d * unat tc + unat (thread b) = unat (thread a) + unat n"
        using u64_less_2p64 [of k] by (simp add: word_simps)
    next
      assume a: "unat d * unat tc + unat (thread b) < 2 ^ 64 \<and>
        unat d * unat tc + unat (thread b) = unat (thread a) + unat n"
      then have m: "checked_mul d (u8_to_u64 tc) = Some (d * u8_to_u64 tc)"
        "unat (d * u8_to_u64 tc) = unat d * unat tc"
        using unat_mul_no_overflow [of d "u8_to_u64 tc"] by (simp_all add: checked_mul_def)
      obtain k where k: "checked_add (d * u8_to_u64 tc) (u8_to_u64 (thread b)) = Some k"
        using a m(2) by (auto simp: checked_add_def)
      then have "unat k = unat (thread a) + unat n"
        using a m(2) by (simp add: word_simps)
      then have "checked_sub k (u8_to_u64 (thread a)) = Some n" by (simp add: word_simps)
      with m(1) k show "slot_count_in_range a b tc = Inr n"
        by (simp add: slot_count_in_range_def sub)
    qed
    then show ?thesis
      using True idx [OF d] by (auto simp: slot_index_def d_def)
  qed
qed

text \<open>The timestamp of a slot is linear in its number; computing it fails only on overflow.\<close>

lemma get_block_slot_timestamp_eq:
  assumes "clock_wf tc t0" "get_block_slot_timestamp tc t0 g s = Inr ts"
  shows "unat ts = unat g + inter_slot tc t0 * slot_index tc s"
proof -
  note wf = clock_wfD [OF assms(1)]
  obtain d b sh x where "checked_div t0 (u8_to_u64 tc) = Some d"
    "checked_mul d (u8_to_u64 (thread s)) = Some b" "checked_mul t0 (period s) = Some sh"
    "checked_add g b = Some x" "checked_add x sh = Some ts"
    using assms(2) by (auto simp: get_block_slot_timestamp_def massa_defs result_simps)
  then have d: "unat d = inter_slot tc t0"
    and b: "unat d * unat (thread s) = unat b" and sh: "unat t0 * unat (period s) = unat sh"
    and x: "unat g + unat b = unat x" and ts: "unat x + unat sh = unat ts"
    by (simp_all add: word_simps inter_slot_def)
  have "unat ts = unat g + (inter_slot tc t0 * unat (thread s) + inter_slot tc t0 * unat tc * unat (period s))"
    using b sh x ts unfolding d wf(4) [symmetric] by linarith
  then show ?thesis by (simp add: slot_index_def algebra_simps)
qed

lemma get_block_slot_timestamp_total:
  assumes "clock_wf tc t0" "unat g + inter_slot tc t0 * slot_index tc s < 2 ^ 64"
  shows "\<exists>ts. get_block_slot_timestamp tc t0 g s = Inr ts"
proof -
  note wf = clock_wfD [OF assms(1)]
  define d where "d = t0 div u8_to_u64 tc"
  have d: "checked_div t0 (u8_to_u64 tc) = Some d" "unat d = inter_slot tc t0"
    using wf(5) by (simp_all add: d_def checked_div_def inter_slot_def unat_div)
  have sum: "unat g + (unat d * unat (thread s) + unat t0 * unat (period s)) < 2 ^ 64"
    using assms(2) wf(4) by (simp add: d(2) slot_index_def algebra_simps)
  obtain b where b: "checked_mul d (u8_to_u64 (thread s)) = Some b"
    using sum by (simp add: checked_mul_def)
  obtain sh where sh: "checked_mul t0 (period s) = Some sh"
    using sum by (simp add: checked_mul_def)
  have bs: "unat d * unat (thread s) = unat b" "unat t0 * unat (period s) = unat sh"
    using b sh by (simp_all add: word_simps)
  obtain x where x: "checked_add g b = Some x"
    using sum bs by (simp add: checked_add_def)
  then have "unat x + unat sh < 2 ^ 64" using sum bs by (simp add: word_simps)
  then obtain ts where "checked_add x sh = Some ts" by (simp add: checked_add_def)
  with d(1) b sh x show ?thesis
    by (simp add: get_block_slot_timestamp_def massa_defs)
qed

lemma nat_mod_div_split:
  fixes x d c :: nat
  assumes "0 < d" "0 < c"
  shows "x mod (d * c) div d = x div d mod c" "x div (d * c) = x div d div c"
  using assms by (simp_all add: mod_mult2_eq div_mult2_eq)

text \<open>The slot at a timestamp is the one whose number is the elapsed time in slot lengths.\<close>

lemma get_latest_block_slot_at_timestamp_eq:
  assumes "clock_wf tc t0" "g \<le> ts"
  shows "\<exists>s. get_latest_block_slot_at_timestamp tc t0 g ts = Inr (Some s) \<and> slot_wf tc s
    \<and> slot_index tc s = (unat ts - unat g) div inter_slot tc t0"
proof -
  note wf = clock_wfD [OF assms(1)]
  let ?d = "inter_slot tc t0" and ?x = "unat ts - unat g"
  define e where "e = ts - g"
  define d where "d = t0 div u8_to_u64 tc"
  have e: "time_checked_sub ts g = Inr e" "unat e = ?x"
    using assms(2) by (simp_all add: e_def time_checked_sub_def checked_sub_def unat_sub_no_underflow)
  have d: "checked_div t0 (u8_to_u64 tc) = Some d" "unat d = ?d"
    using wf(5) by (simp_all add: d_def checked_div_def inter_slot_def unat_div)
  then have d0: "d \<noteq> 0" using wf(3) by auto
  have t00: "t0 \<noteq> 0" using wf(2) by auto
  define th where "th = e mod t0 div d"
  have th: "unat th = ?x div ?d mod unat tc"
    using wf by (simp add: th_def unat_div unat_mod e d nat_mod_div_split)
  then have lt: "unat th < unat tc" using wf(1) by simp
  then have cast: "unat (ucast th :: u8) = unat th"
    using u8_less_256 [of tc] by (intro unat_ucast_u8) linarith
  have p: "unat (e div t0) = ?x div ?d div unat tc"
    using wf by (simp add: unat_div e nat_mod_div_split)
  have res: "get_latest_block_slot_at_timestamp tc t0 g ts = Inr (Some (Slot (e div t0) (ucast th)))"
    using t00 d0 d(1)
    by (simp add: get_latest_block_slot_at_timestamp_def e(1) time_checked_rem_time_def
        time_checked_div_u64_def time_checked_div_time_def checked_rem_def checked_div_def [of e]
        checked_div_def [of "e mod t0"] th_def)
  have "slot_wf tc (Slot (e div t0) (ucast th))"
    using cast lt by (simp add: slot_wf_def word_less_nat_alt)
  moreover have "slot_index tc (Slot (e div t0) (ucast th)) = ?x div ?d"
    using cast th p by (simp add: slot_index_def)
  ultimately show ?thesis using res by blast
qed

lemma get_latest_before_genesis:
  "ts < g \<Longrightarrow> get_latest_block_slot_at_timestamp tc t0 g ts = Inr None"
  by (auto simp: get_latest_block_slot_at_timestamp_def time_checked_sub_def checked_sub_def)

lemma timestamp_slot_roundtrip:
  assumes "clock_wf tc t0" "slot_wf tc s" "get_block_slot_timestamp tc t0 g s = Inr ts"
  shows "get_latest_block_slot_at_timestamp tc t0 g ts = Inr (Some s)"
proof -
  note wf = clock_wfD [OF assms(1)]
  have ts: "unat ts = unat g + inter_slot tc t0 * slot_index tc s"
    using get_block_slot_timestamp_eq [OF assms(1,3)] .
  then have "g \<le> ts" by (simp add: word_le_nat_alt)
  from get_latest_block_slot_at_timestamp_eq [OF assms(1) this]
  obtain u where u: "get_latest_block_slot_at_timestamp tc t0 g ts = Inr (Some u)"
    "slot_wf tc u" "slot_index tc u = slot_index tc s"
    using ts wf(3) by auto
  then show ?thesis using assms(2) by (metis slot_index_inject)
qed


text \<open>The closest slot is at most half a slot length away from the timestamp.\<close>

lemma get_closest_slot_near:
  assumes "clock_wf tc t0" "g \<le> ts" "2 * inter_slot tc t0 \<le> 2 ^ 64"
  shows "\<exists>s. get_closest_slot_to_timestamp tc t0 g ts = Inr s \<and>
    (s = slot_max tc \<or>
     2 * \<bar>int (unat ts) - int (unat g + inter_slot tc t0 * slot_index tc s)\<bar> \<le> int (inter_slot tc t0))"
proof -
  note wf = clock_wfD [OF assms(1)]
  let ?d = "inter_slot tc t0"
  obtain s where s: "get_latest_block_slot_at_timestamp tc t0 g ts = Inr (Some s)" "slot_wf tc s"
    "slot_index tc s = (unat ts - unat g) div ?d"
    using get_latest_block_slot_at_timestamp_eq [OF assms(1,2)] by blast
  have le: "unat g \<le> unat ts" using assms(2) by (simp add: word_le_nat_alt)
  define r where "r = (unat ts - unat g) mod ?d"
  have r: "unat ts = unat g + ?d * slot_index tc s + r" "r < ?d"
    using le wf(3) by (simp_all add: s(3) r_def)
  then have "unat g + ?d * slot_index tc s < 2 ^ 64"
    using u64_less_2p64 [of ts] by linarith
  then obtain tl where tl: "get_block_slot_timestamp tc t0 g s = Inr tl"
    using get_block_slot_timestamp_total [OF assms(1)] by blast
  have tl_eq: "unat tl = unat g + ?d * slot_index tc s"
    using get_block_slot_timestamp_eq [OF assms(1) tl] .
  define dl where "dl = time_saturating_sub ts tl"
  have dl: "unat dl = r"
    using r(1) tl_eq by (simp add: dl_def time_saturating_sub_def unat_saturating_sub)
  have "unat dl * unat (2 :: u64) < 2 ^ 64" using dl r(2) assms(3) by simp
  then obtain dbl where dbl: "time_checked_mul dl 2 = Inr dbl" "unat dbl = 2 * r"
    using dl by (cases "checked_mul dl 2") (auto simp: time_checked_mul_def checked_mul_def
        unat_mul_no_overflow split: if_splits)
  define d where "d = t0 div u8_to_u64 tc"
  have d: "time_checked_div_u64 t0 (u8_to_u64 tc) = Inr d" "unat d = ?d"
    using wf(5) by (simp_all add: d_def time_checked_div_u64_def checked_div_def inter_slot_def unat_div)
  have res: "get_closest_slot_to_timestamp tc t0 g ts =
      (if dbl \<le> d then Inr s
       else Inr (case get_next_slot s tc of Inr s' \<Rightarrow> s' | Inl _ \<Rightarrow> s))"
    using s(1) tl dbl(1) d(1) by (simp add: get_closest_slot_to_timestamp_def dl_def)
  show ?thesis
  proof (cases "dbl \<le> d")
    case True
    then have "2 * r \<le> ?d" using dbl(2) d(2) by (simp add: word_le_nat_alt)
    with True res r show ?thesis by auto
  next
    case False
    then have gt: "?d < 2 * r" using dbl(2) d(2) by (simp add: word_le_nat_alt)
    from get_next_slot_total [OF s(2)] show ?thesis
    proof (elim disjE exE conjE)
      fix u assume u: "get_next_slot s tc = Inr u"
      have "slot_index tc u = slot_index tc s + 1" using get_next_slot_index [OF s(2) u] by simp
      then have "int (unat ts) - int (unat g + ?d * slot_index tc u) = int r - int ?d"
        using r(1) by (simp add: algebra_simps)
      with gt r(2) False u res show ?thesis by auto
    next
      assume "get_next_slot s tc = Inl PeriodOverflowError" "s = slot_max tc"
      with False res show ?thesis by auto
    qed
  qed
qed

text \<open>
  Converting a time range: a slot lies in the resulting slot range exactly when its timestamp
  lies in the time range.
\<close>

lemma nat_ceil_div_le_iff:
  fixes x d k :: nat
  assumes "0 < d"
  shows "(x + d - 1) div d \<le> k \<longleftrightarrow> x \<le> d * k"
proof -
  have "(x + d - 1) div d \<le> k \<longleftrightarrow> (x + d - 1) div d < Suc k" by auto
  also have "\<dots> \<longleftrightarrow> x + d - 1 < Suc k * d" using assms by (simp add: div_less_iff_less_mult)
  also have "\<dots> \<longleftrightarrow> x \<le> d * k" using assms by (auto simp: algebra_simps)
  finally show ?thesis .
qed

lemma time_to_slot_bound_index:
  assumes "clock_wf tc t0" "time_to_slot_bound tc t0 g (Some t) = Inr r"
  shows "\<exists>s. r = Some s \<and> slot_wf tc s
    \<and> slot_index tc s = (unat t - unat g + inter_slot tc t0 - 1) div inter_slot tc t0"
proof -
  note wf = clock_wfD [OF assms(1)]
  obtain d x n s where "checked_div t0 (u8_to_u64 tc) = Some d"
    and "checked_add (saturating_sub t g) d = Some x"
    and "checked_div (saturating_sub x EPSILON) d = Some n"
    and s: "slot_of_number n tc = Inr s" "r = Some s"
    using assms(2) by (auto simp: time_to_slot_bound_def massa_defs result_simps)
  then have d: "unat d = inter_slot tc t0" and x: "unat t - unat g + unat d = unat x"
    and n: "unat n = (unat x - 1) div unat d"
    by (simp_all add: word_simps inter_slot_def EPSILON_def)
  obtain p q where "checked_div n (u8_to_u64 tc) = Some p" "checked_rem n (u8_to_u64 tc) = Some q"
    and sq: "s = Slot p (ucast q)"
    using s(1) by (auto simp: slot_of_number_def result_simps split: if_splits)
  then have pq: "unat p = unat n div unat tc" "unat q = unat n mod unat tc"
    by (simp_all add: word_simps)
  have lt: "unat q < unat tc" using pq(2) wf(1) by simp
  then have "unat (ucast q :: u8) = unat q"
    using u8_less_256 [of tc] by (intro unat_ucast_u8) linarith
  then have "slot_wf tc s" "slot_index tc s = unat n"
    using lt pq by (simp_all add: sq slot_wf_def slot_index_def word_less_nat_alt)
  then show ?thesis using s(2) n x d by simp
qed

lemma time_to_slot_bound_exact:
  assumes "clock_wf tc t0" "time_to_slot_bound tc t0 g (Some t) = Inr (Some s)"
    and "slot_wf tc u" "get_block_slot_timestamp tc t0 g u = Inr tu"
  shows "s \<le> u \<longleftrightarrow> t \<le> tu"
proof -
  note wf = clock_wfD [OF assms(1)]
  have s: "slot_wf tc s"
    "slot_index tc s = (unat t - unat g + inter_slot tc t0 - 1) div inter_slot tc t0"
    using time_to_slot_bound_index [OF assms(1,2)] by auto
  have "s \<le> u \<longleftrightarrow> slot_index tc s \<le> slot_index tc u"
    using s(1) assms(3) by (simp add: slot_index_le_iff)
  also have "\<dots> \<longleftrightarrow> unat t - unat g \<le> inter_slot tc t0 * slot_index tc u"
    by (simp only: s(2) nat_ceil_div_le_iff [OF wf(3)])
  also have "\<dots> \<longleftrightarrow> t \<le> tu"
    using get_block_slot_timestamp_eq [OF assms(1,4)] by (auto simp: word_le_nat_alt)
  finally show ?thesis .
qed

section \<open>Properties\<close>

text \<open>C20. With a slot length that divides evenly, the slot found at the timestamp of a block slot is
  that slot, and the timestamp is the genesis time plus the slot number times the slot length.\<close>

theorem block_slot_timestamp_roundtrip:
  assumes "clock_wf tc t0" "slot_wf tc s" "get_block_slot_timestamp tc t0 g s = Inr ts"
  shows "get_latest_block_slot_at_timestamp tc t0 g ts = Inr (Some s)
    \<and> unat ts = unat g + inter_slot tc t0 * slot_index tc s"
  using timestamp_slot_roundtrip [OF assms] get_block_slot_timestamp_eq [OF assms(1,3)] by simp

theorem block_slot_timestamp_roundtrip_witness:
  "get_latest_block_slot_at_timestamp 32 16000 1000 25500 = Inr (Some (Slot 1 17))"
  using block_slot_timestamp_roundtrip [of 32 16000 "Slot 1 17" 1000 25500]
  by (simp add: clock_wf_def slot_wf_def get_block_slot_timestamp_def massa_defs result_simps
      checked_div_def checked_mul_def checked_add_def)

text \<open>C21. The slot range of a time range is exact: a slot is at or after the start slot computed for a
  start time exactly when its own timestamp is at or after that time, and it is before the end slot
  computed for an end time exactly when its timestamp is before that time.\<close>

theorem time_range_to_slot_range_exact:
  assumes "clock_wf tc t0"
    and "time_range_to_slot_range tc t0 g (Some t_start) (Some t_end) = Inr (s_start, s_end)"
    and "slot_wf tc u" "get_block_slot_timestamp tc t0 g u = Inr tu"
  shows "\<exists>a b. s_start = Some a \<and> s_end = Some b \<and> (a \<le> u \<and> u < b \<longleftrightarrow> t_start \<le> tu \<and> tu < t_end)"
proof -
  have r: "time_to_slot_bound tc t0 g (Some t_start) = Inr s_start"
    "time_to_slot_bound tc t0 g (Some t_end) = Inr s_end"
    using assms(2) by (auto simp: time_range_to_slot_range_def result_simps)
  obtain a b where ab: "s_start = Some a" "s_end = Some b"
    using time_to_slot_bound_index [OF assms(1) r(1)] time_to_slot_bound_index [OF assms(1) r(2)] by auto
  have "a \<le> u \<longleftrightarrow> t_start \<le> tu" "b \<le> u \<longleftrightarrow> t_end \<le> tu"
    using time_to_slot_bound_exact [OF assms(1) _ assms(3,4)] r ab by auto
  with ab show ?thesis by (auto simp: not_le [symmetric])
qed

theorem time_range_to_slot_range_exact_witness:
  "\<exists>a b. time_range_to_slot_range 2 16000 0 (Some 7000) (Some 16001) = Inr (Some a, Some b)
     \<and> a \<le> Slot 1 0 \<and> Slot 1 0 < b"
proof -
  have r: "time_range_to_slot_range 2 16000 0 (Some 7000) (Some 16001) = Inr (Some (Slot 0 1), Some (Slot 1 1))"
    by (simp add: time_range_to_slot_range_def time_to_slot_bound_def slot_of_number_def massa_defs
        result_simps checked_div_def checked_rem_def checked_add_def saturating_sub_def EPSILON_def)
  have "get_block_slot_timestamp 2 16000 0 (Slot 1 0) = Inr 16000"
    by (simp add: get_block_slot_timestamp_def massa_defs result_simps checked_div_def checked_mul_def checked_add_def)
  with time_range_to_slot_range_exact [OF _ r, of "Slot 1 0" 16000] r show ?thesis
    by (simp add: clock_wf_def slot_wf_def)
qed



end
