(* ===== verification/Massa_Mip_State.thy ===== *)
theory Massa_Mip_State
  imports Massa_Async_Msg Massa_Timeslots "HOL-Library.Product_Lexorder"
begin

text \<open>
  Improvement proposals (MIPs) and the state machine of their deployment: \<^verbatim>\<open>MipInfo\<close>, \<^verbatim>\<open>ComponentState\<close> and
  \<^verbatim>\<open>MipState\<close> of \<^verbatim>\<open>massa-versioning/src/versioning.rs\<close>.

  A proposal is defined, started, locked in by votes, and active after a delay, or it fails at its timeout.
  The states that advancing can reach are described by \<open>mip_shape\<close>; the consistency check accepts exactly
  those, and the state at an instant is active exactly past the activation instant.

  The dispatch on the state that the \<open>machine\<close> package generates is \<open>component_on_advance\<close>; a vote ratio
  is a rational number, as in \<open>Massa_Async_Msg\<close>.
\<close>

section \<open>Proposals\<close>

datatype mip_component =
    MC_Address | MC_KeyPair | MC_Block | MC_VM | MC_FinalStateHashKind | MC_Execution | MC_FinalState | MC_Nonexhaustive

fun mip_component_id :: "mip_component \<Rightarrow> u32" where
  "mip_component_id MC_Address = 0"
| "mip_component_id MC_KeyPair = 1"
| "mip_component_id MC_Block = 2"
| "mip_component_id MC_VM = 3"
| "mip_component_id MC_FinalStateHashKind = 4"
| "mip_component_id MC_Execution = 5"
| "mip_component_id MC_FinalState = 6"
| "mip_component_id MC_Nonexhaustive = 7"

lemma mip_component_id_inject: "mip_component_id a = mip_component_id b \<Longrightarrow> a = b"
  by (cases a; cases b) simp_all

instantiation mip_component :: linorder
begin

definition less_eq_mip_component :: "mip_component \<Rightarrow> mip_component \<Rightarrow> bool" where
  "less_eq_mip_component a b \<longleftrightarrow> mip_component_id a \<le> mip_component_id b"

definition less_mip_component :: "mip_component \<Rightarrow> mip_component \<Rightarrow> bool" where
  "less_mip_component a b \<longleftrightarrow> mip_component_id a < mip_component_id b"

instance
  by standard (auto simp: less_eq_mip_component_def less_mip_component_def intro: mip_component_id_inject)

end

datatype mip_info = MipInfo
  (mi_name: bytes)
  (mi_version: u32)
  (mi_components: "(mip_component, u32) btree")
  (mi_start: massa_time)
  (mi_timeout: massa_time)
  (mi_activation_delay: massa_time)

definition mip_info_key ::
    "mip_info \<Rightarrow> massa_time \<times> massa_time \<times> massa_time \<times> bytes \<times> u32 \<times> (mip_component \<times> u32) list" where
  "mip_info_key mi = (mi_start mi, mi_timeout mi, mi_activation_delay mi, mi_name mi, mi_version mi, mi_components mi)"

lemma mip_info_key_inject: "mip_info_key a = mip_info_key b \<Longrightarrow> a = b"
  by (cases a; cases b) (simp add: mip_info_key_def)

instantiation mip_info :: linorder
begin

definition less_eq_mip_info :: "mip_info \<Rightarrow> mip_info \<Rightarrow> bool" where
  "less_eq_mip_info a b \<longleftrightarrow> mip_info_key a \<le> mip_info_key b"

definition less_mip_info :: "mip_info \<Rightarrow> mip_info \<Rightarrow> bool" where
  "less_mip_info a b \<longleftrightarrow> mip_info_key a < mip_info_key b"

instance
  by standard (auto simp: less_eq_mip_info_def less_mip_info_def intro: mip_info_key_inject)

end

section \<open>The state machine\<close>

datatype component_state =
    Defined
  | Started (vote_ratio: rat)
  | LockedIn (locked_in_at: massa_time)
  | Active (active_at: massa_time)
  | Failed
  | ErrorState

datatype component_state_type_id = ID_Error | ID_Defined | ID_Started | ID_LockedIn | ID_Active | ID_Failed

fun component_state_id :: "component_state \<Rightarrow> component_state_type_id" where
  "component_state_id ErrorState = ID_Error"
| "component_state_id Defined = ID_Defined"
| "component_state_id (Started _) = ID_Started"
| "component_state_id (LockedIn _) = ID_LockedIn"
| "component_state_id (Active _) = ID_Active"
| "component_state_id Failed = ID_Failed"

fun state_type_number :: "component_state_type_id \<Rightarrow> u32" where
  "state_type_number ID_Error = 0"
| "state_type_number ID_Defined = 1"
| "state_type_number ID_Started = 2"
| "state_type_number ID_LockedIn = 3"
| "state_type_number ID_Active = 4"
| "state_type_number ID_Failed = 5"

fun component_is_final :: "component_state \<Rightarrow> bool" where
  "component_is_final (Active _) = True"
| "component_is_final Failed = True"
| "component_is_final ErrorState = True"
| "component_is_final _ = False"

record advance =
  start_timestamp :: massa_time
  timeout :: massa_time
  activation_delay :: massa_time
  threshold :: rat
  now :: massa_time

definition VERSIONING_THRESHOLD_TRANSITION_ACCEPTED :: rat where
  "VERSIONING_THRESHOLD_TRANSITION_ACCEPTED = ratio_new 50 100"

definition defined_on_advance :: "advance \<Rightarrow> component_state" where
  "defined_on_advance input =
     (if timeout input \<le> now input then Failed
      else if start_timestamp input \<le> now input then Started 0
      else Defined)"

definition started_on_advance :: "advance \<Rightarrow> component_state" where
  "started_on_advance input =
     (if timeout input \<le> now input then Failed
      else if VERSIONING_THRESHOLD_TRANSITION_ACCEPTED \<le> threshold input then LockedIn (now input)
      else Started (threshold input))"

definition locked_in_on_advance :: "massa_time \<Rightarrow> advance \<Rightarrow> component_state" where
  "locked_in_on_advance since input =
     (if time_saturating_add since (activation_delay input) < now input then Active (now input) else LockedIn since)"

fun component_on_advance :: "component_state \<Rightarrow> advance \<Rightarrow> component_state" where
  "component_on_advance Defined input = defined_on_advance input"
| "component_on_advance (Started _) input = started_on_advance input"
| "component_on_advance (LockedIn since) input = locked_in_on_advance since input"
| "component_on_advance (Active since) input = Active since"
| "component_on_advance Failed input = Failed"
| "component_on_advance ErrorState input = ErrorState"

text \<open>The key of the history, \<^verbatim>\<open>AdvanceLW\<close>, is ordered by the time and then by the ratio.\<close>

type_synonym advance_lw = "massa_time \<times> rat"

record mip_state =
  ms_state :: component_state
  ms_history :: "(advance_lw, component_state_type_id) btree"

definition mip_state_new :: "massa_time \<Rightarrow> mip_state" where
  "mip_state_new defined = \<lparr>ms_state = Defined, ms_history = [((defined, 0), ID_Defined)]\<rparr>"

definition reset_from :: "mip_state \<Rightarrow> mip_state option" where
  "reset_from self =
     (case ms_history self of
        (advance, state_id) # _ \<Rightarrow> if state_id = ID_Defined then Some (mip_state_new (fst advance)) else None
      | [] \<Rightarrow> None)"

fun is_started :: "component_state \<Rightarrow> bool" where
  "is_started (Started _) = True"
| "is_started _ = False"

definition last_time :: "mip_state \<Rightarrow> massa_time" where
  "last_time self = fst (fst (last (ms_history self)))"

definition mip_on_advance :: "advance \<Rightarrow> mip_state \<Rightarrow> mip_state" where
  "mip_on_advance input self =
     (let is_forward = ms_history self \<noteq> [] \<and> last_time self < now input
      in if is_forward then
           (let state = component_on_advance (ms_state self) input
            in if state \<noteq> ms_state self then
                 self\<lparr>ms_state := state,
                   ms_history :=
                     (if is_started state \<and> is_started (ms_state self) then ms_history self
                      else bt_insert (now input, threshold input) (component_state_id state) (ms_history self))\<rparr>
               else self)
         else self)"

definition advance_for :: "mip_info \<Rightarrow> rat \<Rightarrow> massa_time \<Rightarrow> advance" where
  "advance_for mi ratio ts =
     \<lparr>start_timestamp = mi_start mi, timeout = mi_timeout mi, activation_delay = mi_activation_delay mi,
      threshold = ratio, now = ts\<rparr>"

datatype is_consistent_error =
    EmptyHistory
  | AtError
  | InvalidHistory component_state_type_id
  | NonConsistent component_state component_state
  | Invalid

definition replay :: "mip_info \<Rightarrow> (advance_lw \<times> component_state_type_id) list \<Rightarrow> mip_state \<Rightarrow> mip_state" where
  "replay mi entries = fold (\<lambda>(adv, _). mip_on_advance (advance_for mi (snd adv) (fst adv))) entries"

definition is_consistent_with :: "mip_state \<Rightarrow> mip_info \<Rightarrow> is_consistent_error + unit" where
  "is_consistent_with self mi =
     (if ms_state self = ErrorState then Inl AtError
      else if mi_timeout mi \<le> mi_start mi then Inl Invalid
      else
        (case ms_history self of
           [] \<Rightarrow> Inl EmptyHistory
         | (initial_ts, initial_state_id) # entries \<Rightarrow>
             if initial_state_id \<noteq> ID_Defined then Inl (InvalidHistory initial_state_id)
             else if mi_start mi < fst initial_ts \<or> mi_timeout mi < fst initial_ts then Inl (InvalidHistory initial_state_id)
             else
               (let vsh = replay mi entries (mip_state_new (fst initial_ts));
                    vsh =
                      (case (ms_state vsh, ms_state self) of
                         (Started ratio, Started ratio_2) \<Rightarrow>
                           if ratio_2 \<noteq> ratio
                           then mip_on_advance (advance_for mi ratio_2 (time_saturating_add (last_time self) 1)) vsh
                           else vsh
                       | _ \<Rightarrow> vsh)
                in if vsh = self then Inr () else Inl (NonConsistent (ms_state self) (ms_state vsh)))))"

datatype state_at_error = BeforeInitialState component_state_type_id massa_time | StateAt_EmptyHistory | Unpredictable

fun find_bounds ::
    "massa_time \<Rightarrow> (advance_lw \<times> component_state_type_id) option \<Rightarrow> (advance_lw, component_state_type_id) btree
     \<Rightarrow> (advance_lw \<times> component_state_type_id) option \<times> (advance_lw \<times> component_state_type_id) option" where
  "find_bounds ts lower_bound [] = (lower_bound, None)"
| "find_bounds ts lower_bound ((adv, state_id) # entries) =
     (let lower_bound = (if fst adv \<le> ts then Some (adv, state_id) else lower_bound)
      in if ts \<le> fst adv then (lower_bound, Some (adv, state_id)) else find_bounds ts lower_bound entries)"

definition state_at ::
    "mip_state \<Rightarrow> massa_time \<Rightarrow> massa_time \<Rightarrow> massa_time \<Rightarrow> massa_time \<Rightarrow> state_at_error + component_state_type_id" where
  "state_at self ts start tmout delay =
     (case ms_history self of
        [] \<Rightarrow> Inl StateAt_EmptyHistory
      | (adv0, id0) # _ \<Rightarrow>
          if ts < fst adv0 then Inl (BeforeInitialState id0 ts)
          else
            (case (if last_time self < ts then (Some (last (ms_history self)), None)
                   else find_bounds ts None (ms_history self)) of
               (Some (_, st_id_1), Some _) \<Rightarrow> Inr st_id_1
             | (Some (adv, st_id), None) \<Rightarrow>
                 if st_id = ID_Started \<and> snd adv < VERSIONING_THRESHOLD_TRANSITION_ACCEPTED \<and> ts < tmout
                 then Inl Unpredictable
                 else
                   Inr (component_state_id (component_on_advance (ms_state self)
                     \<lparr>start_timestamp = start, timeout = tmout, activation_delay = delay, threshold = snd adv, now = ts\<rparr>))
             | _ \<Rightarrow> Inl StateAt_EmptyHistory))"

definition activation_at :: "mip_state \<Rightarrow> mip_info \<Rightarrow> massa_time option" where
  "activation_at self mi =
     (case ms_state self of
        LockedIn since \<Rightarrow> Some (time_saturating_add since (mi_activation_delay mi))
      | _ \<Rightarrow> None)"

definition mip_is_final :: "mip_state \<Rightarrow> bool" where
  "mip_is_final self = component_is_final (ms_state self)"

section \<open>Reachable states\<close>

inductive mip_reachable :: "mip_info \<Rightarrow> massa_time \<Rightarrow> mip_state \<Rightarrow> bool" for mi d where
  reach_new: "mip_reachable mi d (mip_state_new d)"
| reach_advance: "mip_reachable mi d st \<Longrightarrow> mip_reachable mi d (mip_on_advance (advance_for mi ratio ts) st)"

text \<open>The course of a deployment, with the transitions that its history records.\<close>

inductive mip_shape :: "mip_info \<Rightarrow> massa_time \<Rightarrow> mip_state \<Rightarrow> bool" for mi d where
  shape_defined: "mip_shape mi d \<lparr>ms_state = Defined, ms_history = [((d, 0), ID_Defined)]\<rparr>"
| shape_started:
    "d < s \<Longrightarrow> mi_start mi \<le> s \<Longrightarrow> s < mi_timeout mi
     \<Longrightarrow> v = 0 \<or> v < VERSIONING_THRESHOLD_TRANSITION_ACCEPTED \<and> unat s + 1 < unat (mi_timeout mi)
     \<Longrightarrow> mip_shape mi d \<lparr>ms_state = Started v, ms_history = [((d, 0), ID_Defined), ((s, r), ID_Started)]\<rparr>"
| shape_locked:
    "d < s \<Longrightarrow> mi_start mi \<le> s \<Longrightarrow> s < l \<Longrightarrow> l < mi_timeout mi
     \<Longrightarrow> VERSIONING_THRESHOLD_TRANSITION_ACCEPTED \<le> q
     \<Longrightarrow> mip_shape mi d \<lparr>ms_state = LockedIn l,
           ms_history = [((d, 0), ID_Defined), ((s, r), ID_Started), ((l, q), ID_LockedIn)]\<rparr>"
| shape_active:
    "d < s \<Longrightarrow> mi_start mi \<le> s \<Longrightarrow> s < l \<Longrightarrow> l < mi_timeout mi
     \<Longrightarrow> VERSIONING_THRESHOLD_TRANSITION_ACCEPTED \<le> q
     \<Longrightarrow> time_saturating_add l (mi_activation_delay mi) < a
     \<Longrightarrow> mip_shape mi d \<lparr>ms_state = Active a,
           ms_history = [((d, 0), ID_Defined), ((s, r), ID_Started), ((l, q), ID_LockedIn), ((a, p), ID_Active)]\<rparr>"
| shape_never_started:
    "d < f \<Longrightarrow> mi_timeout mi \<le> f
     \<Longrightarrow> mip_shape mi d \<lparr>ms_state = Failed, ms_history = [((d, 0), ID_Defined), ((f, r), ID_Failed)]\<rparr>"
| shape_not_voted:
    "d < s \<Longrightarrow> mi_start mi \<le> s \<Longrightarrow> s < mi_timeout mi \<Longrightarrow> mi_timeout mi \<le> f
     \<Longrightarrow> mip_shape mi d \<lparr>ms_state = Failed,
           ms_history = [((d, 0), ID_Defined), ((s, r), ID_Started), ((f, q), ID_Failed)]\<rparr>"

inductive_cases mip_shape_cases: "mip_shape mi d st"

lemma saturating_add_ge: "a \<le> time_saturating_add a b"
  using unsigned_less [of a, where ?'a = nat] by (simp add: time_saturating_add_def word_le_nat_alt word_simps)

lemma bt_insert_later:
  fixes h :: "(advance_lw, 'v) btree"
  shows "(\<forall>e \<in> set h. fst (fst e) < ts) \<Longrightarrow> bt_insert (ts, r) x h = h @ [((ts, r), x)]"
  by (induction h) (auto simp: less_prod_def)

text \<open>An advance that is not later than the last recorded transition changes nothing; a later one appends the transition.\<close>

lemma mip_on_advance_not_forward: "\<not> last_time st < ts \<Longrightarrow> mip_on_advance (advance_for mi ratio ts) st = st"
  by (simp add: mip_on_advance_def advance_for_def Let_def)

lemma mip_on_advance_forward:
  assumes "ms_history st \<noteq> []" "last_time st < ts" "\<forall>e \<in> set (ms_history st). fst (fst e) \<le> last_time st"
  shows "mip_on_advance (advance_for mi ratio ts) st =
    (let state = component_on_advance (ms_state st) (advance_for mi ratio ts)
     in if state = ms_state st then st
        else if is_started state \<and> is_started (ms_state st) then st\<lparr>ms_state := state\<rparr>
        else st\<lparr>ms_state := state, ms_history := ms_history st @ [((ts, ratio), component_state_id state)]\<rparr>)"
proof -
  have "bt_insert (ts, ratio) x (ms_history st) = ms_history st @ [((ts, ratio), x)]" for x
    using assms(2,3) by (intro bt_insert_later) (auto intro: le_less_trans)
  then show ?thesis
    using assms(1,2) by (simp add: mip_on_advance_def advance_for_def Let_def)
qed

lemma mip_shape_history:
  assumes "mip_shape mi d st"
  shows "ms_history st \<noteq> []" "\<forall>e \<in> set (ms_history st). fst (fst e) \<le> last_time st" "ms_state st \<noteq> ErrorState"
    "\<exists>t. ms_history st = ((d, 0), ID_Defined) # t" "d \<le> last_time st"
proof -
  have "ms_history st \<noteq> [] \<and> (\<forall>e \<in> set (ms_history st). fst (fst e) \<le> last_time st) \<and> ms_state st \<noteq> ErrorState
      \<and> (\<exists>t. ms_history st = ((d, 0), ID_Defined) # t) \<and> d \<le> last_time st"
    using assms
  proof cases
    case (shape_active s l q a r p)
    then have "l < a" using saturating_add_ge [of l "mi_activation_delay mi"] by simp
    with shape_active show ?thesis by (auto simp: last_time_def)
  qed (auto simp: last_time_def)
  then show "ms_history st \<noteq> []" "\<forall>e \<in> set (ms_history st). fst (fst e) \<le> last_time st" "ms_state st \<noteq> ErrorState"
    "\<exists>t. ms_history st = ((d, 0), ID_Defined) # t" "d \<le> last_time st" by blast+
qed

lemma mip_shape_advance:
  assumes "mip_shape mi d st"
  shows "mip_shape mi d (mip_on_advance (advance_for mi ratio ts) st)"
proof (cases "last_time st < ts")
  case False
  then show ?thesis using assms by (simp add: mip_on_advance_not_forward)
next
  case True
  define st' where "st' = mip_on_advance (advance_for mi ratio ts) st"
  note forward = mip_on_advance_forward [OF mip_shape_history(1) [OF assms] True mip_shape_history(2) [OF assms],
      of mi ratio, folded st'_def]
  have "mip_shape mi d st'"
    using assms
  proof cases
    case shape_defined
    then show ?thesis using True
      by (auto simp: forward Let_def defined_on_advance_def advance_for_def last_time_def not_le intro: mip_shape.intros)
  next
    case (shape_started s v r)
    then have s: "s < ts" using True by (simp add: last_time_def)
    have "unat s + 1 < unat (mi_timeout mi)" if "ts < mi_timeout mi"
      using s that by (simp add: word_less_nat_alt)
    then show ?thesis using shape_started s
      by (auto simp: forward Let_def started_on_advance_def advance_for_def not_le intro!: mip_shape.intros)
  next
    case (shape_locked s l q r)
    then show ?thesis
      by (auto simp: forward Let_def locked_in_on_advance_def advance_for_def not_le intro: mip_shape.intros)
  qed (auto simp: forward Let_def intro: mip_shape.intros)
  then show ?thesis by (simp add: st'_def)
qed

lemma mip_reachable_shape: "mip_reachable mi d st \<Longrightarrow> mip_shape mi d st"
  by (induction rule: mip_reachable.induct) (auto simp: mip_state_new_def intro: mip_shape_advance mip_shape.intros)

text \<open>The single transitions.\<close>

lemmas advance_simps = mip_on_advance_def advance_for_def last_time_def defined_on_advance_def started_on_advance_def
  locked_in_on_advance_def Let_def bt_insert_later

lemma advance_start:
  "d < s \<Longrightarrow> mi_start mi \<le> s \<Longrightarrow> s < mi_timeout mi
   \<Longrightarrow> mip_on_advance (advance_for mi r s) \<lparr>ms_state = Defined, ms_history = [((d, 0), ID_Defined)]\<rparr>
     = \<lparr>ms_state = Started 0, ms_history = [((d, 0), ID_Defined), ((s, r), ID_Started)]\<rparr>"
  by (auto simp: advance_simps)

lemma advance_vote:
  "s < t \<Longrightarrow> t < mi_timeout mi \<Longrightarrow> q < VERSIONING_THRESHOLD_TRANSITION_ACCEPTED
   \<Longrightarrow> mip_on_advance (advance_for mi q t) \<lparr>ms_state = Started v, ms_history = [e, ((s, r), ID_Started)]\<rparr>
     = \<lparr>ms_state = Started q, ms_history = [e, ((s, r), ID_Started)]\<rparr>"
  by (auto simp: advance_simps)

lemma advance_lock:
  "d < s \<Longrightarrow> s < l \<Longrightarrow> l < mi_timeout mi \<Longrightarrow> VERSIONING_THRESHOLD_TRANSITION_ACCEPTED \<le> q
   \<Longrightarrow> mip_on_advance (advance_for mi q l) \<lparr>ms_state = Started v, ms_history = [((d, z), i), ((s, r), j)]\<rparr>
     = \<lparr>ms_state = LockedIn l, ms_history = [((d, z), i), ((s, r), j), ((l, q), ID_LockedIn)]\<rparr>"
  by (auto simp: advance_simps)

lemma advance_activate:
  assumes "d < s" "s < l" "time_saturating_add l (mi_activation_delay mi) < a"
  shows "mip_on_advance (advance_for mi p a) \<lparr>ms_state = LockedIn l, ms_history = [((d, z), i), ((s, r), j), ((l, q), k)]\<rparr>
     = \<lparr>ms_state = Active a, ms_history = [((d, z), i), ((s, r), j), ((l, q), k), ((a, p), ID_Active)]\<rparr>"
proof -
  have "l < a" using assms(3) saturating_add_ge [of l "mi_activation_delay mi"] by simp
  moreover from this have "s < a" "d < a" using assms by auto
  ultimately show ?thesis using assms by (simp add: advance_simps del: bt_insert.simps)
qed

lemma advance_fail:
  "d < f \<Longrightarrow> mi_timeout mi \<le> f
   \<Longrightarrow> mip_on_advance (advance_for mi r f) \<lparr>ms_state = Defined, ms_history = [((d, z), i)]\<rparr>
     = \<lparr>ms_state = Failed, ms_history = [((d, z), i), ((f, r), ID_Failed)]\<rparr>"
  by (auto simp: advance_simps)

lemma advance_fail_started:
  "d < s \<Longrightarrow> s < f \<Longrightarrow> mi_timeout mi \<le> f
   \<Longrightarrow> mip_on_advance (advance_for mi q f) \<lparr>ms_state = Started v, ms_history = [((d, z), i), ((s, r), j)]\<rparr>
     = \<lparr>ms_state = Failed, ms_history = [((d, z), i), ((s, r), j), ((f, q), ID_Failed)]\<rparr>"
  by (auto simp: advance_simps)

lemmas transition_simps = advance_start advance_vote advance_lock advance_activate advance_fail advance_fail_started

lemma mip_shape_consistent:
  assumes "mip_shape mi d st" "d \<le> mi_start mi" "mi_start mi < mi_timeout mi"
  shows "is_consistent_with st mi = Inr ()"
proof -
  have guards: "\<not> mi_timeout mi \<le> mi_start mi" "\<not> mi_start mi < d" "\<not> mi_timeout mi < d" using assms(2,3) by auto
  show ?thesis
    using assms(1)
  proof cases
    case (shape_started s v r)
    have vote: "mip_on_advance (advance_for mi v (time_saturating_add s 1))
        \<lparr>ms_state = Started 0, ms_history = [((d, 0), ID_Defined), ((s, r), ID_Started)]\<rparr> = st" if "v \<noteq> 0"
    proof -
      have v: "v < VERSIONING_THRESHOLD_TRANSITION_ACCEPTED" "unat s + 1 < unat (mi_timeout mi)"
        using shape_started(5) that by auto
      moreover have "unat (time_saturating_add s 1) = unat s + 1"
        using v(2) unsigned_less [of "mi_timeout mi", where ?'a = nat] by (simp add: time_saturating_add_def word_simps)
      ultimately show ?thesis using shape_started(1) by (simp add: advance_vote word_less_nat_alt)
    qed
    then show ?thesis using shape_started guards
      by (auto simp: is_consistent_with_def replay_def mip_state_new_def advance_start last_time_def)
  qed (use guards in \<open>simp_all add: is_consistent_with_def replay_def mip_state_new_def transition_simps\<close>)
qed

lemma replay_reachable: "mip_reachable mi d st \<Longrightarrow> mip_reachable mi d (replay mi es st)"
proof (induction es arbitrary: st)
  case (Cons e es)
  then have "mip_reachable mi d (replay mi es (mip_on_advance (advance_for mi (snd (fst e)) (fst (fst e))) st))"
    by (blast intro: reach_advance)
  then show ?case by (simp add: replay_def case_prod_beta)
qed (simp add: replay_def)

lemma consistent_reachable:
  assumes "is_consistent_with st mi = Inr ()"
  shows "\<exists>d \<le> mi_start mi. mip_reachable mi d st"
proof -
  obtain ts es where h: "ms_history st = (ts, ID_Defined) # es" "\<not> mi_start mi < fst ts"
    using assms by (auto simp: is_consistent_with_def split: if_splits list.splits prod.splits)
  define vsh where "vsh = replay mi es (mip_state_new (fst ts))"
  define vsh' where "vsh' = (case (ms_state vsh, ms_state st) of
                         (Started ratio, Started ratio_2) \<Rightarrow>
                           if ratio_2 \<noteq> ratio
                           then mip_on_advance (advance_for mi ratio_2 (time_saturating_add (last_time st) 1)) vsh
                           else vsh
                       | _ \<Rightarrow> vsh)"
  have "vsh' = st"
    unfolding vsh'_def using assms h by (auto simp: is_consistent_with_def Let_def vsh_def [symmetric] split: if_splits)
  moreover have "mip_reachable mi (fst ts) vsh" unfolding vsh_def by (rule replay_reachable [OF reach_new])
  then have "mip_reachable mi (fst ts) vsh'"
    by (auto simp: vsh'_def intro: reach_advance split: component_state.splits)
  ultimately show ?thesis using h(2) by (auto simp: not_less)
qed

section \<open>The state at an instant\<close>

text \<open>A proposal is active past the instant fixed when it was locked in.\<close>

definition mip_active_at :: "mip_info \<Rightarrow> mip_state \<Rightarrow> massa_time \<Rightarrow> bool" where
  "mip_active_at mi st ts =
     (case ms_state st of
        Active since \<Rightarrow> since \<le> ts
      | LockedIn since \<Rightarrow> time_saturating_add since (mi_activation_delay mi) < ts
      | _ \<Rightarrow> False)"

definition locked_or_active :: "mip_state \<Rightarrow> bool" where
  "locked_or_active st = (case ms_state st of Active _ \<Rightarrow> True | LockedIn _ \<Rightarrow> True | _ \<Rightarrow> False)"

lemma state_at_active:
  assumes "mip_shape mi d st"
  shows "locked_or_active st \<and> state_at st ts (mi_start mi) (mi_timeout mi) (mi_activation_delay mi) = Inr ID_Active
    \<longleftrightarrow> mip_active_at mi st ts"
  using assms
proof cases
  case (shape_locked s l q r)
  have "l \<le> time_saturating_add l (mi_activation_delay mi)" by (rule saturating_add_ge)
  then show ?thesis using shape_locked
    by (auto simp: locked_or_active_def mip_active_at_def state_at_def last_time_def Let_def locked_in_on_advance_def
        split: if_splits)
next
  case (shape_active s l q a r p)
  then have "l < a" using saturating_add_ge [of l "mi_activation_delay mi"] by simp
  then show ?thesis using shape_active
    by (auto simp: locked_or_active_def mip_active_at_def state_at_def last_time_def Let_def split: if_splits)
qed (simp_all add: locked_or_active_def mip_active_at_def)

section \<open>Properties\<close>

lemma final_advance: "component_is_final (ms_state st) \<Longrightarrow> mip_on_advance input st = st"
  by (cases "ms_state st") (simp_all add: mip_on_advance_def Let_def)

text \<open>C35. The check that a node runs on the proposal states it receives accepts exactly the states that
  advancing can reach: a state is consistent with a proposal if and only if the proposal starts before its
  timeout and some sequence of advances, from a definition not later than the start, produces this state with
  this history.\<close>

theorem is_consistent_with_exact:
  "is_consistent_with st mi = Inr ()
   \<longleftrightarrow> mi_start mi < mi_timeout mi \<and> (\<exists>d. d \<le> mi_start mi \<and> mip_reachable mi d st)"
proof
  assume c: "is_consistent_with st mi = Inr ()"
  then have "mi_start mi < mi_timeout mi" by (auto simp: is_consistent_with_def not_le split: if_splits)
  then show "mi_start mi < mi_timeout mi \<and> (\<exists>d. d \<le> mi_start mi \<and> mip_reachable mi d st)"
    using consistent_reachable [OF c] by auto
next
  assume "mi_start mi < mi_timeout mi \<and> (\<exists>d. d \<le> mi_start mi \<and> mip_reachable mi d st)"
  then show "is_consistent_with st mi = Inr ()" by (auto intro: mip_shape_consistent mip_reachable_shape)
qed

text \<open>C36. A proposal becomes active only after at least half of the votes locked it in, between its start and
  its timeout, and after the activation delay has passed; it fails only at or after its timeout and
  without having been locked in; an active or failed proposal never changes again.\<close>

theorem mip_deployment_safe:
  assumes "mip_reachable mi d st"
  shows "(\<forall>a. ms_state st = Active a \<longrightarrow>
       (\<exists>l q. ((l, q), ID_LockedIn) \<in> set (ms_history st) \<and> VERSIONING_THRESHOLD_TRANSITION_ACCEPTED \<le> q
          \<and> mi_start mi < l \<and> l < mi_timeout mi \<and> time_saturating_add l (mi_activation_delay mi) < a))
    \<and> (ms_state st = Failed \<longrightarrow> mi_timeout mi \<le> last_time st \<and> ID_LockedIn \<notin> snd ` set (ms_history st))
    \<and> (component_is_final (ms_state st) \<longrightarrow> mip_on_advance input st = st)"
proof -
  have "(\<forall>a. ms_state st = Active a \<longrightarrow>
       (\<exists>l q. ((l, q), ID_LockedIn) \<in> set (ms_history st) \<and> VERSIONING_THRESHOLD_TRANSITION_ACCEPTED \<le> q
          \<and> mi_start mi < l \<and> l < mi_timeout mi \<and> time_saturating_add l (mi_activation_delay mi) < a))
    \<and> (ms_state st = Failed \<longrightarrow> mi_timeout mi \<le> last_time st \<and> ID_LockedIn \<notin> snd ` set (ms_history st))"
    using mip_reachable_shape [OF assms] by cases (auto simp: last_time_def)
  then show ?thesis using final_advance by blast
qed

definition example_mip :: mip_info where
  "example_mip = MipInfo [109] 1 [(MC_Execution, 1)] 10 20 5"

lemma example_mip_reachable:
  "mip_reachable example_mip 3 \<lparr>ms_state = Active 22,
     ms_history = [((3, 0), ID_Defined), ((12, 1 / 4), ID_Started), ((14, 3 / 4), ID_LockedIn), ((22, 1), ID_Active)]\<rparr>"
proof -
  have acc: "VERSIONING_THRESHOLD_TRANSITION_ACCEPTED \<le> 3 / 4"
    by (simp add: VERSIONING_THRESHOLD_TRANSITION_ACCEPTED_def ratio_new_def Fract_of_int_quotient)
  have "replay example_mip [((12, 1 / 4), ID_Started), ((14, 3 / 4), ID_LockedIn), ((22, 1), ID_Active)] (mip_state_new 3)
    = \<lparr>ms_state = Active 22,
     ms_history = [((3, 0), ID_Defined), ((12, 1 / 4), ID_Started), ((14, 3 / 4), ID_LockedIn), ((22, 1), ID_Active)]\<rparr>"
    using acc by (simp add: replay_def mip_state_new_def example_mip_def transition_simps time_saturating_add_def saturating_add_def)
  then show ?thesis using replay_reachable [OF reach_new, of example_mip 3] by metis
qed

theorem mip_deployment_safe_witness:
  "\<exists>l q. ((l, q), ID_LockedIn) \<in> {((3, 0), ID_Defined), ((12, 1 / 4), ID_Started), ((14, 3 / 4), ID_LockedIn), ((22, 1), ID_Active)}
     \<and> VERSIONING_THRESHOLD_TRANSITION_ACCEPTED \<le> q \<and> mi_start example_mip < l \<and> l < mi_timeout example_mip"
  using mip_deployment_safe [OF example_mip_reachable] by auto

end
