(* ===== verification/Massa_Mip_Store.thy ===== *)
theory Massa_Mip_Store
  imports Massa_Mip_State
begin

text \<open>
  The store of improvement proposals: \<^verbatim>\<open>MipStoreRaw\<close> and \<^verbatim>\<open>MipStoreStats\<close> of
  \<^verbatim>\<open>massa-versioning/src/versioning.rs\<close>.

  Blocks announce the version their producer is ready for; the store counts the announcements of the last
  blocks, advances its proposals with these votes, answers which version is active at an instant, merges with
  the store of a bootstrap server, and moves its proposals after a network shutdown.

  Logging is not represented, except for the warning about an unknown version, which is a result of
  \<open>update_announcements\<close>.  \<open>RatioZeroDenominator\<close> is the panic of \<^verbatim>\<open>Ratio::new\<close>.
\<close>

section \<open>State and statistics\<close>

record mip_stats_config =
  block_count_considered :: u64
  warn_announced_version_ratio :: rat

record mip_store_stats =
  st_config :: mip_stats_config
  latest_announcements :: "u32 list"
  network_version_counters :: "(u32, u64) fmap"

record mip_store =
  mip_infos :: "(mip_info, mip_state) btree"
  mip_stats :: mip_store_stats

datatype versioning_panic = RatioZeroDenominator

definition mip_store_stats_new :: "mip_stats_config \<Rightarrow> mip_store_stats" where
  "mip_store_stats_new config = \<lparr>st_config = config, latest_announcements = [], network_version_counters = fmempty\<rparr>"

definition stats_reset :: "mip_store_stats \<Rightarrow> mip_store_stats" where
  "stats_reset self = self\<lparr>latest_announcements := [], network_version_counters := fmempty\<rparr>"

definition checked_ratio :: "u64 \<Rightarrow> u64 \<Rightarrow> versioning_panic + rat" where
  "checked_ratio numer denom = (if denom = 0 then Inl RatioZeroDenominator else Inr (ratio_new numer denom))"

text \<open>The announcement of a block enters the window; the count that the warning uses is returned too.\<close>

definition count_announcement :: "u32 \<Rightarrow> mip_store_stats \<Rightarrow> u64 \<times> mip_store_stats" where
  "count_announcement announced self =
     (let full = unat (block_count_considered (st_config self)) \<le> length (latest_announcements self);
          removed_version = (if full then (case latest_announcements self of v # _ \<Rightarrow> Some v | [] \<Rightarrow> None) else None);
          window = (if full then tl (latest_announcements self) else latest_announcements self) @ [announced];
          count = (case fmlookup (network_version_counters self) announced of
                     Some v \<Rightarrow> saturating_add v 1 | None \<Rightarrow> 1);
          counters = fmupd announced count (network_version_counters self)
      in case removed_version of
           None \<Rightarrow> (count, self\<lparr>latest_announcements := window, network_version_counters := counters\<rparr>)
         | Some removed \<Rightarrow>
             (case fmlookup counters removed of
                None \<Rightarrow> (count, self\<lparr>latest_announcements := window, network_version_counters := counters\<rparr>)
              | Some v \<Rightarrow>
                  (let entry_value = saturating_sub v 1
                   in (entry_value, self\<lparr>latest_announcements := window,
                         network_version_counters :=
                           (if entry_value = 0 then fmdrop removed counters else fmupd removed entry_value counters)\<rparr>))))"

definition update_announcements :: "u32 \<Rightarrow> mip_store \<Rightarrow> versioning_panic + (bool \<times> mip_store)" where
  "update_announcements announced self =
     (let (network_version_count, stats) = count_announcement announced (mip_stats self);
          self = self\<lparr>mip_stats := stats\<rparr>
      in if announced \<noteq> 0 then
           rbind (checked_ratio network_version_count (block_count_considered (st_config stats))) (\<lambda>vote_ratio.
           Inr (warn_announced_version_ratio (st_config stats) < vote_ratio
                  \<and> mip_infos self \<noteq> [] \<and> mi_version (fst (last (mip_infos self))) < announced, self))
         else Inr (False, self))"

fun advance_states ::
    "mip_store_stats \<Rightarrow> massa_time \<Rightarrow> (mip_info, mip_state) btree \<Rightarrow> versioning_panic + (mip_info, mip_state) btree" where
  "advance_states stats slot_timestamp [] = Inr []"
| "advance_states stats slot_timestamp ((mi, state) # entries) =
     rbind
       (if mip_is_final state then Inr state
        else
          let network_version_count =
            (case fmlookup (network_version_counters stats) (mi_version mi) of Some c \<Rightarrow> c | None \<Rightarrow> 0)
          in rbind (checked_ratio network_version_count (block_count_considered (st_config stats))) (\<lambda>vote_ratio.
             Inr (mip_on_advance (advance_for mi vote_ratio slot_timestamp) state)))
       (\<lambda>state. rbind (advance_states stats slot_timestamp entries) (\<lambda>entries. Inr ((mi, state) # entries)))"

definition advance_states_on_updated_stats :: "massa_time \<Rightarrow> mip_store \<Rightarrow> versioning_panic + mip_store" where
  "advance_states_on_updated_stats slot_timestamp self =
     rbind (advance_states (mip_stats self) slot_timestamp (mip_infos self)) (\<lambda>entries.
     Inr (self\<lparr>mip_infos := entries\<rparr>))"

definition update_network_version_stats ::
    "massa_time \<Rightarrow> (u32 \<times> u32 option) option \<Rightarrow> mip_store \<Rightarrow> versioning_panic + mip_store" where
  "update_network_version_stats slot_timestamp network_versions self =
     rbind
       (case network_versions of
          None \<Rightarrow> Inr self
        | Some (_, announced) \<Rightarrow>
            rbind (update_announcements (case announced of Some v \<Rightarrow> v | None \<Rightarrow> 0) self) (\<lambda>(_, self). Inr self))
       (advance_states_on_updated_stats slot_timestamp)"

section \<open>Queries\<close>

definition get_network_version_current :: "mip_store \<Rightarrow> u32" where
  "get_network_version_current self =
     (case find_map (\<lambda>(k, v). case ms_state v of Active _ \<Rightarrow> Some (mi_version k) | _ \<Rightarrow> None) (rev (mip_infos self)) of
        Some v \<Rightarrow> v | None \<Rightarrow> 0)"

definition get_network_version_active_at :: "mip_store \<Rightarrow> massa_time \<Rightarrow> u32" where
  "get_network_version_active_at self ts =
     (case find_map (\<lambda>(k, v).
             case ms_state v of
               Active since \<Rightarrow> if since \<le> ts then Some (mi_version k) else None
             | LockedIn since \<Rightarrow>
                 if time_saturating_add since (mi_activation_delay k) < ts then Some (mi_version k) else None
             | _ \<Rightarrow> None) (rev (mip_infos self)) of
        Some v \<Rightarrow> v | None \<Rightarrow> 0)"

definition get_network_version_to_announce_at :: "mip_store \<Rightarrow> massa_time \<Rightarrow> u32 option" where
  "get_network_version_to_announce_at self ts =
     find_map (\<lambda>(k, v).
       case ms_state v of
         Started _ \<Rightarrow> Some (mi_version k)
       | LockedIn since \<Rightarrow>
           if ts \<le> time_saturating_add since (mi_activation_delay k) then Some (mi_version k) else None
       | _ \<Rightarrow> None) (rev (mip_infos self))"

definition get_network_version_to_announce :: "mip_store \<Rightarrow> u32 option" where
  "get_network_version_to_announce self =
     find_map (\<lambda>(k, v). case ms_state v of Started _ \<Rightarrow> Some (mi_version k) | LockedIn _ \<Rightarrow> Some (mi_version k) | _ \<Rightarrow> None)
       (rev (mip_infos self))"

definition get_latest_component_version_at :: "mip_store \<Rightarrow> mip_component \<Rightarrow> massa_time \<Rightarrow> u32" where
  "get_latest_component_version_at self component ts =
     (case find_map (\<lambda>(mi, ms).
             case state_at ms ts (mi_start mi) (mi_timeout mi) (mi_activation_delay mi) of
               Inr ID_Active \<Rightarrow> bt_get (mi_components mi) component
             | _ \<Rightarrow> None)
           (filter (\<lambda>(mi, ms). bt_contains (mi_components mi) component \<and> locked_or_active ms) (rev (mip_infos self))) of
        Some v \<Rightarrow> v | None \<Rightarrow> 0)"

definition get_all_active_component_versions :: "mip_store \<Rightarrow> mip_component \<Rightarrow> u32 list" where
  "get_all_active_component_versions self component =
     0 # List.map_filter (\<lambda>(mi, ms). case ms_state ms of Active _ \<Rightarrow> bt_get (mi_components mi) component | _ \<Rightarrow> None)
       (mip_infos self)"

definition get_all_component_versions :: "mip_store \<Rightarrow> mip_component \<Rightarrow> (u32, component_state_type_id) btree" where
  "get_all_component_versions self component =
     bt_extend [(0, ID_Active)]
       (List.map_filter (\<lambda>(mi, ms). map_option (\<lambda>v. (v, component_state_id (ms_state ms))) (bt_get (mi_components mi) component))
         (mip_infos self))"

section \<open>Merging stores\<close>

definition VERSIONING_ACTIVATION_DELAY_MIN :: massa_time where
  "VERSIONING_ACTIVATION_DELAY_MIN = time_saturating_mul 16000 128"

datatype update_with_error =
    UW_NonConsistent mip_info mip_state is_consistent_error
  | UW_Downgrade mip_info component_state component_state
  | UW_Overlapping mip_info mip_info
  | UW_InvalidActivationDelay mip_info massa_time massa_time

record merge_state =
  mg_component_versions :: "mip_component \<rightharpoonup> u32"
  mg_names :: "bytes set"
  mg_to_update :: "(mip_info, mip_state) btree"
  mg_to_add :: "(mip_info, mip_state) btree"

definition merge_known :: "mip_info \<Rightarrow> mip_state \<Rightarrow> mip_state \<Rightarrow> merge_state \<Rightarrow> update_with_error + merge_state" where
  "merge_known mi ms ms_orig acc =
     (case ms_state ms_orig of
        Active _ \<Rightarrow> Inr acc | Failed \<Rightarrow> Inr acc | ErrorState \<Rightarrow> Inr acc
      | _ \<Rightarrow>
          if state_type_number (component_state_id (ms_state ms_orig)) \<le> state_type_number (component_state_id (ms_state ms))
          then Inr (acc\<lparr>mg_to_update := bt_insert mi ms (mg_to_update acc)\<rparr>)
          else Inl (UW_Downgrade mi (ms_state ms_orig) (ms_state ms)))"

definition component_version_compatible :: "mip_info \<Rightarrow> merge_state \<Rightarrow> bool" where
  "component_version_compatible mi acc =
     list_all (\<lambda>(component, component_version).
       (case mg_component_versions acc component of Some v \<Rightarrow> v | None \<Rightarrow> 0) < component_version) (mi_components mi)"

definition merge_unknown ::
    "(mip_info, mip_state) btree \<Rightarrow> mip_info \<Rightarrow> mip_state \<Rightarrow> merge_state \<Rightarrow> update_with_error + merge_state" where
  "merge_unknown self_store mi ms acc =
     (let last_m_info =
        (if mg_to_add acc \<noteq> [] then Some (fst (last (mg_to_add acc)))
         else if self_store \<noteq> [] then Some (fst (last self_store)) else None)
      in case last_m_info of
           Some last_mi \<Rightarrow>
             if mi_activation_delay mi < VERSIONING_ACTIVATION_DELAY_MIN
             then Inl (UW_InvalidActivationDelay mi (mi_activation_delay mi) VERSIONING_ACTIVATION_DELAY_MIN)
             else if mi_timeout last_mi < mi_start mi \<and> mi_start mi < mi_timeout mi
               \<and> mi_version last_mi < mi_version mi \<and> mi_name mi \<notin> mg_names acc \<and> component_version_compatible mi acc
             then Inr (acc\<lparr>mg_to_add := bt_insert mi ms (mg_to_add acc),
                    mg_names := insert (mi_name mi) (mg_names acc),
                    mg_component_versions := fold (\<lambda>(c, v) m. m(c \<mapsto> v)) (mi_components mi) (mg_component_versions acc)\<rparr>)
             else Inl (UW_Overlapping mi last_mi)
         | None \<Rightarrow>
             Inr (acc\<lparr>mg_to_add := bt_insert mi ms (mg_to_add acc), mg_names := insert (mi_name mi) (mg_names acc)\<rparr>))"

fun merge_loop ::
    "(mip_info, mip_state) btree \<Rightarrow> (mip_info, mip_state) btree \<Rightarrow> merge_state \<Rightarrow> update_with_error + merge_state" where
  "merge_loop self_store [] acc = Inr acc"
| "merge_loop self_store ((mi, ms) # entries) acc =
     (case is_consistent_with ms mi of
        Inl e \<Rightarrow> Inl (UW_NonConsistent mi ms e)
      | Inr _ \<Rightarrow>
          rbind (case bt_get self_store mi of
                   Some ms_orig \<Rightarrow> merge_known mi ms ms_orig acc
                 | None \<Rightarrow> merge_unknown self_store mi ms acc)
            (merge_loop self_store entries))"

definition update_with ::
    "mip_store \<Rightarrow> mip_store \<Rightarrow> update_with_error + (mip_info list \<times> (mip_info, mip_state) btree) \<times> mip_store" where
  "update_with store_raw self =
     rbind (merge_loop (mip_infos self) (mip_infos store_raw)
       \<lparr>mg_component_versions =
          fold (\<lambda>(c, v) m. m(c \<mapsto> v)) (concat (map (mi_components \<circ> fst) (mip_infos self))) Map.empty,
        mg_names = mi_name ` set (bt_keys (mip_infos self)), mg_to_update = [], mg_to_add = []\<rparr>) (\<lambda>acc.
     Inr ((bt_keys (mg_to_update acc), mg_to_add acc),
          self\<lparr>mip_infos := bt_extend (mip_infos self) (mg_to_update acc)\<rparr>))"

definition mip_store_try_from ::
    "(mip_info \<times> mip_state) list \<Rightarrow> mip_stats_config \<Rightarrow> update_with_error + mip_store" where
  "mip_store_try_from value cfg =
     rbind (update_with
        \<lparr>mip_infos = bt_extend [] value, mip_stats = mip_store_stats_new cfg\<rparr>
        \<lparr>mip_infos = [], mip_stats = mip_store_stats_new cfg\<rparr>) (\<lambda>((_, added), store).
     Inr (store\<lparr>mip_infos := bt_extend (mip_infos store) added\<rparr>))"

section \<open>Network shutdown\<close>

datatype shutdown_error =
    ShutdownModelsError models_error
  | ShutdownNonConsistent mip_info component_state massa_time massa_time

definition in_shutdown :: "massa_time \<Rightarrow> massa_time \<Rightarrow> massa_time \<Rightarrow> bool" where
  "in_shutdown start_ts end_ts t \<longleftrightarrow> start_ts \<le> t \<and> t \<le> end_ts"

definition is_consistent_with_shutdown_period ::
    "slot \<Rightarrow> slot \<Rightarrow> u8 \<Rightarrow> massa_time \<Rightarrow> massa_time \<Rightarrow> mip_store \<Rightarrow> shutdown_error + unit" where
  "is_consistent_with_shutdown_period shutdown_start shutdown_end thread_count t0 genesis_timestamp self =
     rbind (map_err ShutdownModelsError (get_block_slot_timestamp thread_count t0 genesis_timestamp shutdown_start)) (\<lambda>start_ts.
     rbind (map_err ShutdownModelsError (get_block_slot_timestamp thread_count t0 genesis_timestamp shutdown_end)) (\<lambda>end_ts.
     case find_map (\<lambda>(mi, ms).
         if \<not> component_is_final (ms_state ms)
           \<and> (in_shutdown start_ts end_ts (mi_start mi) \<or> in_shutdown start_ts end_ts (mi_timeout mi))
         then Some (ShutdownNonConsistent mi (ms_state ms) start_ts end_ts) else None) (mip_infos self) of
       Some e \<Rightarrow> Inl e | None \<Rightarrow> Inr ()))"

definition mip_shift :: "massa_time \<Rightarrow> mip_info \<Rightarrow> mip_info" where
  "mip_shift offset mi =
     (let start = time_saturating_add (mi_start mi) offset
      in MipInfo (mi_name mi) (mi_version mi) (mi_components mi) start
           (time_saturating_add start (time_saturating_sub (mi_timeout mi) (mi_start mi))) (mi_activation_delay mi))"

fun shutdown_loop ::
    "(massa_time \<Rightarrow> bool) \<Rightarrow> massa_time \<Rightarrow> massa_time option \<Rightarrow> (mip_info, mip_state) btree \<Rightarrow> (mip_info, mip_state) btree
     \<Rightarrow> models_error + (mip_info, mip_state) btree" where
  "shutdown_loop in_range next_valid_start offset [] new_store = Inr new_store"
| "shutdown_loop in_range next_valid_start offset ((mi, ms) # entries) new_store =
     (let offset_ts = (case offset of Some o_ts \<Rightarrow> o_ts | None \<Rightarrow> time_saturating_sub next_valid_start (mi_start mi))
      in case ms_state ms of
           Defined \<Rightarrow>
             if in_range (mi_start mi)
             then shutdown_loop in_range next_valid_start (Some offset_ts) entries (bt_insert (mip_shift offset_ts mi) ms new_store)
             else shutdown_loop in_range next_valid_start offset entries (bt_insert mi ms new_store)
         | Started _ \<Rightarrow>
             rbind (ok_or (reset_from ms) (ErrorRaised ''Unable to reset state'')) (\<lambda>new_ms.
             shutdown_loop in_range next_valid_start (Some offset_ts) entries (bt_insert (mip_shift offset_ts mi) new_ms new_store))
         | LockedIn _ \<Rightarrow>
             rbind (ok_or (reset_from ms) (ErrorRaised ''Unable to reset state'')) (\<lambda>new_ms.
             shutdown_loop in_range next_valid_start (Some offset_ts) entries (bt_insert (mip_shift offset_ts mi) new_ms new_store))
         | _ \<Rightarrow> shutdown_loop in_range next_valid_start offset entries (bt_insert mi ms new_store))"

definition update_for_network_shutdown ::
    "slot \<Rightarrow> slot \<Rightarrow> u8 \<Rightarrow> massa_time \<Rightarrow> massa_time \<Rightarrow> mip_store \<Rightarrow> models_error + mip_store" where
  "update_for_network_shutdown shutdown_start shutdown_end thread_count t0 genesis_timestamp self =
     rbind (get_block_slot_timestamp thread_count t0 genesis_timestamp shutdown_start) (\<lambda>start_ts.
     rbind (get_block_slot_timestamp thread_count t0 genesis_timestamp shutdown_end) (\<lambda>end_ts.
     rbind (get_next_slot shutdown_end thread_count) (\<lambda>next_slot.
     rbind (get_block_slot_timestamp thread_count t0 genesis_timestamp next_slot) (\<lambda>next_valid_start.
     rbind (shutdown_loop (in_shutdown start_ts end_ts) next_valid_start None (mip_infos self) []) (\<lambda>new_store.
     Inr \<lparr>mip_infos = new_store, mip_stats = stats_reset (mip_stats self)\<rparr>)))))"

section \<open>The counters count the window\<close>

definition counts :: "(u32, u64) fmap \<Rightarrow> (u32 \<Rightarrow> nat) \<Rightarrow> bool" where
  "counts m c \<longleftrightarrow> (\<forall>v. fmlookup m v = (if c v = 0 then None else Some (of_nat (c v))))"

definition stats_ok :: "mip_store_stats \<Rightarrow> bool" where
  "stats_ok s \<longleftrightarrow> counts (network_version_counters s) (count_list (latest_announcements s))
     \<and> length (latest_announcements s) \<le> max 1 (unat (block_count_considered (st_config s)))
     \<and> unat (block_count_considered (st_config s)) + 1 < 2 ^ 64"

lemma counts_incr:
  assumes "counts m c" "c a + 1 < 2 ^ 64"
  shows "counts (fmupd a (case fmlookup m a of Some v \<Rightarrow> saturating_add v 1 | None \<Rightarrow> 1) m) (c(a := c a + 1))"
proof -
  have "fmlookup m a = (if c a = 0 then None else Some (of_nat (c a)))" using assms(1) by (simp add: counts_def)
  moreover have "saturating_add (of_nat (c a) :: u64) 1 = of_nat (c a + 1)"
    using assms(2) by (simp add: saturating_add_def unat_of_nat)
  ultimately have "(case fmlookup m a of Some v \<Rightarrow> saturating_add v 1 | None \<Rightarrow> 1) = (of_nat (c a + 1) :: u64)" by simp
  then show ?thesis using assms(1) by (auto simp: counts_def)
qed

lemma counts_decr:
  assumes "counts m c" "c r \<noteq> 0" "c r < 2 ^ 64"
  obtains v where "fmlookup m r = Some v"
    "counts (if saturating_sub v 1 = 0 then fmdrop r m else fmupd r (saturating_sub v 1) m) (c(r := c r - 1))"
proof -
  define v :: u64 where "v = of_nat (c r)"
  have v: "fmlookup m r = Some v" using assms(1,2) by (simp add: counts_def v_def)
  have u: "unat v = c r" using assms(3) by (simp add: v_def unat_of_nat)
  have u1: "unat (saturating_sub v 1) = c r - 1" using u by (simp add: word_simps)
  have "unat (of_nat k :: u64) = k" if "k < 2 ^ 64" for k using that by (simp add: unat_of_nat)
  from this [of "c r - 1"] u1 assms(3) have sub: "saturating_sub v 1 = of_nat (c r - 1)"
    by (simp only: word_eq_iff_unat less_imp_diff_less)
  have "saturating_sub v 1 = 0 \<longleftrightarrow> c r = 1"
    using assms(2) u1 unat_eq_zero [of "saturating_sub v 1"] by auto
  then have "counts (if saturating_sub v 1 = 0 then fmdrop r m else fmupd r (saturating_sub v 1) m) (c(r := c r - 1))"
    using assms(1,2) by (auto simp: counts_def sub)
  with v show ?thesis by (rule that)
qed

lemma count_list_snoc: "count_list (l @ [a]) = (count_list l)(a := count_list l a + 1)"
  by (auto simp: fun_eq_iff)

definition keep_last :: "nat \<Rightarrow> 'a list \<Rightarrow> 'a list" where
  "keep_last n l = drop (length l - n) l"

lemma keep_last_append: "keep_last n (keep_last n l @ m) = keep_last n (l @ m)"
proof -
  have rev: "keep_last n l = rev (take n (rev l))" for l :: "'a list" by (simp add: keep_last_def take_rev)
  show ?thesis by (simp add: rev)
qed

lemma keep_last_all: "length l \<le> n \<Longrightarrow> keep_last n l = l"
  by (simp add: keep_last_def)

lemma count_announcement_ok:
  assumes "stats_ok s"
  shows "stats_ok (snd (count_announcement a s))"
    and "st_config (snd (count_announcement a s)) = st_config s"
    and "latest_announcements (snd (count_announcement a s))
      = keep_last (max 1 (unat (block_count_considered (st_config s)))) (latest_announcements s @ [a])"
proof -
  define l where "l = latest_announcements s"
  define n where "n = unat (block_count_considered (st_config s))"
  define m where "m = fmupd a (case fmlookup (network_version_counters s) a of Some v \<Rightarrow> saturating_add v 1 | None \<Rightarrow> 1)
    (network_version_counters s)"
  have ok: "counts (network_version_counters s) (count_list l)" "length l \<le> max 1 n" "n + 1 < 2 ^ 64"
    using assms by (simp_all add: stats_ok_def l_def n_def)
  have le: "count_list l v \<le> length l" for v by (induction l) auto
  have "count_list l a + 1 < 2 ^ 64" using ok(2,3) le [of a] by (simp add: max_def split: if_splits)
  from counts_incr [OF ok(1) this] have m: "counts m (count_list (l @ [a]))" by (simp only: m_def count_list_snoc)
  have "stats_ok (snd (count_announcement a s)) \<and> st_config (snd (count_announcement a s)) = st_config s
    \<and> latest_announcements (snd (count_announcement a s)) = drop (length (l @ [a]) - max 1 n) (l @ [a])"
  proof (cases "n \<le> length l \<and> l \<noteq> []")
    case False
    then have d: "length (l @ [a]) \<le> max 1 n" by auto
    have "count_announcement a s = (case fmlookup (network_version_counters s) a of Some v \<Rightarrow> saturating_add v 1 | None \<Rightarrow> 1,
        s\<lparr>latest_announcements := l @ [a], network_version_counters := m\<rparr>)"
      using False by (cases l) (auto simp: count_announcement_def Let_def l_def n_def m_def)
    then show ?thesis using m d ok(3) by (simp add: stats_ok_def n_def)
  next
    case True
    then obtain r t where l: "l = r # t" by (cases l) auto
    have "length l = max 1 n" using True ok(2) by (cases "n = 0") (auto simp: l)
    then have d: "drop (length (l @ [a]) - max 1 n) (l @ [a]) = t @ [a]" "length (t @ [a]) = max 1 n" by (simp_all add: l)
    have "count_list (l @ [a]) r \<noteq> 0" "count_list (l @ [a]) r < 2 ^ 64"
      using le [of r] ok(2,3) by (auto simp: l count_list_snoc max_def split: if_splits)
    then obtain v where v: "fmlookup m r = Some v"
        "counts (if saturating_sub v 1 = 0 then fmdrop r m else fmupd r (saturating_sub v 1) m)
           ((count_list (l @ [a]))(r := count_list (l @ [a]) r - 1))"
      using counts_decr [OF m] by blast
    have "(count_list (l @ [a]))(r := count_list (l @ [a]) r - 1) = count_list (t @ [a])" by (auto simp: l)
    moreover have "count_announcement a s = (saturating_sub v 1,
        s\<lparr>latest_announcements := t @ [a],
          network_version_counters := (if saturating_sub v 1 = 0 then fmdrop r m else fmupd r (saturating_sub v 1) m)\<rparr>)"
      using True v(1) by (simp add: count_announcement_def Let_def l_def [symmetric] n_def [symmetric] m_def [symmetric] l)
    ultimately show ?thesis using v(2) d ok(3) by (simp add: stats_ok_def n_def)
  qed
  then show "stats_ok (snd (count_announcement a s))" "st_config (snd (count_announcement a s)) = st_config s"
    "latest_announcements (snd (count_announcement a s))
      = keep_last (max 1 (unat (block_count_considered (st_config s)))) (latest_announcements s @ [a])"
    by (simp_all add: l_def n_def keep_last_def)
qed

section \<open>Runs of the store\<close>

fun store_run :: "(massa_time \<times> (u32 \<times> u32 option) option) list \<Rightarrow> mip_store \<Rightarrow> versioning_panic + mip_store" where
  "store_run [] self = Inr self"
| "store_run ((ts, network_versions) # us) self = rbind (update_network_version_stats ts network_versions self) (store_run us)"

definition announcement :: "(u32 \<times> u32 option) option \<Rightarrow> u32 list" where
  "announcement nv = (case nv of None \<Rightarrow> [] | Some (_, None) \<Rightarrow> [0] | Some (_, Some v) \<Rightarrow> [v])"

lemma announcement_simps [simp]:
  "announcement None = []" "announcement (Some (c, v)) = [case v of Some v \<Rightarrow> v | None \<Rightarrow> 0]"
  by (auto simp: announcement_def split: option.splits)

text \<open>How an update moves the entries of the store: every proposal is advanced to the time of the slot.\<close>

definition advanced :: "massa_time \<Rightarrow> mip_info \<times> mip_state \<Rightarrow> mip_info \<times> mip_state \<Rightarrow> bool" where
  "advanced t e e' \<longleftrightarrow> fst e' = fst e \<and> (\<exists>ratio. snd e' = mip_on_advance (advance_for (fst e) ratio t) (snd e))"

lemma advance_states_total:
  assumes "block_count_considered (st_config stats) \<noteq> 0"
  shows "\<exists>es'. advance_states stats t es = Inr es' \<and> list_all2 (advanced t) es es'"
proof (induction es)
  case (Cons e es)
  obtain mi ms where e: "e = (mi, ms)" by force
  from Cons obtain es' where es': "advance_states stats t es = Inr es'" "list_all2 (advanced t) es es'" by blast
  show ?case
  proof (cases "mip_is_final ms")
    case True
    then have "advanced t e (mi, ms)" using final_advance by (auto simp: advanced_def e mip_is_final_def)
    then show ?thesis using True es' by (simp add: e)
  next
    case False
    have "advanced t e (mi, mip_on_advance (advance_for mi r t) ms)" for r by (auto simp: advanced_def e)
    with False show ?thesis using es' assms by (simp add: e checked_ratio_def Let_def)
  qed
qed simp

lemma update_network_version_stats_total:
  assumes "stats_ok (mip_stats S)" "block_count_considered (st_config (mip_stats S)) \<noteq> 0"
  obtains S' where "update_network_version_stats t nv S = Inr S'"
    "list_all2 (advanced t) (mip_infos S) (mip_infos S')" "stats_ok (mip_stats S')"
    "st_config (mip_stats S') = st_config (mip_stats S)"
    "latest_announcements (mip_stats S') = keep_last (unat (block_count_considered (st_config (mip_stats S))))
       (latest_announcements (mip_stats S) @ announcement nv)"
proof -
  define n where "n = unat (block_count_considered (st_config (mip_stats S)))"
  have "n \<noteq> 0" using assms(2) by (simp add: n_def unat_eq_zero)
  then have n: "max 1 n = n" by simp
  obtain T where T: "(case nv of None \<Rightarrow> Inr S
        | Some (_, announced) \<Rightarrow>
            rbind (update_announcements (case announced of Some v \<Rightarrow> v | None \<Rightarrow> 0) S) (\<lambda>(_, S). Inr S)) = Inr T"
      "mip_infos T = mip_infos S" "stats_ok (mip_stats T)" "st_config (mip_stats T) = st_config (mip_stats S)"
      "latest_announcements (mip_stats T) = keep_last n (latest_announcements (mip_stats S) @ announcement nv)"
  proof (cases nv)
    case None
    have "length (latest_announcements (mip_stats S)) \<le> n" using assms(1) n by (simp add: stats_ok_def n_def)
    then show ?thesis using None assms(1) by (intro that [of S]) (simp_all add: keep_last_all)
  next
    case (Some p)
    obtain cur v where p: "p = (cur, v)" by force
    define a where "a = (case v of Some v \<Rightarrow> v | None \<Rightarrow> 0)"
    note c = count_announcement_ok [OF assms(1), of a]
    have "\<exists>b. update_announcements a S = Inr (b, S\<lparr>mip_stats := snd (count_announcement a (mip_stats S))\<rparr>)"
      using assms(2) c(2) by (auto simp: update_announcements_def checked_ratio_def Let_def case_prod_beta)
    then show ?thesis using c n Some p
      by (intro that [of "S\<lparr>mip_stats := snd (count_announcement a (mip_stats S))\<rparr>"])
        (auto simp: a_def n_def split: prod.splits)
  qed
  obtain es' where es': "advance_states (mip_stats T) t (mip_infos S) = Inr es'" "list_all2 (advanced t) (mip_infos S) es'"
    using advance_states_total [of "mip_stats T"] assms(2) T(4) by metis
  have "update_network_version_stats t nv S = Inr (T\<lparr>mip_infos := es'\<rparr>)"
    using T(1,2) es'(1) by (simp add: update_network_version_stats_def advance_states_on_updated_stats_def)
  then show ?thesis using es'(2) T(3-5) that [of "T\<lparr>mip_infos := es'\<rparr>"] by (simp add: n_def)
qed

text \<open>A proposal advanced at each of a list of times.\<close>

fun mip_runs :: "mip_info \<Rightarrow> massa_time list \<Rightarrow> mip_state \<Rightarrow> mip_state \<Rightarrow> bool" where
  "mip_runs mi [] ms ms' \<longleftrightarrow> ms' = ms"
| "mip_runs mi (t # ts) ms ms' \<longleftrightarrow> (\<exists>ratio. mip_runs mi ts (mip_on_advance (advance_for mi ratio t) ms) ms')"

abbreviation entry_runs :: "massa_time list \<Rightarrow> mip_info \<times> mip_state \<Rightarrow> mip_info \<times> mip_state \<Rightarrow> bool" where
  "entry_runs ts e e' \<equiv> fst e' = fst e \<and> mip_runs (fst e) ts (snd e) (snd e')"

lemma max_one_unat: "(b :: u64) \<noteq> 0 \<Longrightarrow> max 1 (unat b) = unat b"
proof -
  assume "b \<noteq> 0"
  then have "unat b \<noteq> 0" by (simp add: unat_eq_zero)
  then show ?thesis by simp
qed

lemma store_run_total:
  assumes "stats_ok (mip_stats S)" "block_count_considered (st_config (mip_stats S)) \<noteq> 0"
  shows "\<exists>S'. store_run us S = Inr S' \<and> list_all2 (entry_runs (map fst us)) (mip_infos S) (mip_infos S')
    \<and> stats_ok (mip_stats S') \<and> st_config (mip_stats S') = st_config (mip_stats S)
    \<and> latest_announcements (mip_stats S') = keep_last (unat (block_count_considered (st_config (mip_stats S))))
       (latest_announcements (mip_stats S) @ concat (map (\<lambda>u. announcement (snd u)) us))"
  using assms
proof (induction us arbitrary: S)
  case Nil
  then have "length (latest_announcements (mip_stats S)) \<le> unat (block_count_considered (st_config (mip_stats S)))"
    unfolding stats_ok_def max_one_unat [OF Nil(2)] by simp
  then show ?case using Nil by (auto simp: list.rel_refl keep_last_all)
next
  case (Cons u us)
  obtain t nv where u: "u = (t, nv)" by force
  obtain T where T: "update_network_version_stats t nv S = Inr T"
      "list_all2 (advanced t) (mip_infos S) (mip_infos T)" "stats_ok (mip_stats T)"
      "st_config (mip_stats T) = st_config (mip_stats S)"
      "latest_announcements (mip_stats T) = keep_last (unat (block_count_considered (st_config (mip_stats S))))
         (latest_announcements (mip_stats S) @ announcement nv)"
    using update_network_version_stats_total [OF Cons.prems] .
  have "block_count_considered (st_config (mip_stats T)) \<noteq> 0" using T(4) Cons.prems(2) by simp
  from Cons.IH [OF T(3) this] obtain S' where S': "store_run us T = Inr S'"
      "list_all2 (entry_runs (map fst us)) (mip_infos T) (mip_infos S')"
      "stats_ok (mip_stats S')" "st_config (mip_stats S') = st_config (mip_stats T)"
      "latest_announcements (mip_stats S') = keep_last (unat (block_count_considered (st_config (mip_stats T))))
         (latest_announcements (mip_stats T) @ concat (map (\<lambda>u. announcement (snd u)) us))"
    by blast
  have "entry_runs (map fst (u # us)) e e'" if "advanced t e f" "entry_runs (map fst us) f e'" for e f e'
    using that by (auto simp: u advanced_def)
  from list_all2_trans [of "advanced t", OF this T(2) S'(2)]
  have "list_all2 (entry_runs (map fst (u # us))) (mip_infos S) (mip_infos S')" .
  moreover have "latest_announcements (mip_stats S')
      = keep_last (unat (block_count_considered (st_config (mip_stats S))))
         (latest_announcements (mip_stats S) @ concat (map (\<lambda>u. announcement (snd u)) (u # us)))"
    using S'(5) T(4,5) by (simp add: u keep_last_append)
  ultimately show ?case using T(1,4) S'(1,3,4) by (auto simp: u)
qed

text \<open>C37. Whatever blocks arrive, the store counts the votes exactly: its window holds the versions announced by
  the last blocks, as many as configured, and the counter of each version is the number of its
  announcements in the window; no counter is zero, none is missing, and no update panics.\<close>

theorem vote_counters_exact:
  assumes "mip_stats S = mip_store_stats_new cfg" "block_count_considered cfg \<noteq> 0" "block_count_considered cfg < - 2"
  shows "\<exists>S' window. store_run us S = Inr S' \<and> latest_announcements (mip_stats S') = window
    \<and> window = keep_last (unat (block_count_considered cfg)) (concat (map (\<lambda>u. announcement (snd u)) us))
    \<and> (\<forall>v. fmlookup (network_version_counters (mip_stats S')) v
         = (if count_list window v = 0 then None else Some (of_nat (count_list window v))))"
proof -
  have "unat (block_count_considered cfg) + 1 < 2 ^ 64" using assms(3) by (simp add: word_less_nat_alt)
  then have ok: "stats_ok (mip_stats S)"
    using assms(1) by (simp add: stats_ok_def mip_store_stats_new_def counts_def)
  have n: "block_count_considered (st_config (mip_stats S)) \<noteq> 0" using assms(1,2) by (simp add: mip_store_stats_new_def)
  obtain S' where "store_run us S = Inr S'" "stats_ok (mip_stats S')"
      "latest_announcements (mip_stats S') = keep_last (unat (block_count_considered (st_config (mip_stats S))))
         (latest_announcements (mip_stats S) @ concat (map (\<lambda>u. announcement (snd u)) us))"
    using store_run_total [OF ok n, of us] by blast
  then show ?thesis using assms(1) by (auto simp: mip_store_stats_new_def stats_ok_def counts_def)
qed

definition example_store :: mip_store where
  "example_store = \<lparr>mip_infos = [(example_mip, mip_state_new 3)],
     mip_stats = mip_store_stats_new \<lparr>block_count_considered = 2, warn_announced_version_ratio = 1 / 3\<rparr>\<rparr>"

theorem vote_counters_exact_witness:
  "\<exists>S'. store_run [(5, Some (0, Some 1)), (6, Some (0, None)), (11, Some (0, Some 1))] example_store = Inr S'
     \<and> latest_announcements (mip_stats S') = [0, 1] \<and> fmlookup (network_version_counters (mip_stats S')) 1 = Some 1"
  using vote_counters_exact [of example_store "\<lparr>block_count_considered = 2, warn_announced_version_ratio = 1 / 3\<rparr>"
      "[(5, Some (0, Some 1)), (6, Some (0, None)), (11, Some (0, Some 1))]"]
  by (auto simp: example_store_def keep_last_def)

section \<open>Nodes whose finality lags agree\<close>

text \<open>The state of a proposal after the slot at an instant was processed.\<close>

definition mip_at :: "massa_time \<Rightarrow> mip_info \<Rightarrow> mip_state \<Rightarrow> bool" where
  "mip_at a mi ms \<longleftrightarrow> (\<exists>d. mip_shape mi d ms) \<and> last_time ms \<le> a
     \<and> (\<forall>l. ms_state ms = LockedIn l \<longrightarrow> a \<le> time_saturating_add l (mi_activation_delay mi))"

definition store_at :: "massa_time \<Rightarrow> mip_store \<Rightarrow> bool" where
  "store_at a S \<longleftrightarrow> (\<forall>(mi, ms) \<in> set (mip_infos S). mip_at a mi ms)"

lemma mip_runs_final: "component_is_final (ms_state ms) \<Longrightarrow> mip_runs mi ts ms ms' \<Longrightarrow> ms' = ms"
  by (induction ts arbitrary: ms) (auto simp: final_advance)

lemma mip_runs_shape: "mip_runs mi ts ms ms' \<Longrightarrow> mip_shape mi d ms \<Longrightarrow> mip_shape mi d ms'"
  by (induction ts arbitrary: ms) (auto intro: mip_shape_advance)

text \<open>A locked proposal becomes active at the first slot past its activation instant.\<close>

lemma advance_locked_state:
  assumes "ms_state ms = LockedIn l" "ms_history ms \<noteq> []" "last_time ms < t"
  shows "ms_state (mip_on_advance (advance_for mi r t) ms)
      = (if time_saturating_add l (mi_activation_delay mi) < t then Active t else LockedIn l)"
    "\<not> time_saturating_add l (mi_activation_delay mi) < t \<Longrightarrow> mip_on_advance (advance_for mi r t) ms = ms"
  using assms by (auto simp: mip_on_advance_def advance_for_def Let_def locked_in_on_advance_def)

lemma mip_runs_locked:
  assumes "mip_runs mi ts ms ms'" "ms_state ms = LockedIn l" "ms_history ms \<noteq> []" "\<forall>t \<in> set ts. last_time ms < t"
  shows "ms_state ms' = (case find (\<lambda>t. time_saturating_add l (mi_activation_delay mi) < t) ts of
      None \<Rightarrow> LockedIn l | Some b \<Rightarrow> Active b)"
  using assms
proof (induction ts arbitrary: ms)
  case (Cons t ts)
  then obtain r where r: "mip_runs mi ts (mip_on_advance (advance_for mi r t) ms) ms'" by auto
  note st = advance_locked_state [OF Cons.prems(2,3), of t mi r]
  show ?case
  proof (cases "time_saturating_add l (mi_activation_delay mi) < t")
    case True
    then show ?thesis using st(1) Cons.prems(4) mip_runs_final [OF _ r] by auto
  next
    case False
    then have "mip_on_advance (advance_for mi r t) ms = ms" using st(2) Cons.prems(4) by simp
    then show ?thesis using Cons.IH [of ms] r Cons.prems False by auto
  qed
qed auto

text \<open>A proposal that is not locked yet cannot be active before the delay has passed.\<close>

definition locked_after :: "massa_time \<Rightarrow> mip_info \<Rightarrow> mip_state \<Rightarrow> bool" where
  "locked_after a mi ms \<longleftrightarrow> (\<forall>l. ms_state ms = LockedIn l \<longrightarrow> a \<le> l)
     \<and> (\<forall>b. ms_state ms = Active b \<longrightarrow> time_saturating_add a (mi_activation_delay mi) < b)"

lemma saturating_add_mono: "a \<le> b \<Longrightarrow> time_saturating_add a c \<le> time_saturating_add b c"
  by (auto simp: time_saturating_add_def word_le_nat_alt word_simps)

lemma advance_for_sel:
  "start_timestamp (advance_for mi r t) = mi_start mi" "timeout (advance_for mi r t) = mi_timeout mi"
  "activation_delay (advance_for mi r t) = mi_activation_delay mi" "threshold (advance_for mi r t) = r"
  "now (advance_for mi r t) = t"
  by (simp_all add: advance_for_def)

lemma locked_after_advance:
  assumes "locked_after a mi ms" "a < t"
  shows "locked_after a mi (mip_on_advance (advance_for mi r t) ms)"
proof (cases "ms_history ms \<noteq> [] \<and> last_time ms < t")
  case False
  then have "mip_on_advance (advance_for mi r t) ms = ms" by (auto simp: mip_on_advance_def advance_for_def Let_def)
  then show ?thesis using assms(1) by simp
next
  case True
  then have st: "ms_state (mip_on_advance (advance_for mi r t) ms) = component_on_advance (ms_state ms) (advance_for mi r t)"
    by (auto simp: mip_on_advance_def advance_for_def Let_def)
  show ?thesis
  proof (cases "ms_state ms")
    case (LockedIn l)
    then have "time_saturating_add a (mi_activation_delay mi) \<le> time_saturating_add l (mi_activation_delay mi)"
      using assms(1) by (simp add: locked_after_def saturating_add_mono)
    then show ?thesis using LockedIn assms(1)
      by (auto simp: locked_after_def st locked_in_on_advance_def advance_for_sel)
  qed (use assms in \<open>auto simp: locked_after_def st defined_on_advance_def started_on_advance_def advance_for_sel\<close>)
qed

lemma mip_runs_locked_after: "mip_runs mi ts ms ms' \<Longrightarrow> locked_after a mi ms \<Longrightarrow> \<forall>t \<in> set ts. a < t \<Longrightarrow> locked_after a mi ms'"
  by (induction ts arbitrary: ms) (auto intro: locked_after_advance)

lemma find_sorted:
  assumes "sorted_wrt (<) ts" "find P ts = Some b" "t \<in> set ts" "P t"
  shows "b \<le> (t :: 'a::linorder)"
  using assms by (induction ts) (auto split: if_splits)

lemma mip_active_agrees:
  assumes "mip_at a mi ms" "mip_runs mi ts ms ms'" "sorted_wrt (<) ts" "\<forall>t \<in> set ts. a < t"
    and "ts0 \<le> time_saturating_add a (mi_activation_delay mi)"
    and "ts0 \<le> a \<or> ts0 \<in> set ts \<or> (\<forall>t \<in> set ts. t \<le> ts0)"
  shows "mip_active_at mi ms' ts0 \<longleftrightarrow> mip_active_at mi ms ts0"
proof -
  obtain d where d: "mip_shape mi d ms" using assms(1) by (auto simp: mip_at_def)
  consider (final) "component_is_final (ms_state ms)" | (locked) l where "ms_state ms = LockedIn l"
    | (early) "ms_state ms = Defined \<or> (\<exists>v. ms_state ms = Started v)"
    by (cases "ms_state ms") auto
  then show ?thesis
  proof cases
    case final
    then show ?thesis using mip_runs_final assms(2) by blast
  next
    case (locked l)
    define P where "P = (\<lambda>t. time_saturating_add l (mi_activation_delay mi) < t)"
    have "\<forall>t \<in> set ts. last_time ms < t" using assms(1,4) by (auto simp: mip_at_def)
    from mip_runs_locked [OF assms(2) locked mip_shape_history(1) [OF d] this]
    have st: "ms_state ms' = (case find P ts of None \<Rightarrow> LockedIn l | Some b \<Rightarrow> Active b)" by (simp add: P_def)
    have "a \<le> time_saturating_add l (mi_activation_delay mi)" using assms(1) locked by (simp add: mip_at_def)
    then have near: "\<not> P t" if "t \<le> a" for t using that by (simp add: P_def)
    show ?thesis
    proof (cases "find P ts")
      case None
      then show ?thesis using st locked by (simp add: mip_active_at_def)
    next
      case (Some b)
      then have b: "b \<in> set ts" "P b" by (auto simp: find_Some_iff)
      have "b \<le> ts0" if "P ts0"
      proof -
        have "ts0 \<in> set ts \<or> (\<forall>t \<in> set ts. t \<le> ts0)" using assms(6) near that by blast
        then show ?thesis using b(1) find_sorted [OF assms(3) Some _ that] by blast
      qed
      moreover have "P ts0" if "b \<le> ts0" using that b(2) by (simp add: P_def)
      ultimately show ?thesis using st Some locked by (auto simp: mip_active_at_def P_def)
    qed
  next
    case early
    then have "locked_after a mi ms" by (auto simp: locked_after_def)
    from mip_runs_locked_after [OF assms(2) this assms(4)] have after: "locked_after a mi ms'" .
    have "\<not> mip_active_at mi ms' ts0"
    proof (cases "ms_state ms'")
      case (LockedIn l)
      then have "time_saturating_add a (mi_activation_delay mi) \<le> time_saturating_add l (mi_activation_delay mi)"
        using after by (simp add: locked_after_def saturating_add_mono)
      then show ?thesis using LockedIn assms(5) by (simp add: mip_active_at_def)
    next
      case (Active b)
      then show ?thesis using after assms(5) by (auto simp: locked_after_def mip_active_at_def)
    qed (simp_all add: mip_active_at_def)
    then show ?thesis using early by (auto simp: mip_active_at_def)
  qed
qed

text \<open>The two queries depend only on which proposals are active at the instant.\<close>

lemma find_map_list_all2: "list_all2 (\<lambda>x y. f x = g y) xs ys \<Longrightarrow> find_map f xs = find_map g ys"
  by (induction rule: list_all2_induct) (simp_all split: option.splits)

lemma find_map_filter: "find_map f (filter P xs) = find_map (\<lambda>x. if P x then f x else None) xs"
  by (induction xs) (simp_all split: option.splits)

lemma find_map_cong_set: "(\<And>x. x \<in> set xs \<Longrightarrow> f x = g x) \<Longrightarrow> find_map f xs = find_map g xs"
  by (induction xs) (simp_all split: option.splits)

lemma find_map_none: "find_map (\<lambda>_. None) xs = None"
  by (induction xs) simp_all

lemma list_all2_right: "list_all2 R xs ys \<Longrightarrow> y \<in> set ys \<Longrightarrow> \<exists>x \<in> set xs. R x y"
  by (induction rule: list_all2_induct) auto

lemma active_version_at:
  "get_network_version_active_at S ts = (case find_map (\<lambda>(mi, ms). if mip_active_at mi ms ts then Some (mi_version mi) else None)
     (rev (mip_infos S)) of Some v \<Rightarrow> v | None \<Rightarrow> 0)"
proof -
  have "(\<lambda>(k, v). case ms_state v of
               Active since \<Rightarrow> if since \<le> ts then Some (mi_version k) else None
             | LockedIn since \<Rightarrow>
                 if time_saturating_add since (mi_activation_delay k) < ts then Some (mi_version k) else None
             | _ \<Rightarrow> None) = (\<lambda>(mi, ms). if mip_active_at mi ms ts then Some (mi_version mi) else None)"
    by (auto simp: fun_eq_iff mip_active_at_def split: component_state.splits)
  then show ?thesis by (simp add: get_network_version_active_at_def)
qed

lemma component_version_at:
  assumes "\<forall>(mi, ms) \<in> set (mip_infos S). \<exists>d. mip_shape mi d ms"
  shows "get_latest_component_version_at S c ts =
    (case find_map (\<lambda>(mi, ms). if mip_active_at mi ms ts then bt_get (mi_components mi) c else None) (rev (mip_infos S)) of
       Some v \<Rightarrow> v | None \<Rightarrow> 0)"
proof -
  have key: "(if bt_contains (mi_components mi) c \<and> locked_or_active ms
         then (case state_at ms ts (mi_start mi) (mi_timeout mi) (mi_activation_delay mi) of
               Inr ID_Active \<Rightarrow> bt_get (mi_components mi) c | _ \<Rightarrow> None) else None)
      = (if mip_active_at mi ms ts then bt_get (mi_components mi) c else None)"
    if mem: "(mi, ms) \<in> set (mip_infos S)" for mi ms
  proof -
    obtain d where "mip_shape mi d ms" using bspec [OF assms mem] by auto
    note act = state_at_active [OF this, of ts]
    show ?thesis
    proof (cases "mip_active_at mi ms ts")
      case True
      then show ?thesis using act by (auto simp: bt_contains_def)
    next
      case False
      then have "locked_or_active ms \<Longrightarrow> state_at ms ts (mi_start mi) (mi_timeout mi) (mi_activation_delay mi) \<noteq> Inr ID_Active"
        using act by blast
      then show ?thesis using False by (auto split: sum.splits component_state_type_id.splits)
    qed
  qed
  have "find_map (\<lambda>x. if (case x of (mi, ms) \<Rightarrow> bt_contains (mi_components mi) c \<and> locked_or_active ms)
        then (case x of (mi, ms) \<Rightarrow>
             case state_at ms ts (mi_start mi) (mi_timeout mi) (mi_activation_delay mi) of
               Inr ID_Active \<Rightarrow> bt_get (mi_components mi) c | _ \<Rightarrow> None) else None) (rev (mip_infos S))
    = find_map (\<lambda>(mi, ms). if mip_active_at mi ms ts then bt_get (mi_components mi) c else None) (rev (mip_infos S))"
  proof (rule find_map_cong_set)
    fix x
    assume mem: "x \<in> set (rev (mip_infos S))"
    obtain mi ms where x: "x = (mi, ms)" by force
    show "(if (case x of (mi, ms) \<Rightarrow> bt_contains (mi_components mi) c \<and> locked_or_active ms)
        then (case x of (mi, ms) \<Rightarrow>
             case state_at ms ts (mi_start mi) (mi_timeout mi) (mi_activation_delay mi) of
               Inr ID_Active \<Rightarrow> bt_get (mi_components mi) c | _ \<Rightarrow> None) else None)
      = (case x of (mi, ms) \<Rightarrow> if mip_active_at mi ms ts then bt_get (mi_components mi) c else None)"
      unfolding x prod.case by (rule key) (use mem x in simp)
  qed
  then show ?thesis unfolding get_latest_component_version_at_def find_map_filter by simp
qed

text \<open>C34. A node whose finality lags behind answers like a node that is ahead.  Two nodes hold the stores before
  and after a sequence of final slots; for the timestamp of a slot that is not later than the last slot
  of the first node plus the activation delay of every proposal, both give the same active network version,
  the version that a block of this slot must carry, and the same version of every component.\<close>

theorem lagging_node_agrees:
  assumes "store_at a S" "stats_ok (mip_stats S)" "block_count_considered (st_config (mip_stats S)) \<noteq> 0"
    and "sorted_wrt (<) (map fst us)" "\<forall>t \<in> set (map fst us). a < t"
    and "ts \<le> a \<or> ts \<in> set (map fst us) \<or> (\<forall>t \<in> set (map fst us). t \<le> ts)"
    and "\<forall>mi \<in> set (bt_keys (mip_infos S)). ts \<le> time_saturating_add a (mi_activation_delay mi)"
  shows "\<exists>S'. store_run us S = Inr S' \<and> get_network_version_active_at S' ts = get_network_version_active_at S ts
    \<and> get_latest_component_version_at S' c ts = get_latest_component_version_at S c ts"
proof -
  obtain S' where S': "store_run us S = Inr S'" "list_all2 (entry_runs (map fst us)) (mip_infos S) (mip_infos S')"
    using store_run_total [OF assms(2,3), of us] by blast
  have S_at: "mip_at a mi ms" if "(mi, ms) \<in> set (mip_infos S)" for mi ms
    using assms(1) that by (auto simp: store_at_def)
  have S_shape: "\<exists>d. mip_shape mi d ms" if "(mi, ms) \<in> set (mip_infos S)" for mi ms
    using S_at [OF that] by (simp add: mip_at_def)
  have S'_shape: "\<exists>d. mip_shape mi d ms" if mem: "(mi, ms) \<in> set (mip_infos S')" for mi ms
  proof -
    obtain e where e: "e \<in> set (mip_infos S)" "entry_runs (map fst us) e (mi, ms)"
      using list_all2_right [OF S'(2) mem] by blast
    then have "(mi, snd e) \<in> set (mip_infos S)" by (metis fst_conv prod.collapse)
    then show ?thesis using S_shape mip_runs_shape e(2) by fastforce
  qed
  define agree where "agree = (\<lambda>e e'. fst e' = fst e \<and> (mip_active_at (fst e') (snd e') ts \<longleftrightarrow> mip_active_at (fst e) (snd e) ts))"
  have "agree e e'" if "e \<in> set (mip_infos S)" "entry_runs (map fst us) e e'" for e e'
  proof -
    have "(fst e, snd e) \<in> set (mip_infos S)" "fst e \<in> set (bt_keys (mip_infos S))" using that(1) by (auto simp: bt_keys_def)
    then show ?thesis
      using mip_active_agrees [OF S_at _ assms(4,5) _ assms(6)] that(2) assms(7) by (auto simp: agree_def)
  qed
  then have "list_all2 agree (mip_infos S) (mip_infos S')" using S'(2) by (blast intro: list_all2_mono list.rel_mono_strong)
  then have rel: "list_all2 agree (rev (mip_infos S)) (rev (mip_infos S'))" by simp
  have "list_all2 (\<lambda>e e'. (case e of (mi, ms) \<Rightarrow> if mip_active_at mi ms ts then f mi else None)
      = (case e' of (mi, ms) \<Rightarrow> if mip_active_at mi ms ts then f mi else None)) (rev (mip_infos S)) (rev (mip_infos S'))"
    for f :: "mip_info \<Rightarrow> u32 option"
    using rel by (rule list_all2_mono) (auto simp: agree_def)
  note same = find_map_list_all2 [OF this]
  have "get_network_version_active_at S' ts = get_network_version_active_at S ts"
    unfolding active_version_at using same [of "\<lambda>mi. Some (mi_version mi)"] by simp
  moreover have "get_latest_component_version_at S' c ts = get_latest_component_version_at S c ts"
  proof -
    have "\<forall>(mi, ms) \<in> set (mip_infos S). \<exists>d. mip_shape mi d ms" "\<forall>(mi, ms) \<in> set (mip_infos S'). \<exists>d. mip_shape mi d ms"
      using S_shape S'_shape by auto
    then show ?thesis using same [of "\<lambda>mi. bt_get (mi_components mi) c"] by (simp only: component_version_at)
  qed
  ultimately show ?thesis using S'(1) by blast
qed

theorem lagging_node_agrees_witness:
  "\<exists>S'. store_run [(12, Some (0, Some 1)), (14, Some (0, Some 1))] example_store = Inr S'
     \<and> get_network_version_active_at S' 14 = get_network_version_active_at example_store 14"
proof -
  have "mip_at 9 example_mip (mip_state_new 3)"
    by (auto simp: mip_at_def mip_state_new_def last_time_def intro: mip_shape.intros)
  then have "store_at 9 example_store" by (simp add: store_at_def example_store_def)
  moreover have "stats_ok (mip_stats example_store)"
    by (simp add: stats_ok_def example_store_def mip_store_stats_new_def counts_def)
  ultimately show ?thesis
    using lagging_node_agrees [of 9 example_store "[(12, Some (0, Some 1)), (14, Some (0, Some 1))]" 14]
    by (auto simp: example_store_def mip_store_stats_new_def bt_keys_def example_mip_def time_saturating_add_def saturating_add_def)
qed

section \<open>What a merge does\<close>

definition is_new :: "(mip_info, mip_state) btree \<Rightarrow> mip_info \<times> mip_state \<Rightarrow> bool" where
  "is_new A e \<longleftrightarrow> bt_get A (fst e) = None"

definition is_open :: "(mip_info, mip_state) btree \<Rightarrow> mip_info \<times> mip_state \<Rightarrow> bool" where
  "is_open A e \<longleftrightarrow> (case bt_get A (fst e) of Some ms \<Rightarrow> \<not> component_is_final (ms_state ms) | None \<Rightarrow> False)"

definition follows :: "mip_info \<Rightarrow> mip_info \<Rightarrow> bool" where
  "follows a b \<longleftrightarrow> mi_timeout a < mi_start b \<and> mi_version a < mi_version b"

definition last_key :: "(mip_info, mip_state) btree \<Rightarrow> mip_info list" where
  "last_key A = (if A = [] then [] else [fst (last A)])"

definition state_rank :: "mip_state \<Rightarrow> u32" where
  "state_rank ms = state_type_number (component_state_id (ms_state ms))"

definition merge_inv :: "(mip_info, mip_state) btree \<Rightarrow> (mip_info, mip_state) btree \<Rightarrow> merge_state \<Rightarrow> bool" where
  "merge_inv A P acc \<longleftrightarrow> mg_to_update acc = filter (is_open A) P \<and> mg_to_add acc = filter (is_new A) P
     \<and> mg_names acc = mi_name ` set (bt_keys A) \<union> mi_name ` set (map fst (mg_to_add acc))
     \<and> successively follows (last_key A @ map fst (mg_to_add acc))
     \<and> distinct (map mi_name (map fst (mg_to_add acc)))
     \<and> mi_name ` set (bt_keys A) \<inter> mi_name ` set (map fst (mg_to_add acc)) = {}
     \<and> (\<forall>(mi, ms) \<in> set P. is_consistent_with ms mi = Inr ()
          \<and> (\<forall>o_ms. bt_get A mi = Some o_ms \<longrightarrow> \<not> component_is_final (ms_state o_ms) \<longrightarrow> state_rank o_ms \<le> state_rank ms))"

lemma bt_insert_greater: "(\<forall>k' \<in> fst ` set m. k' < k) \<Longrightarrow> bt_insert k v m = m @ [(k, v)]"
  by (induction m) (auto simp: not_less_iff_gr_or_eq)

lemma merge_known_step:
  assumes "merge_known mi ms o_ms acc = Inr acc'" "merge_inv A P acc" "bt_get A mi = Some o_ms" "bt_wf (P @ [(mi, ms)])"
    "is_consistent_with ms mi = Inr ()"
  shows "merge_inv A (P @ [(mi, ms)]) acc'"
proof -
  have less: "\<forall>k \<in> fst ` set (filter (is_open A) P). k < mi" using assms(4) by (auto simp: bt_wf_def sorted_wrt_append)
  show ?thesis
  proof (cases "component_is_final (ms_state o_ms)")
    case True
    then have "acc' = acc" using assms(1) by (cases "ms_state o_ms") (auto simp: merge_known_def)
    moreover have "\<not> is_open A (mi, ms)" "\<not> is_new A (mi, ms)" using assms(3) True by (simp_all add: is_open_def is_new_def)
    ultimately show ?thesis using assms(2,3,5) True unfolding merge_inv_def by (elim conjE) simp
  next
    case False
    then have rank: "state_rank o_ms \<le> state_rank ms" and acc': "acc' = acc\<lparr>mg_to_update := bt_insert mi ms (mg_to_update acc)\<rparr>"
      using assms(1) by (cases "ms_state o_ms"; auto simp: merge_known_def state_rank_def split: if_splits)+
    have "mg_to_update acc' = filter (is_open A) (P @ [(mi, ms)])"
      using assms(2,3) False less by (simp add: acc' merge_inv_def is_open_def bt_insert_greater)
    moreover have "\<not> is_new A (mi, ms)" using assms(3) by (simp add: is_new_def)
    ultimately show ?thesis using assms(2,3,5) rank unfolding merge_inv_def acc' by (elim conjE) simp
  qed
qed

lemma merge_unknown_step:
  assumes "merge_unknown A mi ms acc = Inr acc'" "merge_inv A P acc" "bt_get A mi = None" "bt_wf (P @ [(mi, ms)])"
    "is_consistent_with ms mi = Inr ()"
  shows "merge_inv A (P @ [(mi, ms)]) acc'"
proof -
  have "\<forall>k \<in> fst ` set (filter (is_new A) P). k < mi" using assms(4) by (auto simp: bt_wf_def sorted_wrt_append)
  then have ins: "bt_insert mi ms (mg_to_add acc) = mg_to_add acc @ [(mi, ms)]"
    using assms(2) by (simp add: merge_inv_def bt_insert_greater)
  have open_new: "\<not> is_open A (mi, ms)" "is_new A (mi, ms)" using assms(3) by (simp_all add: is_open_def is_new_def)
  have upd: "mg_to_update acc' = mg_to_update acc" "mg_to_add acc' = mg_to_add acc @ [(mi, ms)]"
      "mg_names acc' = insert (mi_name mi) (mg_names acc)"
    using assms(1) by (auto simp: merge_unknown_def Let_def ins split: if_splits)
  have "successively follows (last_key A @ map fst (mg_to_add acc) @ [mi]) \<and> mi_name mi \<notin> mg_names acc"
  proof (cases "A = [] \<and> mg_to_add acc = []")
    case True
    then show ?thesis using assms(2) by (simp add: merge_inv_def last_key_def bt_keys_def)
  next
    case False
    define mi0 where "mi0 = last (last_key A @ map fst (mg_to_add acc))"
    have "(if mg_to_add acc \<noteq> [] then Some (fst (last (mg_to_add acc)))
         else if A \<noteq> [] then Some (fst (last A)) else None) = Some mi0"
      using False by (auto simp: mi0_def last_key_def last_map)
    then have "follows mi0 mi" "mi_name mi \<notin> mg_names acc"
      using assms(1) by (auto simp: merge_unknown_def Let_def follows_def split: if_splits)
    moreover have "successively follows (last_key A @ map fst (mg_to_add acc))" using assms(2) unfolding merge_inv_def by blast
    ultimately show ?thesis
      using False by (simp flip: append_assoc add: successively_append_iff mi0_def last_key_def)
  qed
  then show ?thesis using assms(2,3,5) open_new upd unfolding merge_inv_def by (elim conjE) (simp add: image_image)
qed

lemma merge_loop_inv:
  "merge_loop A B acc = Inr acc' \<Longrightarrow> merge_inv A P acc \<Longrightarrow> bt_wf (P @ B) \<Longrightarrow> merge_inv A (P @ B) acc'"
proof (induction B arbitrary: P acc)
  case (Cons e B)
  obtain mi ms where e: "e = (mi, ms)" by force
  have c: "is_consistent_with ms mi = Inr ()" using Cons.prems(1) by (auto simp: e split: sum.splits)
  obtain acc1 where acc1: "(case bt_get A mi of Some o_ms \<Rightarrow> merge_known mi ms o_ms acc | None \<Rightarrow> merge_unknown A mi ms acc) = Inr acc1"
      "merge_loop A B acc1 = Inr acc'"
    using Cons.prems(1) c by (auto simp: e rbind_eq_Inr)
  have wf: "bt_wf (P @ [(mi, ms)])" using Cons.prems(3) by (auto simp: e bt_wf_def sorted_wrt_append)
  have "merge_inv A (P @ [e]) acc1"
    using acc1(1) merge_known_step [OF _ Cons.prems(2) _ wf c] merge_unknown_step [OF _ Cons.prems(2) _ wf c]
    by (cases "bt_get A mi") (simp_all add: e)
  from Cons.IH [OF acc1(2) this] Cons.prems(3) show ?case by simp
qed simp

lemma merge_inv_init:
  "merge_inv A [] \<lparr>mg_component_versions = cv, mg_names = mi_name ` set (bt_keys A), mg_to_update = [], mg_to_add = []\<rparr>"
  by (simp add: merge_inv_def last_key_def)

lemma update_with_inv:
  assumes "update_with B A = Inr ((updated, added), A')" "bt_wf (mip_infos B)"
  obtains acc where "merge_inv (mip_infos A) (mip_infos B) acc" "added = mg_to_add acc"
    "updated = bt_keys (mg_to_update acc)" "A' = A\<lparr>mip_infos := bt_extend (mip_infos A) (mg_to_update acc)\<rparr>"
proof -
  obtain acc where acc: "merge_loop (mip_infos A) (mip_infos B)
       \<lparr>mg_component_versions =
          fold (\<lambda>(c, v) m. m(c \<mapsto> v)) (concat (map (mi_components \<circ> fst) (mip_infos A))) Map.empty,
        mg_names = mi_name ` set (bt_keys (mip_infos A)), mg_to_update = [], mg_to_add = []\<rparr> = Inr acc"
      "added = mg_to_add acc" "updated = bt_keys (mg_to_update acc)"
      "A' = A\<lparr>mip_infos := bt_extend (mip_infos A) (mg_to_update acc)\<rparr>"
    using assms(1) unfolding update_with_def rbind_eq_Inr by auto
  from merge_loop_inv [OF acc(1) merge_inv_init] assms(2) have "merge_inv (mip_infos A) (mip_infos B) acc" by simp
  then show ?thesis using acc(2-4) that by blast
qed

text \<open>C38. Merging the store of a bootstrap server keeps the set of known proposals, never moves a proposal
  backwards, and takes exactly the states of the proposals that can still change, each of which passed the
  consistency check.  The proposals reported as new are the unknown ones; each starts after the timeout of the
  one before it with a higher version, the first after the last known proposal, and their names are new.\<close>

theorem update_with_merges:
  assumes "update_with B A = Inr ((updated, added), A')" "bt_wf (mip_infos A)" "bt_wf (mip_infos B)"
  shows "bt_get (mip_infos A') mi =
      (case bt_get (mip_infos A) mi of
         None \<Rightarrow> None
       | Some ms \<Rightarrow> if component_is_final (ms_state ms) then Some ms
           else (case bt_get (mip_infos B) mi of None \<Rightarrow> Some ms | Some ms' \<Rightarrow> Some ms'))
    \<and> (\<forall>ms ms'. bt_get (mip_infos A) mi = Some ms \<longrightarrow> bt_get (mip_infos A') mi = Some ms' \<longrightarrow> state_rank ms \<le> state_rank ms')
    \<and> (\<forall>ms. bt_get (mip_infos B) mi = Some ms \<longrightarrow> is_consistent_with ms mi = Inr ())
    \<and> bt_get added mi = (if bt_get (mip_infos A) mi = None then bt_get (mip_infos B) mi else None)
    \<and> successively follows (last_key (mip_infos A) @ bt_keys added)
    \<and> distinct (map mi_name (bt_keys added)) \<and> mi_name ` set (bt_keys (mip_infos A)) \<inter> mi_name ` set (bt_keys added) = {}"
proof -
  define a b where "a = mip_infos A" and "b = mip_infos B"
  obtain acc where inv: "merge_inv a b acc" and added: "added = mg_to_add acc"
    and A': "A' = A\<lparr>mip_infos := bt_extend a (mg_to_update acc)\<rparr>"
    using update_with_inv [OF assms(1,3)] by (auto simp: a_def b_def)
  have upd: "mg_to_update acc = filter (is_open a) b" and add: "mg_to_add acc = filter (is_new a) b"
    and ok: "\<forall>(mi, ms) \<in> set b. is_consistent_with ms mi = Inr ()
       \<and> (\<forall>o_ms. bt_get a mi = Some o_ms \<longrightarrow> \<not> component_is_final (ms_state o_ms) \<longrightarrow> state_rank o_ms \<le> state_rank ms)"
    using inv unfolding merge_inv_def by blast+
  have wf: "bt_wf a" "bt_wf b" "bt_wf (mg_to_update acc)" using assms(2,3) by (simp_all add: a_def b_def upd bt_wf_filter)
  have get_upd: "bt_get (mg_to_update acc) mi = (case bt_get b mi of Some ms \<Rightarrow> if is_open a (mi, ms) then Some ms else None | None \<Rightarrow> None)"
    unfolding upd using wf(2) by (simp add: bt_get_filter)
  have get_add: "bt_get added mi = (case bt_get b mi of Some ms \<Rightarrow> if is_new a (mi, ms) then Some ms else None | None \<Rightarrow> None)"
    unfolding added add using wf(2) by (simp add: bt_get_filter)
  have get_A': "bt_get (mip_infos A') mi = (case bt_get (mg_to_update acc) mi of Some ms \<Rightarrow> Some ms | None \<Rightarrow> bt_get a mi)"
    using wf by (simp add: A' bt_get_extend_bt)
  have ok_mi: "is_consistent_with ms mi = Inr ()"
      "\<And>o_ms. bt_get a mi = Some o_ms \<Longrightarrow> \<not> component_is_final (ms_state o_ms) \<Longrightarrow> state_rank o_ms \<le> state_rank ms"
    if "bt_get b mi = Some ms" for ms
    using ok that wf(2) by (auto simp: bt_get_eq_Some)
  have "successively follows (last_key a @ bt_keys added) \<and> distinct (map mi_name (bt_keys added))
      \<and> mi_name ` set (bt_keys a) \<inter> mi_name ` set (bt_keys added) = {}"
    using inv unfolding merge_inv_def added bt_keys_def by blast
  then show ?thesis
    using get_upd get_add get_A' ok_mi
    by (auto simp: is_open_def is_new_def a_def [symmetric] b_def [symmetric] split: option.splits if_splits)
qed

definition example_active_state :: mip_state where
  "example_active_state = \<lparr>ms_state = Active 22,
     ms_history = [((3, 0), ID_Defined), ((12, 1 / 4), ID_Started), ((14, 3 / 4), ID_LockedIn), ((22, 1), ID_Active)]\<rparr>"

lemma example_active_consistent: "is_consistent_with example_active_state example_mip = Inr ()"
  unfolding example_active_state_def
  by (rule mip_shape_consistent [OF mip_reachable_shape [OF example_mip_reachable]]) (simp_all add: example_mip_def)

theorem update_with_merges_witness:
  "update_with (example_store\<lparr>mip_infos := [(example_mip, example_active_state)]\<rparr>) example_store
     = Inr (([example_mip], []), example_store\<lparr>mip_infos := [(example_mip, example_active_state)]\<rparr>)
   \<and> bt_get [(example_mip, example_active_state)] example_mip = Some example_active_state"
proof -
  have "merge_known example_mip example_active_state (mip_state_new 3) acc
      = Inr (acc\<lparr>mg_to_update := bt_insert example_mip example_active_state (mg_to_update acc)\<rparr>)" for acc
    by (simp add: merge_known_def mip_state_new_def example_active_state_def word_le_nat_alt)
  then have upd: "update_with (example_store\<lparr>mip_infos := [(example_mip, example_active_state)]\<rparr>) example_store
     = Inr (([example_mip], []), example_store\<lparr>mip_infos := [(example_mip, example_active_state)]\<rparr>)"
    by (simp add: update_with_def example_store_def example_active_consistent bt_keys_def bt_extend_def)
  from update_with_merges [OF this, of example_mip] upd show ?thesis
    by (simp add: example_store_def mip_state_new_def bt_wf_Cons)
qed

text \<open>C39. A store built from a list of proposals, as a node does at start-up, holds exactly these proposals, each
  with a consistent state; they are sequential: each starts after the timeout of the one before it, with a
  higher version, and no two share a name.\<close>

theorem mip_store_try_from_sequential:
  assumes "mip_store_try_from value cfg = Inr S"
  shows "mip_infos S = bt_extend [] value \<and> successively follows (bt_keys (mip_infos S))
    \<and> distinct (map mi_name (bt_keys (mip_infos S)))
    \<and> list_all (\<lambda>(mi, ms). is_consistent_with ms mi = Inr ()) (mip_infos S) \<and> mip_stats S = mip_store_stats_new cfg"
proof -
  define b where "b = bt_extend [] value"
  obtain upd added A' where u: "update_with \<lparr>mip_infos = b, mip_stats = mip_store_stats_new cfg\<rparr>
        \<lparr>mip_infos = [], mip_stats = mip_store_stats_new cfg\<rparr> = Inr ((upd, added), A')"
      and S: "S = A'\<lparr>mip_infos := bt_extend (mip_infos A') added\<rparr>"
    using assms by (auto simp: mip_store_try_from_def rbind_eq_Inr b_def split: prod.splits)
  have wf: "bt_wf b" by (simp add: b_def)
  obtain acc where inv: "merge_inv [] b acc" "added = mg_to_add acc"
      "A' = \<lparr>mip_infos = bt_extend [] (mg_to_update acc), mip_stats = mip_store_stats_new cfg\<rparr>"
    using update_with_inv [OF u] wf by auto
  have "is_open [] = (\<lambda>e. False)" "is_new [] = (\<lambda>e. True)" by (auto simp: is_open_def is_new_def fun_eq_iff)
  then have lists: "mg_to_update acc = []" "mg_to_add acc = b" using inv(1) unfolding merge_inv_def by simp_all
  have "bt_extend [] b = b" by (rule bt_eqI) (simp_all add: wf bt_get_extend_bt split: option.splits)
  then have "mip_infos S = b" using S inv(2,3) lists by (simp add: bt_extend_def)
  then show ?thesis using inv(1) lists S inv(3) unfolding merge_inv_def last_key_def bt_keys_def b_def [symmetric]
    by (auto simp: list_all_iff)
qed

definition first_mip :: mip_info where
  "first_mip = MipInfo [1] 1 [(MC_Execution, 1)] 10 20 5"

definition second_mip :: mip_info where
  "second_mip = MipInfo [2] 2 [(MC_Execution, 1)] 30 40 2048000"

text \<open>The check on component versions does not see the first proposal: both change the same component to version 1.\<close>

lemma component_check_misses_first:
  "mip_store_try_from [(first_mip, mip_state_new 3), (second_mip, mip_state_new 3)] cfg
     = Inr \<lparr>mip_infos = [(first_mip, mip_state_new 3), (second_mip, mip_state_new 3)], mip_stats = mip_store_stats_new cfg\<rparr>
   \<and> bt_get (mi_components first_mip) MC_Execution = bt_get (mi_components second_mip) MC_Execution"
proof -
  have new: "is_consistent_with (mip_state_new d) mi = Inr ()" if "d \<le> mi_start mi" "mi_start mi < mi_timeout mi" for d mi
    using that by (intro mip_shape_consistent [of mi d]) (simp_all add: mip_state_new_def shape_defined)
  have ok: "is_consistent_with (mip_state_new 3) first_mip = Inr ()" "is_consistent_with (mip_state_new 3) second_mip = Inr ()"
    by (rule new; simp add: first_mip_def second_mip_def)+
  have "first_mip < second_mip"
    by (simp add: less_mip_info_def mip_info_key_def first_mip_def second_mip_def less_prod_def)
  then have ord: "first_mip < second_mip" "\<not> second_mip < first_mip" "second_mip \<noteq> first_mip" by auto
  have step: "\<not> mi_activation_delay second_mip < VERSIONING_ACTIVATION_DELAY_MIN" "mi_timeout first_mip < mi_start second_mip"
      "mi_start second_mip < mi_timeout second_mip" "mi_version first_mip < mi_version second_mip" "mi_name second_mip \<noteq> mi_name first_mip"
    by (simp_all add: first_mip_def second_mip_def VERSIONING_ACTIVATION_DELAY_MIN_def time_saturating_mul_def saturating_mul_def)
  show ?thesis
    using ok ord step
    by (simp add: mip_store_try_from_def update_with_def bt_extend_def merge_unknown_def component_version_compatible_def bt_keys_def
        Let_def) (simp add: first_mip_def second_mip_def)
qed

definition example_cfg :: mip_stats_config where
  "example_cfg = \<lparr>block_count_considered = 2, warn_announced_version_ratio = 1 / 3\<rparr>"

theorem mip_store_try_from_sequential_witness:
  "successively follows [first_mip, second_mip] \<and> distinct [mi_name first_mip, mi_name second_mip]"
  using mip_store_try_from_sequential [OF conjunct1 [OF component_check_misses_first [of example_cfg]]]
  by (simp add: bt_keys_def)

section \<open>After a network shutdown\<close>

definition resumes_after :: "massa_time \<Rightarrow> mip_info \<times> mip_state \<Rightarrow> bool" where
  "resumes_after end_ts e \<longleftrightarrow> component_is_final (ms_state (snd e))
     \<or> ms_state (snd e) = Defined \<and> end_ts < mi_start (fst e) \<and> end_ts < mi_timeout (fst e)"

lemma saturating_shift:
  assumes "start0 \<le> start"
  shows "nvs \<le> time_saturating_add start (time_saturating_sub nvs start0)"
  using assms unsigned_less [of nvs, where ?'a = nat]
  by (auto simp: word_le_nat_alt time_saturating_add_def time_saturating_sub_def word_simps)

lemma set_bt_insert: "set (bt_insert k v m) \<subseteq> insert (k, v) (set m)"
  by (induction k v m rule: bt_insert.induct) (auto split: if_splits)

lemma mip_info_less_start: "a < b \<Longrightarrow> mi_start a \<le> mi_start b"
  by (auto simp: less_mip_info_def mip_info_key_def less_prod_def)

lemma shutdown_loop_resumes:
  assumes "shutdown_loop (in_shutdown start_ts end_ts) nvs offset es new_store = Inr new_store'"
    and "end_ts < nvs" "bt_wf es" "list_all (resumes_after end_ts) new_store"
    and "\<forall>o_ts. offset = Some o_ts \<longrightarrow> (\<forall>mi \<in> fst ` set es. nvs \<le> time_saturating_add (mi_start mi) o_ts)"
    and "\<forall>(mi, ms) \<in> set es. ms_state ms = Defined \<longrightarrow> start_ts \<le> mi_start mi \<and> mi_start mi < mi_timeout mi"
  shows "list_all (resumes_after end_ts) new_store'"
  using assms(1,3-6)
proof (induction es arbitrary: offset new_store)
  case (Cons e es)
  obtain mi ms where e: "e = (mi, ms)" by force
  have wf: "bt_wf es" and later: "\<forall>mi' \<in> fst ` set es. mi_start mi \<le> mi_start mi'"
    using Cons.prems(2) mip_info_less_start by (auto simp: e bt_wf_Cons)
  define off where "off = (case offset of Some o_ts \<Rightarrow> o_ts | None \<Rightarrow> time_saturating_sub nvs (mi_start mi))"
  have off: "\<forall>mi' \<in> insert mi (fst ` set es). nvs \<le> time_saturating_add (mi_start mi') off"
    using Cons.prems(4) later saturating_shift [of "mi_start mi"] by (auto simp: off_def e split: option.splits)
  have shifted: "nvs \<le> mi_start (mip_shift off mi)" "nvs \<le> mi_timeout (mip_shift off mi)"
    using off saturating_add_ge [of "time_saturating_add (mi_start mi) off" "time_saturating_sub (mi_timeout mi) (mi_start mi)"]
    by (auto simp: mip_shift_def Let_def)
  have tail_defined: "\<forall>(mi, ms) \<in> set es. ms_state ms = Defined \<longrightarrow> start_ts \<le> mi_start mi \<and> mi_start mi < mi_timeout mi"
    using Cons.prems(5) by auto
  have insert_ok: "list_all (resumes_after end_ts) (bt_insert k v new_store)" if "resumes_after end_ts (k, v)" for k v
    using Cons.prems(3) that set_bt_insert [of k v new_store] by (auto simp: list_all_iff)
  have go_shift: ?case
    if "shutdown_loop (in_shutdown start_ts end_ts) nvs (Some off) es (bt_insert (mip_shift off mi) v new_store) = Inr new_store'"
      "ms_state v = Defined" for v
  proof -
    have "resumes_after end_ts (mip_shift off mi, v)"
      using that(2) less_le_trans [OF assms(2)] shifted by (simp add: resumes_after_def)
    from Cons.IH [OF that(1) wf insert_ok [OF this] _ tail_defined] off show ?thesis by simp
  qed
  have go_keep: ?case
    if "shutdown_loop (in_shutdown start_ts end_ts) nvs offset es (bt_insert mi ms new_store) = Inr new_store'"
      "resumes_after end_ts (mi, ms)"
    using Cons.IH [OF that(1) wf insert_ok [OF that(2)] _ tail_defined] Cons.prems(4) by auto
  have reset: "ms_state v = Defined" if "reset_from ms = Some v" for v
    using that by (auto simp: reset_from_def mip_state_new_def split: list.splits if_splits)
  show ?case
  proof (cases "ms_state ms")
    case Defined
    then have "start_ts \<le> mi_start mi" "mi_start mi < mi_timeout mi" using Cons.prems(5) by (auto simp: e)
    then have "resumes_after end_ts (mi, ms)" if "\<not> in_shutdown start_ts end_ts (mi_start mi)"
      using Defined that by (auto simp: resumes_after_def in_shutdown_def)
    then show ?thesis using Cons.prems(1) Defined go_shift go_keep
      by (auto simp: e off_def Let_def split: if_splits)
  next
    case (Started v)
    then show ?thesis using Cons.prems(1) go_shift reset by (auto simp: e off_def Let_def result_simps)
  next
    case (LockedIn v)
    then show ?thesis using Cons.prems(1) go_shift reset by (auto simp: e off_def Let_def result_simps)
  qed (use Cons.prems(1) go_keep in \<open>auto simp: e resumes_after_def Let_def\<close>)
qed simp


definition locked_store :: mip_store where
  "locked_store = example_store\<lparr>mip_infos := [(example_mip, \<lparr>ms_state = LockedIn 14,
     ms_history = [((3, 0), ID_Defined), ((12, 1 / 4), ID_Started), ((14, 3 / 4), ID_LockedIn)]\<rparr>)]\<rparr>"


text \<open>Two divergences from the comments in the code.  The count compared with the warning threshold is that of the
  announcement that leaves the window, not of the one announced.  A proposal that is moved past the
  shutdown may overlap one that is not moved.\<close>

lemma warning_counts_removed_version:
  "fst (count_announcement 2 \<lparr>st_config = \<lparr>block_count_considered = 3, warn_announced_version_ratio = 1 / 3\<rparr>,
      latest_announcements = [1, 1, 1], network_version_counters = fmupd 1 3 fmempty\<rparr>) = 2
   \<and> fmlookup (network_version_counters (snd (count_announcement 2
        \<lparr>st_config = \<lparr>block_count_considered = 3, warn_announced_version_ratio = 1 / 3\<rparr>,
         latest_announcements = [1, 1, 1], network_version_counters = fmupd 1 3 fmempty\<rparr>))) 2 = Some 1"
  by (simp add: count_announcement_def Let_def saturating_sub_def)

definition moved_mip :: mip_info where
  "moved_mip = MipInfo [1] 1 [] 20 60 5"

definition kept_mip :: mip_info where
  "kept_mip = MipInfo [2] 2 [] 70 80 5"

lemma shutdown_update_overlaps:
  "follows moved_mip kept_mip
   \<and> shutdown_loop (in_shutdown 16 56) 64 None [(moved_mip, mip_state_new 3), (kept_mip, mip_state_new 3)] []
       = Inr [(mip_shift 44 moved_mip, mip_state_new 3), (kept_mip, mip_state_new 3)]
   \<and> \<not> follows (mip_shift 44 moved_mip) kept_mip"
  by (simp add: follows_def moved_mip_def kept_mip_def mip_shift_def Let_def in_shutdown_def mip_state_new_def less_mip_info_def
      mip_info_key_def less_prod_def time_saturating_add_def saturating_add_def time_saturating_sub_def saturating_sub_def)

end
