(* ===== verification/Massa_Cliques.thy ===== *)
theory Massa_Cliques
  imports Massa_Codecs "HOL-Library.Multiset"
begin

text \<open>
  \<^verbatim>\<open>massa-consensus-worker/src/state/clique_computation.rs\<close>: the enumeration of the maximal sets
  of mutually compatible blocks, given the incompatibility graph \<open>gi_head\<close>.  The code runs the
  Bron-Kerbosch search with a pivot on an explicit stack of triples \<open>(r, p, x)\<close>.

  A \<open>PreHashSet\<close> is a finite set and a \<open>PreHashMap\<close> a finite map.  The order in which one of them
  is traversed is unspecified: it is the argument \<open>ord\<close>, which receives the place of the traversal in
  the run, so that equal sets may be traversed differently at different places; \<open>traverses\<close> states
  that every element is visited once.  The program panics when it indexes a map at an absent key.
\<close>

section \<open>Block identifiers\<close>

datatype block_id = BlockIdV0 (block_hash: "256 word")

definition BLOCK_ID_VERSION :: u64 where
  "BLOCK_ID_VERSION = 0"

definition block_id_ser :: "varint_lib \<Rightarrow> block_id serializer" where
  "block_id_ser V b = ser_seq [varint_ser V BLOCK_ID_VERSION, Inr (be_bytes 32 (unat (block_hash b)))]"

instantiation block_id :: linorder
begin

definition less_eq_block_id :: "block_id \<Rightarrow> block_id \<Rightarrow> bool" where
  "less_eq_block_id a b \<longleftrightarrow> block_hash a \<le> block_hash b"

definition less_block_id :: "block_id \<Rightarrow> block_id \<Rightarrow> bool" where
  "less_block_id a b \<longleftrightarrow> block_hash a < block_hash b"

instance
  by standard (auto simp: less_eq_block_id_def less_block_id_def block_id.expand)

end

section \<open>Traversals of hash sets\<close>

datatype traversal =
    Pivot nat | Expand nat | Promote block_id | Clique_Blocks nat | Blockclique | Stale_Blocks
  | Final_Candidates nat | Final_Descendants nat block_id | Final_Blocks | Incompatibilities | Children block_id nat
  | Active_Blocks

type_synonym hash_order = "traversal \<Rightarrow> block_id fset \<Rightarrow> block_id list"

definition traverses :: "hash_order \<Rightarrow> bool" where
  "traverses ord \<longleftrightarrow> (\<forall>t s. distinct (ord t s) \<and> set (ord t s) = fset s)"

definition sorted_order :: hash_order where
  "sorted_order t s = sorted_list_of_fset s"

lemma traverses_sorted_order: "traverses sorted_order"
  by (simp add: traverses_def sorted_order_def sorted_list_of_fset.rep_eq)

lemma set_ord [simp]: "traverses ord \<Longrightarrow> set (ord t s) = fset s"
  by (simp add: traverses_def)

lemma distinct_ord [simp]: "traverses ord \<Longrightarrow> distinct (ord t s)"
  by (simp add: traverses_def)

section \<open>The search\<close>

type_synonym incompatibilities = "(block_id, block_id fset) fmap"

type_synonym frame = "block_id fset \<times> block_id fset \<times> block_id fset"

datatype clique_panic = MissingIndex block_id | NoPivot

text \<open>\<open>&gi_head[u] | {u}\<close>\<close>

definition closed_incomp :: "incompatibilities \<Rightarrow> block_id \<Rightarrow> clique_panic + block_id fset" where
  "closed_incomp gi u = (case fmlookup gi u of None \<Rightarrow> Inl (MissingIndex u) | Some s \<Rightarrow> Inr (finsert u s))"

text \<open>\<open>Iterator::max_by_key\<close>: the last of the elements with the greatest key.\<close>

fun max_by_key :: "('a \<Rightarrow> 'e + nat) \<Rightarrow> ('a \<times> nat) option \<Rightarrow> 'a list \<Rightarrow> 'e + ('a \<times> nat) option" where
  "max_by_key key best [] = Inr best"
| "max_by_key key best (u # us) =
     rbind (key u) (\<lambda>k.
       max_by_key key
         (case best of
            None \<Rightarrow> Some (u, k)
          | Some (b, kb) \<Rightarrow> if kb \<le> k then Some (u, k) else Some (b, kb)) us)"

definition choose_pivot ::
    "hash_order \<Rightarrow> nat \<Rightarrow> incompatibilities \<Rightarrow> block_id fset \<Rightarrow> block_id fset \<Rightarrow> clique_panic + block_id" where
  "choose_pivot ord n gi p x =
     rbind (max_by_key (\<lambda>u. rbind (closed_incomp gi u) (\<lambda>c. Inr (fcard (p |-| c)))) None
              (ord (Pivot n) (p |\<union>| x))) (\<lambda>best.
       case best of None \<Rightarrow> Inl NoPivot | Some (u, k) \<Rightarrow> Inr u)"

text \<open>The loop over \<open>u_set\<close>; the head of the list is the top of the stack.\<close>

fun expand ::
    "incompatibilities \<Rightarrow> block_id fset \<Rightarrow> block_id fset \<Rightarrow> block_id fset \<Rightarrow> frame list \<Rightarrow> block_id list
      \<Rightarrow> clique_panic + frame list" where
  "expand gi r p x stack [] = Inr stack"
| "expand gi r p x stack (u # us) =
     (let p = p |-| {|u|} in
      rbind (closed_incomp gi u) (\<lambda>c.
        expand gi r p (finsert u x) ((finsert u r, p |-| c, x |-| c) # stack) us))"

definition clique_step ::
    "hash_order \<Rightarrow> nat \<Rightarrow> incompatibilities \<Rightarrow> frame \<Rightarrow> frame list \<Rightarrow> clique_panic + frame list" where
  "clique_step ord n gi f stack = (case f of (r, p, x) \<Rightarrow>
     rbind (choose_pivot ord n gi p x) (\<lambda>u_p.
     rbind (closed_incomp gi u_p) (\<lambda>c.
       expand gi r p x stack (ord (Expand n) (p |\<inter>| c)))))"

partial_function (option) cliques_loop ::
    "hash_order \<Rightarrow> nat \<Rightarrow> incompatibilities \<Rightarrow> frame list \<Rightarrow> block_id fset list
      \<Rightarrow> (clique_panic + block_id fset list) option" where
  "cliques_loop ord n gi stack max_cliques =
     (case stack of
        [] \<Rightarrow> Some (Inr max_cliques)
      | (r, p, x) # stack' \<Rightarrow>
          if p = {||} \<and> x = {||} then cliques_loop ord (Suc n) gi stack' (max_cliques @ [r])
          else (case clique_step ord n gi (r, p, x) stack' of
                  Inl e \<Rightarrow> Some (Inl e)
                | Inr stack'' \<Rightarrow> cliques_loop ord (Suc n) gi stack'' max_cliques))"

definition compute_max_cliques ::
    "hash_order \<Rightarrow> incompatibilities \<Rightarrow> (clique_panic + block_id fset list) option" where
  "compute_max_cliques ord gi = cliques_loop ord 0 gi [({||}, fmdom gi, {||})] []"

section \<open>Compatible sets\<close>

definition incomp_of :: "incompatibilities \<Rightarrow> block_id \<Rightarrow> block_id fset" where
  "incomp_of gi u = (case fmlookup gi u of None \<Rightarrow> {||} | Some s \<Rightarrow> s)"

text \<open>The incompatibility graph is symmetric and irreflexive.\<close>

definition gi_wf :: "incompatibilities \<Rightarrow> bool" where
  "gi_wf gi \<longleftrightarrow> (\<forall>u v. v |\<in>| incomp_of gi u \<longrightarrow> v \<noteq> u \<and> v |\<in>| fmdom gi \<and> u |\<in>| incomp_of gi v)"

definition compatible :: "incompatibilities \<Rightarrow> block_id fset \<Rightarrow> bool" where
  "compatible gi s \<longleftrightarrow> s |\<subseteq>| fmdom gi \<and> (\<forall>u v. u |\<in>| s \<longrightarrow> v |\<in>| s \<longrightarrow> v |\<notin>| incomp_of gi u)"

definition maximal_compatible :: "incompatibilities \<Rightarrow> block_id fset set" where
  "maximal_compatible gi =
     {s. compatible gi s \<and> (\<forall>v. v |\<in>| fmdom gi \<longrightarrow> v |\<notin>| s \<longrightarrow> \<not> compatible gi (finsert v s))}"

lemma maximal_compatible_iff:
  "s \<in> maximal_compatible gi \<longleftrightarrow> compatible gi s \<and> (\<forall>t. compatible gi t \<longrightarrow> s |\<subseteq>| t \<longrightarrow> t = s)"
proof
  assume "s \<in> maximal_compatible gi"
  then have c: "compatible gi s"
    and m: "\<And>v. v |\<in>| fmdom gi \<Longrightarrow> v |\<notin>| s \<Longrightarrow> \<not> compatible gi (finsert v s)"
    by (auto simp: maximal_compatible_def)
  have "t = s" if t: "compatible gi t" "s |\<subseteq>| t" for t
  proof (rule ccontr)
    assume "t \<noteq> s"
    with t obtain v where v: "v |\<in>| t" "v |\<notin>| s" by auto
    moreover have "compatible gi (finsert v s)"
      using t v unfolding compatible_def by blast
    ultimately show False using m [of v] t by (auto simp: compatible_def)
  qed
  with c show "compatible gi s \<and> (\<forall>t. compatible gi t \<longrightarrow> s |\<subseteq>| t \<longrightarrow> t = s)" by blast
next
  assume *: "compatible gi s \<and> (\<forall>t. compatible gi t \<longrightarrow> s |\<subseteq>| t \<longrightarrow> t = s)"
  have False if "v |\<notin>| s" "compatible gi (finsert v s)" for v
    using * that by (metis finsertI1 fsubset_finsertI)
  with * show "s \<in> maximal_compatible gi" by (auto simp: maximal_compatible_def)
qed

lemma finite_maximal_compatible [simp]: "finite (maximal_compatible gi)"
proof (rule finite_subset)
  show "maximal_compatible gi \<subseteq> fset (fPow (fmdom gi))"
    by (auto simp: maximal_compatible_def compatible_def)
qed simp

lemma incomp_of_sym: "gi_wf gi \<Longrightarrow> v |\<in>| incomp_of gi u \<longleftrightarrow> u |\<in>| incomp_of gi v"
  by (auto simp: gi_wf_def)

lemma incomp_of_irrefl: "gi_wf gi \<Longrightarrow> u |\<notin>| incomp_of gi u"
  by (auto simp: gi_wf_def)

lemma incomp_of_dom: "gi_wf gi \<Longrightarrow> v |\<in>| incomp_of gi u \<Longrightarrow> v |\<in>| fmdom gi \<and> u |\<in>| fmdom gi"
  unfolding gi_wf_def by (metis incomp_of_def fmdomI fempty_iff not_Some_eq option.simps(4))

lemma compatible_finsert:
  assumes "gi_wf gi"
  shows "compatible gi (finsert v s) \<longleftrightarrow>
    v |\<in>| fmdom gi \<and> compatible gi s \<and> (\<forall>u. u |\<in>| s \<longrightarrow> u |\<notin>| incomp_of gi v)"
  using assms unfolding compatible_def by (auto simp: incomp_of_irrefl dest: incomp_of_sym)

lemma compatible_subset: "compatible gi t \<Longrightarrow> s |\<subseteq>| t \<Longrightarrow> compatible gi s"
  unfolding compatible_def by blast

text \<open>Every compatible set is part of a maximal one.\<close>

lemma extend_to_maximal:
  assumes "compatible gi s"
  obtains m where "m \<in> maximal_compatible gi" "s |\<subseteq>| m"
proof -
  define C where "C = {t. compatible gi t \<and> s |\<subseteq>| t}"
  have "C \<subseteq> fset (fPow (fmdom gi))" by (auto simp: C_def compatible_def)
  then have fin: "finite C" by (rule finite_subset) simp
  moreover have "s \<in> C" using assms by (simp add: C_def)
  ultimately obtain m where m: "m \<in> C" and max: "\<And>t. t \<in> C \<Longrightarrow> fcard t \<le> fcard m"
    using Max_in [of "fcard ` C"] Max_ge [of "fcard ` C"] by (metis empty_iff finite_imageI image_iff)
  have "t = m" if "compatible gi t" "m |\<subseteq>| t" for t
  proof -
    have "t \<in> C" using that m by (auto simp: C_def)
    then have "fcard t \<le> fcard m" by (rule max)
    with that show ?thesis by (metis fcard_seteq)
  qed
  with m that show thesis by (auto simp: C_def maximal_compatible_iff)
qed

section \<open>Correctness of the search\<close>

text \<open>
  A frame \<open>(r, p, x)\<close> stands for the maximal sets that contain \<open>r\<close> and are contained in
  \<open>r \<union> p\<close>; the blocks that can extend \<open>r\<close> are those of \<open>p\<close>, still to be tried, and those of
  \<open>x\<close>, tried already.
\<close>

fun frame_ok :: "incompatibilities \<Rightarrow> frame \<Rightarrow> bool" where
  "frame_ok gi (r, p, x) \<longleftrightarrow> compatible gi r \<and> p |\<inter>| x = {||} \<and>
     (\<forall>v. v |\<in>| p |\<union>| x \<longleftrightarrow> v |\<notin>| r \<and> compatible gi (finsert v r))"

fun frame_out :: "incompatibilities \<Rightarrow> frame \<Rightarrow> block_id fset set" where
  "frame_out gi (r, p, x) = {m \<in> maximal_compatible gi. r |\<subseteq>| m \<and> m |\<subseteq>| r |\<union>| p}"

definition frames_out :: "incompatibilities \<Rightarrow> frame list \<Rightarrow> block_id fset multiset" where
  "frames_out gi fs = (\<Sum>f\<leftarrow>fs. mset_set (frame_out gi f))"

lemma frames_out_simps [simp]:
  "frames_out gi [] = {#}"
  "frames_out gi (f # fs) = mset_set (frame_out gi f) + frames_out gi fs"
  by (simp_all add: frames_out_def)

lemma finite_frame_out [simp]: "finite (frame_out gi f)"
  by (cases f) simp

lemma frame_ok_candidate:
  assumes "gi_wf gi" "frame_ok gi (r, p, x)"
  shows "v |\<in>| p |\<union>| x \<longleftrightarrow> v |\<in>| fmdom gi \<and> v |\<notin>| r \<and> (\<forall>u. u |\<in>| r \<longrightarrow> u |\<notin>| incomp_of gi v)"
  using assms by (auto simp: compatible_finsert)

lemma closed_incomp_dom:
  assumes "u |\<in>| fmdom gi"
  shows "closed_incomp gi u = Inr (finsert u (incomp_of gi u))"
proof -
  obtain s where "fmlookup gi u = Some s" using assms by (meson fmlookup_dom_iff)
  then show ?thesis by (simp add: closed_incomp_def incomp_of_def)
qed

text \<open>Taking \<open>u\<close> out of \<open>p\<close> splits the sets of a frame into those with and those without \<open>u\<close>.\<close>

lemma frame_ok_child:
  assumes wf: "gi_wf gi" and ok: "frame_ok gi (r, p, x)" and u: "u |\<in>| p"
  defines "c \<equiv> finsert u (incomp_of gi u)"
  shows "frame_ok gi (finsert u r, (p |-| {|u|}) |-| c, x |-| c)"
    and "frame_ok gi (r, p |-| {|u|}, finsert u x)"
proof -
  note cand = frame_ok_candidate [OF wf ok]
  have cu: "compatible gi (finsert u r)" "u |\<notin>| r" using ok u by auto
  have "v |\<in>| ((p |-| {|u|}) |-| c) |\<union>| (x |-| c)
      \<longleftrightarrow> v |\<notin>| finsert u r \<and> compatible gi (finsert v (finsert u r))" for v
    using cu cand [of v] incomp_of_sym [OF wf, of v u]
    unfolding c_def compatible_finsert [OF wf, of v] by auto
  moreover have "((p |-| {|u|}) |-| c) |\<inter>| (x |-| c) = {||}" using ok by auto
  ultimately show "frame_ok gi (finsert u r, (p |-| {|u|}) |-| c, x |-| c)" using cu by simp
  have "(p |-| {|u|}) |\<union>| finsert u x = p |\<union>| x" using u by auto
  moreover have "(p |-| {|u|}) |\<inter>| finsert u x = {||}" using ok by auto
  ultimately show "frame_ok gi (r, p |-| {|u|}, finsert u x)" using ok by simp
qed

lemma frame_out_split:
  assumes wf: "gi_wf gi" and ok: "frame_ok gi (r, p, x)" and u: "u |\<in>| p"
  defines "c \<equiv> finsert u (incomp_of gi u)"
  shows "mset_set (frame_out gi (r, p, x)) =
    mset_set (frame_out gi (finsert u r, (p |-| {|u|}) |-| c, x |-| c))
      + mset_set (frame_out gi (r, p |-| {|u|}, finsert u x))" (is "_ = mset_set ?A + mset_set ?B")
proof -
  have ur: "u |\<notin>| r" using ok u by auto
  have "v |\<notin>| incomp_of gi u" if "m \<in> maximal_compatible gi" "u |\<in>| m" "v |\<in>| m" for m v
    using that by (auto simp: maximal_compatible_def compatible_def)
  then have "frame_out gi (r, p, x) = ?A \<union> ?B"
    using u ur by (auto simp: c_def)
  moreover have "?A \<inter> ?B = {}" using ur by auto
  ultimately show ?thesis by (metis finite_frame_out mset_set_Union)
qed

lemma expand_correct:
  assumes "gi_wf gi" "frame_ok gi (r, p, x)" "distinct us" "set us \<subseteq> fset p"
    "list_all (frame_ok gi) stack"
  shows "\<exists>stack'. expand gi r p x stack us = Inr stack' \<and> list_all (frame_ok gi) stack' \<and>
    frames_out gi stack' + mset_set (frame_out gi (r, p |-| fset_of_list us, x |\<union>| fset_of_list us))
      = frames_out gi stack + mset_set (frame_out gi (r, p, x))"
  using assms
proof (induction us arbitrary: p x stack)
  case Nil
  then show ?case by simp
next
  case (Cons u us)
  define c where "c = finsert u (incomp_of gi u)"
  define f where "f = (finsert u r, (p |-| {|u|}) |-| c, x |-| c)"
  have u: "u |\<in>| p" using Cons.prems by simp
  have "u |\<in>| fmdom gi"
    using u Cons.prems frame_ok_candidate [of gi r p x u] by auto
  then have c: "closed_incomp gi u = Inr c" by (simp add: closed_incomp_dom c_def)
  note kids = frame_ok_child [OF Cons.prems(1,2) u] frame_out_split [OF Cons.prems(1,2) u]
  have "set us \<subseteq> fset (p |-| {|u|})" using Cons.prems by auto
  then obtain stack' where st: "expand gi r (p |-| {|u|}) (finsert u x) (f # stack) us = Inr stack'"
    "list_all (frame_ok gi) stack'"
    "frames_out gi stack' + mset_set (frame_out gi
        (r, (p |-| {|u|}) |-| fset_of_list us, finsert u x |\<union>| fset_of_list us))
      = frames_out gi (f # stack) + mset_set (frame_out gi (r, p |-| {|u|}, finsert u x))"
    using Cons.IH [of "p |-| {|u|}" "finsert u x" "f # stack"] Cons.prems kids
    by (auto simp: f_def c_def)
  have sets: "(p |-| {|u|}) |-| fset_of_list us = p |-| fset_of_list (u # us)"
    "finsert u x |\<union>| fset_of_list us = x |\<union>| fset_of_list (u # us)" by auto
  show ?case
    using st kids(3) by (simp add: c f_def [symmetric] c_def [symmetric] sets del: frame_out.simps)
qed

text \<open>The pivot is a candidate, and a maximal set of the frame contains one of the expanded blocks.\<close>

lemma max_by_key_ok:
  assumes "\<And>u. u \<in> set us \<Longrightarrow> \<exists>k. key u = Inr k" "us \<noteq> [] \<or> best \<noteq> None"
  shows "\<exists>u k. max_by_key key best us = Inr (Some (u, k)) \<and> (u \<in> set us \<or> best = Some (u, k))"
  using assms
proof (induction us arbitrary: best)
  case Nil
  then show ?case by (cases best) auto
next
  case (Cons u us)
  obtain k where k: "key u = Inr k" using Cons.prems(1) [of u] by auto
  define best' where "best' = (case best of None \<Rightarrow> Some (u, k)
    | Some (b, kb) \<Rightarrow> if kb \<le> k then Some (u, k) else Some (b, kb))"
  have b': "best' = Some (u, k) \<or> best' = best \<and> best \<noteq> None"
    by (auto simp: best'_def split: option.splits)
  obtain v l where "max_by_key key best' us = Inr (Some (v, l))" "v \<in> set us \<or> best' = Some (v, l)"
    using Cons.IH [of best'] Cons.prems(1) b' by auto
  with k b' show ?case by (auto simp: best'_def [symmetric])
qed

lemma choose_pivot_ok:
  assumes "traverses ord" "p |\<union>| x \<noteq> {||}" "p |\<union>| x |\<subseteq>| fmdom gi"
  obtains u where "choose_pivot ord n gi p x = Inr u" "u |\<in>| p |\<union>| x"
proof -
  define key where "key = (\<lambda>u. rbind (closed_incomp gi u) (\<lambda>c. Inr (fcard (p |-| c)) :: clique_panic + nat))"
  have "ord (Pivot n) (p |\<union>| x) \<noteq> []"
    using assms(2) set_ord [OF assms(1), of "Pivot n" "p |\<union>| x"] by (metis bot_fset.rep_eq fset_inject list.set(1))
  moreover have "\<exists>k. key u = Inr k" if "u \<in> set (ord (Pivot n) (p |\<union>| x))" for u
    using that assms(1,3) closed_incomp_dom [of u gi] by (auto simp: key_def)
  ultimately obtain u k where "max_by_key key None (ord (Pivot n) (p |\<union>| x)) = Inr (Some (u, k))"
    "u \<in> set (ord (Pivot n) (p |\<union>| x))"
    using max_by_key_ok [of "ord (Pivot n) (p |\<union>| x)" key None] by auto
  then show thesis using that assms(1) by (auto simp: choose_pivot_def key_def)
qed

lemma frame_out_after_pivot:
  assumes wf: "gi_wf gi" and ok: "frame_ok gi (r, p, x)" and u: "u |\<in>| p |\<union>| x"
  defines "c \<equiv> finsert u (incomp_of gi u)"
  shows "frame_out gi (r, p |-| (p |\<inter>| c), y) = {}"
proof (rule ccontr)
  assume "frame_out gi (r, p |-| (p |\<inter>| c), y) \<noteq> {}"
  then obtain m where m: "m \<in> maximal_compatible gi" "r |\<subseteq>| m" "m |\<subseteq>| r |\<union>| (p |-| (p |\<inter>| c))" by auto
  have um: "u |\<notin>| m" using m(3) u ok by (auto simp: c_def)
  have "v |\<notin>| incomp_of gi u" if "v |\<in>| m" for v
    using that m(3) frame_ok_candidate [OF wf ok, of u] u by (auto simp: c_def)
  moreover have "u |\<in>| fmdom gi" using frame_ok_candidate [OF wf ok, of u] u by auto
  ultimately show False using m(1) um by (auto simp: maximal_compatible_def compatible_finsert [OF wf])
qed

lemma frame_out_leaf:
  assumes "frame_ok gi (r, {||}, {||})"
  shows "frame_out gi (r, {||}, {||}) = {r}"
proof -
  have "r \<in> maximal_compatible gi" using assms by (auto simp: maximal_compatible_def)
  then show ?thesis by auto
qed

text \<open>The search ends: a frame weighs \<open>2 ^ |p|\<close>, and expanding one makes the stack lighter.\<close>

definition weight :: "frame list \<Rightarrow> nat" where
  "weight fs = (\<Sum>(r, p, x)\<leftarrow>fs. 2 ^ fcard p)"

lemma weight_simps [simp]: "weight [] = 0" "weight ((r, p, x) # fs) = 2 ^ fcard p + weight fs"
  by (simp_all add: weight_def)

lemma expand_weight:
  assumes "expand gi r p x stack us = Inr stack'" "distinct us" "set us \<subseteq> fset p"
  shows "weight stack' + 2 ^ fcard (p |-| fset_of_list us) \<le> weight stack + 2 ^ fcard p"
  using assms
proof (induction us arbitrary: p x stack)
  case Nil
  then show ?case by simp
next
  case (Cons u us)
  obtain c where c: "expand gi r (p |-| {|u|}) (finsert u x)
      ((finsert u r, (p |-| {|u|}) |-| c, x |-| c) # stack) us = Inr stack'"
    using Cons.prems(1) by (auto simp: Let_def result_simps)
  have a: "weight stack' + 2 ^ fcard ((p |-| {|u|}) |-| fset_of_list us)
      \<le> 2 ^ fcard ((p |-| {|u|}) |-| c) + weight stack + 2 ^ fcard (p |-| {|u|})"
    using Cons.IH [OF c] Cons.prems by auto
  have b: "(2::nat) ^ fcard ((p |-| {|u|}) |-| c) \<le> 2 ^ fcard (p |-| {|u|})"
    by (intro power_increasing fcard_mono) auto
  have "fcard p = Suc (fcard (p |-| {|u|}))"
    using Cons.prems by (metis fcard_Suc_fminus1 insert_subset list.simps(15))
  then have d: "(2::nat) ^ fcard p = 2 * 2 ^ fcard (p |-| {|u|})" by simp
  have e: "(p |-| {|u|}) |-| fset_of_list us = p |-| fset_of_list (u # us)" by auto
  show ?case using a b unfolding d e by linarith
qed

lemma clique_step_ok:
  assumes "traverses ord" "gi_wf gi" "list_all (frame_ok gi) ((r, p, x) # stack)" "p |\<union>| x \<noteq> {||}"
  obtains stack' where "clique_step ord n gi (r, p, x) stack = Inr stack'"
    "list_all (frame_ok gi) stack'" "frames_out gi stack' = frames_out gi ((r, p, x) # stack)"
    "weight stack' < weight ((r, p, x) # stack)"
proof -
  have ok: "frame_ok gi (r, p, x)" using assms(3) by simp
  have dom: "p |\<union>| x |\<subseteq>| fmdom gi" using frame_ok_candidate [OF assms(2) ok] by auto
  obtain u where u: "choose_pivot ord n gi p x = Inr u" "u |\<in>| p |\<union>| x"
    using choose_pivot_ok [OF assms(1,4) dom] .
  define c where "c = finsert u (incomp_of gi u)"
  define us where "us = ord (Expand n) (p |\<inter>| c)"
  have c: "closed_incomp gi u = Inr c" using u dom by (auto simp: c_def intro!: closed_incomp_dom)
  have us: "distinct us" "set us = fset (p |\<inter>| c)" "set us \<subseteq> fset p" "fset_of_list us = p |\<inter>| c"
    using assms(1) by (auto simp: us_def fset_of_list.rep_eq fset_eq_iff)
  obtain stack' where e: "expand gi r p x stack us = Inr stack'" "list_all (frame_ok gi) stack'"
    "frames_out gi stack' + mset_set (frame_out gi (r, p |-| fset_of_list us, x |\<union>| fset_of_list us))
       = frames_out gi stack + mset_set (frame_out gi (r, p, x))"
    using expand_correct [OF assms(2) ok us(1,3), of stack] assms(3) by auto
  have "frame_out gi (r, p |-| fset_of_list us, x |\<union>| fset_of_list us) = {}"
    unfolding us(4) c_def by (rule frame_out_after_pivot [OF assms(2) ok u(2)])
  with e(3) have "frames_out gi stack' = frames_out gi ((r, p, x) # stack)"
    by (simp add: ac_simps del: frame_out.simps)
  moreover have "weight stack' < weight ((r, p, x) # stack)"
  proof -
    have "(1::nat) \<le> 2 ^ fcard (p |-| fset_of_list us)" by simp
    with expand_weight [OF e(1) us(1,3)] show ?thesis unfolding weight_simps by linarith
  qed
  ultimately show thesis
    using that e u c by (simp add: clique_step_def us_def)
qed

lemma cliques_loop_ok:
  assumes "traverses ord" "gi_wf gi" "list_all (frame_ok gi) stack"
  shows "\<exists>cs. cliques_loop ord n gi stack acc = Some (Inr cs) \<and> mset cs = mset acc + frames_out gi stack"
  using assms(3)
proof (induction "weight stack" arbitrary: stack acc n rule: less_induct)
  case less
  show ?case
  proof (cases stack)
    case Nil
    then show ?thesis by (simp add: cliques_loop.simps)
  next
    case (Cons f stack')
    obtain r p x where f: "f = (r, p, x)" by (cases f)
    show ?thesis
    proof (cases "p |\<union>| x = {||}")
      case True
      then have px: "p = {||}" "x = {||}" by auto
      obtain cs where "cliques_loop ord (Suc n) gi stack' (acc @ [r]) = Some (Inr cs)"
        "mset cs = mset (acc @ [r]) + frames_out gi stack'"
        using less.hyps [of stack' "Suc n" "acc @ [r]"] less.prems Cons f by auto
      moreover have "frame_out gi (r, p, x) = {r}"
        using less.prems Cons f frame_out_leaf [of gi r] by (simp add: px)
      ultimately show ?thesis
        using px by (simp add: cliques_loop.simps [of _ n] Cons f ac_simps del: frame_out.simps)
    next
      case False
      obtain stack'' where st: "clique_step ord n gi (r, p, x) stack' = Inr stack''"
        "list_all (frame_ok gi) stack''" "frames_out gi stack'' = frames_out gi stack" "weight stack'' < weight stack"
        using clique_step_ok [OF assms(1,2) _ False] less.prems Cons f by metis
      obtain cs where cs: "cliques_loop ord (Suc n) gi stack'' acc = Some (Inr cs)"
        "mset cs = mset acc + frames_out gi stack''"
        using less.hyps [OF st(4,2), of "Suc n" acc] by auto
      have "cliques_loop ord n gi stack acc = cliques_loop ord (Suc n) gi stack'' acc"
        using False st(1) by (subst cliques_loop.simps) (auto simp: Cons f)
      with cs st(3) show ?thesis by metis
    qed
  qed
qed

lemma compute_max_cliques_mset:
  assumes "traverses ord" "gi_wf gi"
  obtains cs where "compute_max_cliques ord gi = Some (Inr cs)" "mset cs = mset_set (maximal_compatible gi)"
proof -
  have "compatible gi {|v|} \<longleftrightarrow> v |\<in>| fmdom gi" for v
    by (auto simp: compatible_def incomp_of_irrefl [OF assms(2)])
  then have "frame_ok gi ({||}, fmdom gi, {||})" by (simp add: compatible_def)
  moreover have "frame_out gi ({||}, fmdom gi, {||}) = maximal_compatible gi"
    by (auto simp: maximal_compatible_def compatible_def)
  ultimately show thesis
    using that cliques_loop_ok [OF assms, of "[({||}, fmdom gi, {||})]" 0 "[]"]
    by (auto simp: compute_max_cliques_def simp del: frame_out.simps)
qed

lemma compute_max_cliques_ok:
  assumes "traverses ord" "gi_wf gi"
  obtains cs where "compute_max_cliques ord gi = Some (Inr cs)" "distinct cs" "set cs = maximal_compatible gi"
proof -
  obtain cs where cs: "compute_max_cliques ord gi = Some (Inr cs)" "mset cs = mset_set (maximal_compatible gi)"
    using compute_max_cliques_mset [OF assms] .
  have "set cs = maximal_compatible gi"
    using cs(2) by (metis finite_maximal_compatible finite_set_mset_mset_set set_mset_mset)
  moreover from this have "distinct cs" by (simp add: distinct_count_atmost_1 cs(2))
  ultimately show thesis using that cs(1) by blast
qed

text \<open>C7. For every incompatibility graph that is symmetric and irreflexive, and whatever the order in
  which the hash sets are traversed, \<open>compute_max_cliques\<close> returns, does not panic, and its result
  lists every maximal set of mutually compatible blocks exactly once and nothing else.
\<close>

theorem compute_max_cliques_exact:
  assumes "traverses ord" "gi_wf gi"
  shows "\<exists>cs. compute_max_cliques ord gi = Some (Inr cs) \<and> distinct cs \<and> set cs = maximal_compatible gi"
  using compute_max_cliques_ok [OF assms] by metis

theorem compute_max_cliques_exact_witness:
  "\<exists>cs. compute_max_cliques sorted_order
      (fmap_of_list [(BlockIdV0 1, {|BlockIdV0 2|}), (BlockIdV0 2, {|BlockIdV0 1|}), (BlockIdV0 3, {||})])
        = Some (Inr cs) \<and> distinct cs \<and>
      {|BlockIdV0 1, BlockIdV0 3|} \<in> set cs \<and> {|BlockIdV0 2, BlockIdV0 3|} \<in> set cs \<and>
      {|BlockIdV0 3|} \<notin> set cs"
proof -
  define gi where "gi = fmap_of_list
    [(BlockIdV0 1, {|BlockIdV0 2|}), (BlockIdV0 2, {|BlockIdV0 1|}), (BlockIdV0 3, {||})]"
  have inc: "incomp_of gi u = (if u = BlockIdV0 1 then {|BlockIdV0 2|}
      else if u = BlockIdV0 2 then {|BlockIdV0 1|} else {||})" for u
    by (simp add: gi_def incomp_of_def)
  have dom: "fmdom gi = {|BlockIdV0 1, BlockIdV0 2, BlockIdV0 3|}"
    by (auto simp: gi_def fset_of_list_elem)
  have "gi_wf gi" by (auto simp: gi_wf_def inc dom split: if_splits)
  then obtain cs where "compute_max_cliques sorted_order gi = Some (Inr cs)" "distinct cs"
    "set cs = maximal_compatible gi"
    using compute_max_cliques_exact [OF traverses_sorted_order] by blast
  moreover have "{|BlockIdV0 1, BlockIdV0 3|} \<in> maximal_compatible gi"
    "{|BlockIdV0 2, BlockIdV0 3|} \<in> maximal_compatible gi" "{|BlockIdV0 3|} \<notin> maximal_compatible gi"
    by (auto simp: maximal_compatible_def compatible_def inc dom)
  ultimately show ?thesis by (auto simp: gi_def)
qed

end
