(* ===== verification/Massa_Blocks_State.thy ===== *)
theory Massa_Blocks_State
  imports Massa_Cliques "HOL-Library.Product_Lexorder"
begin

text \<open>
  \<^verbatim>\<open>massa-consensus-worker/src/state/blocks_state.rs\<close> and
  \<^verbatim>\<open>massa-consensus-exports/src/block_status.rs\<close>: the status of every block the node knows, the
  indexes of the blocks by status, and \<open>transition_map\<close>, the one operation that changes a status.
  The panics of the source are constructors of \<open>consensus_panic\<close>; \<open>+= 1\<close> on \<open>u64\<close> wraps, as
  in a release build.  The handle on the shared block storage is the type parameter \<open>'st\<close>.
\<close>

section \<open>Blocks and their status\<close>

record header_endorsement =
  endorser_address :: address
  endorsement_index :: u32

record secured_header =
  header_id :: block_id
  content_creator_address :: address
  header_slot :: slot
  header_parents :: "block_id list"
  header_endorsements :: "header_endorsement list"

record active_block =
  creator_address :: address
  active_id :: block_id
  parents :: "(block_id \<times> u64) list"
  children :: "(block_id, u64) fmap list"
  descendants :: "block_id fset"
  is_final :: bool
  active_slot :: slot
  fitness :: u64
  same_thread_parent_creator :: "address option"

datatype 'st header_or_block = HeaderOf secured_header | BlockOf block_id slot 'st

fun get_slot :: "'st header_or_block \<Rightarrow> slot" where
  "get_slot (HeaderOf header) = header_slot header"
| "get_slot (BlockOf bid slot storage) = slot"

datatype discard_reason = InvalidBlock string | StaleBlock | FinalBlock

datatype 'st storage_or_block = FullStorage 'st | StrippedBlock secured_header "bytes list"

datatype 'st block_status =
    Incoming "'st header_or_block"
  | WaitingForSlot "'st header_or_block"
  | WaitingForDependencies "'st header_or_block" "block_id fset" u64
  | Active active_block "'st storage_or_block"
  | Discarded slot address "block_id list" discard_reason u64

datatype block_status_id =
  ID_Incoming | ID_WaitingForSlot | ID_WaitingForDependencies | ID_Active | ID_Discarded

fun status_id :: "'st block_status \<Rightarrow> block_status_id" where
  "status_id (Incoming hob) = ID_Incoming"
| "status_id (WaitingForSlot hob) = ID_WaitingForSlot"
| "status_id (WaitingForDependencies hob deps seq) = ID_WaitingForDependencies"
| "status_id (Active ab sob) = ID_Active"
| "status_id (Discarded slot creator ps reason seq) = ID_Discarded"

section \<open>Errors and panics\<close>

datatype consensus_panic =
    InvalidTransition "block_status_id option" block_status_id block_id
  | StatusInconsistency block_id
  | RemovedFinal block_id
  | IndexOutOfRange
  | NoClique
  | CliquePanic clique_panic
  | SlotArithmetic

datatype consensus_error =
    ContainerInconsistency block_id
  | MissingBlock block_id
  | FitnessOverflow
  | SerializationFailed
  | ConsensusModelsError models_error
  | ConsensusPanic consensus_panic

text \<open>A \<open>for\<close> loop whose body may fail, and the indexing of a \<open>Vec\<close>.\<close>

fun for_each :: "('a \<Rightarrow> 's \<Rightarrow> 'e + 's) \<Rightarrow> 'a list \<Rightarrow> 's \<Rightarrow> 'e + 's" where
  "for_each f [] s = Inr s"
| "for_each f (x # xs) s = rbind (f x s) (for_each f xs)"

definition vec_get :: "'a list \<Rightarrow> nat \<Rightarrow> consensus_error + 'a" where
  "vec_get xs i = (if i < length xs then Inr (xs ! i) else Inl (ConsensusPanic IndexOutOfRange))"

definition vec_modify :: "nat \<Rightarrow> ('a \<Rightarrow> 'a) \<Rightarrow> 'a list \<Rightarrow> consensus_error + 'a list" where
  "vec_modify i f xs = (if i < length xs then Inr (xs[i := f (xs ! i)]) else Inl (ConsensusPanic IndexOutOfRange))"

lemma for_each_inv:
  assumes step: "\<And>x rest s. P (x # rest) s \<Longrightarrow> \<exists>s'. f x s = Inr s' \<and> P rest s'"
    and "P xs s"
  shows "\<exists>s'. for_each f xs s = Inr s' \<and> P [] s'"
  using assms(2)
proof (induction xs arbitrary: s)
  case (Cons x xs)
  obtain s' where "f x s = Inr s'" "P xs s'" using step [OF Cons.prems] by blast
  then show ?case using Cons.IH by simp
qed simp

section \<open>The blocks state\<close>

type_synonym 'st statuses = "(block_id, 'st block_status) fmap"

record 'st blocks_state =
  block_statuses :: "'st statuses"
  incoming_index :: "block_id fset"
  sequence_counter :: u64
  waiting_for_slot_index :: "block_id fset"
  waiting_for_dependencies_index :: "block_id fset"
  discarded_index :: "block_id fset"
  active_index :: "block_id fset"

definition blocks_state_new :: "'st blocks_state" where
  "blocks_state_new =
     \<lparr> block_statuses = fmempty, incoming_index = {||}, sequence_counter = 0, waiting_for_slot_index = {||},
       waiting_for_dependencies_index = {||}, discarded_index = {||}, active_index = {||} \<rparr>"

definition get_status :: "'st blocks_state \<Rightarrow> block_id \<Rightarrow> 'st block_status option" where
  "get_status bs b = fmlookup (block_statuses bs) b"

fun index_update ::
    "(block_id fset \<Rightarrow> block_id fset) \<Rightarrow> block_status_id \<Rightarrow> 'st blocks_state \<Rightarrow> 'st blocks_state" where
  "index_update f ID_Incoming bs = bs\<lparr>incoming_index := f (incoming_index bs)\<rparr>"
| "index_update f ID_WaitingForSlot bs = bs\<lparr>waiting_for_slot_index := f (waiting_for_slot_index bs)\<rparr>"
| "index_update f ID_WaitingForDependencies bs =
     bs\<lparr>waiting_for_dependencies_index := f (waiting_for_dependencies_index bs)\<rparr>"
| "index_update f ID_Discarded bs = bs\<lparr>discarded_index := f (discarded_index bs)\<rparr>"
| "index_update f ID_Active bs = bs\<lparr>active_index := f (active_index bs)\<rparr>"

definition update_indexes ::
    "block_id \<Rightarrow> block_status_id option \<Rightarrow> block_status_id option \<Rightarrow> 'st blocks_state \<Rightarrow> 'st blocks_state" where
  "update_indexes b old_status new_status bs =
     (let bs = (case old_status of None \<Rightarrow> bs | Some i \<Rightarrow> index_update (\<lambda>s. s |-| {|b|}) i bs)
      in case new_status of None \<Rightarrow> bs | Some i \<Rightarrow> index_update (finsert b) i bs)"

text \<open>
  \<open>promote_dep_tree\<close>: the waiting blocks that the block depends on are explored, then numbered anew
  in the order of their slots.  The head of the list is the top of the stack \<open>to_explore\<close>.
\<close>

function promote_explore ::
    "hash_order \<Rightarrow> 'st statuses \<Rightarrow> block_id list \<Rightarrow> (block_id, slot \<times> u64) fmap \<Rightarrow> (block_id, slot \<times> u64) fmap" where
  "promote_explore ord sts [] to_promote = to_promote"
| "promote_explore ord sts (h # to_explore) to_promote =
     (if h |\<in>| fmdom to_promote then promote_explore ord sts to_explore to_promote
      else case fmlookup sts h of
        Some (WaitingForDependencies hob deps seq) \<Rightarrow>
          promote_explore ord sts (rev (ord (Promote h) deps) @ to_explore)
            (fmupd h (get_slot hob, seq) to_promote)
      | _ \<Rightarrow> promote_explore ord sts to_explore to_promote)"
  by pat_completeness auto

lemma fcard_unseen_less:
  assumes "fmlookup m h = Some v" "h |\<notin>| s"
  shows "fcard (fmdom m |-| finsert h s) < fcard (fmdom m |-| s)"
proof -
  have "h |\<in>| fmdom m" using assms(1) by (meson fmdomI)
  then have "fmdom m |-| finsert h s |\<subset>| fmdom m |-| s" using assms(2) by auto
  then show ?thesis by (rule pfsubset_fcard_mono)
qed

termination promote_explore
  by (relation "measures [\<lambda>(ord, sts, hs, m). fcard (fmdom sts |-| fmdom m), \<lambda>(ord, sts, hs, m). length hs]")
    (auto intro: fcard_unseen_less)

fun promote_number :: "(slot \<times> u64 \<times> block_id) list \<Rightarrow> 'st blocks_state \<Rightarrow> 'st blocks_state" where
  "promote_number [] bs = bs"
| "promote_number ((slot, seq, h) # to_promote) bs =
     promote_number to_promote
       (case fmlookup (block_statuses bs) h of
          Some (WaitingForDependencies hob deps old_seq) \<Rightarrow>
            (let n = sequence_counter bs + 1
             in bs\<lparr>sequence_counter := n,
                   block_statuses := fmupd h (WaitingForDependencies hob deps n) (block_statuses bs)\<rparr>)
        | _ \<Rightarrow> bs)"

definition promote_dep_tree :: "hash_order \<Rightarrow> block_id \<Rightarrow> 'st blocks_state \<Rightarrow> 'st blocks_state" where
  "promote_dep_tree ord b bs =
     (let to_promote = promote_explore ord (block_statuses bs) [b] fmempty
      in promote_number (sort (map (\<lambda>(h, slot, seq). (slot, seq, h)) (fm_entries to_promote))) bs)"

section \<open>Transitions\<close>

fun with_sequence_number :: "u64 \<Rightarrow> 'st block_status \<Rightarrow> 'st block_status" where
  "with_sequence_number n (WaitingForDependencies hob deps seq) = WaitingForDependencies hob deps n"
| "with_sequence_number n (Discarded slot creator ps reason seq) = Discarded slot creator ps reason n"
| "with_sequence_number n s = s"

definition insert_status :: "block_id \<Rightarrow> 'st block_status \<Rightarrow> 'st blocks_state \<Rightarrow> 'st blocks_state" where
  "insert_status b s bs = bs\<lparr>block_statuses := fmupd b s (block_statuses bs)\<rparr>"

definition insert_numbered :: "block_id \<Rightarrow> 'st block_status \<Rightarrow> 'st blocks_state \<Rightarrow> 'st blocks_state" where
  "insert_numbered b s bs =
     (let n = sequence_counter bs + 1
      in insert_status b (with_sequence_number n s) (bs\<lparr>sequence_counter := n\<rparr>))"

text \<open>The table of the transitions between two statuses.\<close>

fun transition_insert ::
    "hash_order \<Rightarrow> block_id \<Rightarrow> block_status_id \<Rightarrow> 'st block_status \<Rightarrow> 'st blocks_state
      \<Rightarrow> consensus_error + 'st blocks_state" where
  "transition_insert ord b ID_Incoming s bs =
     (case status_id s of
        ID_WaitingForDependencies \<Rightarrow> Inr (promote_dep_tree ord b (insert_numbered b s bs))
      | ID_Discarded \<Rightarrow> Inr (insert_numbered b s bs)
      | _ \<Rightarrow> Inr (insert_status b s bs))"
| "transition_insert ord b ID_WaitingForSlot s bs =
     (case status_id s of
        ID_Incoming \<Rightarrow> Inr (insert_status b s bs)
      | ID_Discarded \<Rightarrow> Inr (insert_numbered b s bs)
      | ID_WaitingForSlot \<Rightarrow> Inr (insert_status b s bs)
      | i \<Rightarrow> Inl (ConsensusPanic (InvalidTransition (Some ID_WaitingForSlot) i b)))"
| "transition_insert ord b ID_WaitingForDependencies s bs =
     (case status_id s of
        ID_Incoming \<Rightarrow> Inr (insert_status b s bs)
      | ID_Discarded \<Rightarrow> Inr (insert_numbered b s bs)
      | ID_WaitingForDependencies \<Rightarrow> Inr (promote_dep_tree ord b (insert_status b s bs))
      | i \<Rightarrow> Inl (ConsensusPanic (InvalidTransition (Some ID_WaitingForDependencies) i b)))"
| "transition_insert ord b ID_Active s bs =
     (case status_id s of
        ID_Discarded \<Rightarrow> Inr (insert_numbered b s bs)
      | ID_Active \<Rightarrow> Inr (insert_status b s bs)
      | i \<Rightarrow> Inl (ConsensusPanic (InvalidTransition (Some ID_Active) i b)))"
| "transition_insert ord b ID_Discarded s bs =
     (case status_id s of
        ID_Discarded \<Rightarrow> Inr (insert_numbered b s bs)
      | i \<Rightarrow> Inl (ConsensusPanic (InvalidTransition (Some ID_Discarded) i b)))"

text \<open>
  The callback reads the old status and the other statuses, and returns the new status, the other
  statuses, and what else it changes (\<open>'r\<close>).
\<close>

definition transition_map ::
    "hash_order \<Rightarrow> block_id
      \<Rightarrow> ('st block_status option \<Rightarrow> 'st statuses \<Rightarrow> consensus_error + 'r \<times> 'st block_status option \<times> 'st statuses)
      \<Rightarrow> 'st blocks_state \<Rightarrow> consensus_error + 'r \<times> 'st blocks_state" where
  "transition_map ord b callback bs =
     (case fmlookup (block_statuses bs) b of
        Some block \<Rightarrow>
          let old_id = status_id block;
              bs1 = update_indexes b (Some old_id) None (bs\<lparr>block_statuses := fmdrop b (block_statuses bs)\<rparr>)
          in rbind (callback (Some block) (block_statuses bs1)) (\<lambda>(r, new_state, sts).
               let bs2 = bs1\<lparr>block_statuses := sts\<rparr>
               in case new_state of
                    None \<Rightarrow> Inr (r, bs2)
                  | Some s \<Rightarrow> rbind (transition_insert ord b old_id s bs2) (\<lambda>bs3.
                      Inr (r, update_indexes b None (Some (status_id s)) bs3)))
      | None \<Rightarrow>
          rbind (callback None (block_statuses bs)) (\<lambda>(r, new_state, sts).
            let bs1 = bs\<lparr>block_statuses := sts\<rparr>
            in case new_state of
                 None \<Rightarrow> Inr (r, bs1)
               | Some s \<Rightarrow>
                   if status_id s \<noteq> ID_Incoming \<and> status_id s \<noteq> ID_Active
                   then Inl (ConsensusPanic (InvalidTransition None (status_id s) b))
                   else Inr (r, update_indexes b None (Some (status_id s)) (insert_status b s bs1))))"

section \<open>The indexes list the blocks by status\<close>

definition status_at :: "'st blocks_state \<Rightarrow> block_id \<Rightarrow> block_status_id option" where
  "status_at bs b = map_option status_id (fmlookup (block_statuses bs) b)"

fun index_of :: "'st blocks_state \<Rightarrow> block_status_id \<Rightarrow> block_id fset" where
  "index_of bs ID_Incoming = incoming_index bs"
| "index_of bs ID_WaitingForSlot = waiting_for_slot_index bs"
| "index_of bs ID_WaitingForDependencies = waiting_for_dependencies_index bs"
| "index_of bs ID_Discarded = discarded_index bs"
| "index_of bs ID_Active = active_index bs"

definition indexes_ok :: "'st blocks_state \<Rightarrow> bool" where
  "indexes_ok bs \<longleftrightarrow> (\<forall>b i. b |\<in>| index_of bs i \<longleftrightarrow> status_at bs b = Some i)"

lemma index_of_index_update [simp]:
  "index_of (index_update f i bs) j = (if i = j then f (index_of bs j) else index_of bs j)"
  by (cases i; cases j) simp_all

lemma index_update_simps [simp]:
  "block_statuses (index_update f i bs) = block_statuses bs"
  "sequence_counter (index_update f i bs) = sequence_counter bs"
  by (cases i; simp)+

lemma update_indexes_simps [simp]:
  "block_statuses (update_indexes b i j bs) = block_statuses bs"
  "sequence_counter (update_indexes b i j bs) = sequence_counter bs"
  by (simp_all add: update_indexes_def split: option.splits)

lemma index_of_statuses_update [simp]:
  "index_of (bs\<lparr>block_statuses := sts\<rparr>) i = index_of bs i"
  "index_of (bs\<lparr>sequence_counter := n\<rparr>) i = index_of bs i"
  by (cases i; simp)+

lemma index_of_update_indexes:
  "index_of (update_indexes b old new bs) i =
     (let s = (if old = Some i then index_of bs i |-| {|b|} else index_of bs i)
      in if new = Some i then finsert b s else s)"
  by (auto simp: update_indexes_def Let_def split: option.splits)

text \<open>Renumbering the waiting blocks keeps every status but the sequence numbers of waiting blocks.\<close>

definition same_but_waiting :: "'st statuses \<Rightarrow> 'st statuses \<Rightarrow> bool" where
  "same_but_waiting m m' \<longleftrightarrow> (\<forall>b. fmlookup m' b = fmlookup m b \<or>
     (\<exists>hob deps n n'. fmlookup m b = Some (WaitingForDependencies hob deps n) \<and>
        fmlookup m' b = Some (WaitingForDependencies hob deps n')))"

lemma same_but_waiting_refl [simp]: "same_but_waiting m m"
  by (simp add: same_but_waiting_def)

lemma same_but_waiting_trans:
  assumes "same_but_waiting l m" "same_but_waiting m n"
  shows "same_but_waiting l n"
  unfolding same_but_waiting_def
proof
  fix b
  show "fmlookup n b = fmlookup l b \<or> (\<exists>hob deps k k'. fmlookup l b = Some (WaitingForDependencies hob deps k) \<and>
        fmlookup n b = Some (WaitingForDependencies hob deps k'))"
    using assms [unfolded same_but_waiting_def, THEN spec, of b] by (metis block_status.inject(3) option.inject)
qed

lemma promote_number_ok:
  "same_but_waiting (block_statuses bs) (block_statuses (promote_number ps bs))
     \<and> index_of (promote_number ps bs) = index_of bs"
proof (induction ps bs rule: promote_number.induct)
  case (1 bs)
  then show ?case by simp
next
  case (2 slot seq h ps bs)
  define bs' where "bs' = (case fmlookup (block_statuses bs) h of
      Some (WaitingForDependencies hob deps old_seq) \<Rightarrow>
        (let n = sequence_counter bs + 1
         in bs\<lparr>sequence_counter := n,
               block_statuses := fmupd h (WaitingForDependencies hob deps n) (block_statuses bs)\<rparr>)
    | _ \<Rightarrow> bs)"
  have "same_but_waiting (block_statuses bs) (block_statuses bs')"
    by (auto simp: bs'_def same_but_waiting_def Let_def split: option.splits block_status.splits)
  moreover have "index_of bs' = index_of bs"
    by (auto simp: bs'_def Let_def fun_eq_iff split: option.splits block_status.splits)
  ultimately show ?case
    using 2 same_but_waiting_trans unfolding promote_number.simps bs'_def [symmetric] by metis
qed

lemma promote_dep_tree_ok:
  "same_but_waiting (block_statuses bs) (block_statuses (promote_dep_tree ord b bs))"
  "index_of (promote_dep_tree ord b bs) = index_of bs"
  unfolding promote_dep_tree_def Let_def using promote_number_ok by blast+

lemma status_id_with_sequence_number [simp]: "status_id (with_sequence_number n s) = status_id s"
  by (cases s) simp_all

lemma insert_status_simps [simp]:
  "block_statuses (insert_status b s bs) = fmupd b s (block_statuses bs)"
  "index_of (insert_status b s bs) i = index_of bs i"
  by (simp_all add: insert_status_def)

lemma insert_numbered_simps [simp]:
  "block_statuses (insert_numbered b s bs) = fmupd b (with_sequence_number (sequence_counter bs + 1) s) (block_statuses bs)"
  "index_of (insert_numbered b s bs) i = index_of bs i"
  by (simp_all add: insert_numbered_def Let_def)

lemma same_but_waiting_status_id:
  "same_but_waiting m m' \<Longrightarrow> map_option status_id (fmlookup m' b) = map_option status_id (fmlookup m b)"
  unfolding same_but_waiting_def by (erule allE [of _ b]) auto

lemma transition_insert_cases:
  assumes "transition_insert ord b i s bs = Inr bs'"
  shows "bs' \<in> {insert_status b s bs, insert_numbered b s bs,
    promote_dep_tree ord b (insert_status b s bs), promote_dep_tree ord b (insert_numbered b s bs)}"
  using assms by (cases i; cases s) auto

lemma transition_insert_ok:
  assumes "transition_insert ord b i s bs = Inr bs'"
  shows "same_but_waiting (fmupd b (with_sequence_number (sequence_counter bs + 1) s) (block_statuses bs)) (block_statuses bs')
      \<or> same_but_waiting (fmupd b s (block_statuses bs)) (block_statuses bs')"
    and "index_of bs' = index_of bs"
proof -
  have ix: "index_of (insert_status b s bs) = index_of bs" "index_of (insert_numbered b s bs) = index_of bs"
    by (simp_all add: fun_eq_iff)
  note simps = insert_status_simps(1) insert_numbered_simps(1)
  show "same_but_waiting (fmupd b (with_sequence_number (sequence_counter bs + 1) s) (block_statuses bs)) (block_statuses bs')
      \<or> same_but_waiting (fmupd b s (block_statuses bs)) (block_statuses bs')"
    using transition_insert_cases [OF assms]
      promote_dep_tree_ok(1) [of "insert_status b s bs", unfolded simps]
      promote_dep_tree_ok(1) [of "insert_numbered b s bs", unfolded simps]
    by (elim insertE) (simp_all)
  show "index_of bs' = index_of bs"
    using transition_insert_cases [OF assms] by (auto simp: ix promote_dep_tree_ok(2))
qed

lemma transition_insert_statuses:
  assumes "transition_insert ord b i s bs = Inr bs'"
  shows "status_at bs' c = (if c = b then Some (status_id s) else status_at bs c)"
    and "index_of bs' = index_of bs"
proof -
  define n where "n = sequence_counter bs + 1"
  from transition_insert_ok(1) [OF assms, folded n_def] have "map_option status_id (fmlookup (block_statuses bs') c) =
      map_option status_id (fmlookup (fmupd b (with_sequence_number n s) (block_statuses bs)) c)
    \<or> map_option status_id (fmlookup (block_statuses bs') c) =
      map_option status_id (fmlookup (fmupd b s (block_statuses bs)) c)"
    using same_but_waiting_status_id by blast
  then show "status_at bs' c = (if c = b then Some (status_id s) else status_at bs c)"
    by (auto simp: status_at_def)
  show "index_of bs' = index_of bs" by (rule transition_insert_ok(2) [OF assms])
qed

lemma indexes_ok_without:
  assumes "indexes_ok bs" "fmlookup (block_statuses bs) b = Some s"
  shows "indexes_ok (update_indexes b (Some (status_id s)) None (bs\<lparr>block_statuses := fmdrop b (block_statuses bs)\<rparr>))"
  using assms by (auto simp: indexes_ok_def status_at_def index_of_update_indexes Let_def)

lemma indexes_ok_same_ids:
  assumes "indexes_ok bs" "\<And>c. map_option status_id (fmlookup sts c) = status_at bs c"
  shows "indexes_ok (bs\<lparr>block_statuses := sts\<rparr>)"
  using assms by (simp add: indexes_ok_def status_at_def)

lemma indexes_ok_insert:
  assumes "indexes_ok bs" "status_at bs b = None" "index_of bs' = index_of bs"
    "\<And>c. status_at bs' c = (if c = b then Some i else status_at bs c)"
  shows "indexes_ok (update_indexes b None (Some i) bs')"
proof -
  have "status_at (update_indexes b None (Some i) bs') c = status_at bs' c" for c
    by (simp add: status_at_def)
  then show ?thesis using assms by (auto simp: indexes_ok_def index_of_update_indexes Let_def)
qed

lemma transition_map_indexes:
  assumes ok: "indexes_ok bs" and tm: "transition_map ord b callback bs = Inr (r, bs')"
    and cb: "\<And>s m r' s' m' c. callback s m = Inr (r', s', m') \<Longrightarrow>
      map_option status_id (fmlookup m' c) = map_option status_id (fmlookup m c)"
  shows "indexes_ok bs'"
proof (cases "fmlookup (block_statuses bs) b")
  case None
  then obtain r' s' m' where c': "callback None (block_statuses bs) = Inr (r', s', m')"
    using tm by (auto simp: transition_map_def result_simps)
  have c: "callback None (block_statuses bs) = Inr (r, s', m')"
    and bs': "s' = None \<and> bs' = bs\<lparr>block_statuses := m'\<rparr> \<or> (\<exists>s. s' = Some s \<and>
        bs' = update_indexes b None (Some (status_id s)) (insert_status b s (bs\<lparr>block_statuses := m'\<rparr>)))"
    using tm None c' by (cases s'; auto simp: transition_map_def Let_def split: if_splits)+
  have ids: "\<And>c. map_option status_id (fmlookup m' c) = status_at bs c"
    using cb [OF c] by (simp add: status_at_def)
  have ok1: "indexes_ok (bs\<lparr>block_statuses := m'\<rparr>)" by (rule indexes_ok_same_ids [OF ok ids])
  have none: "status_at (bs\<lparr>block_statuses := m'\<rparr>) b = None"
    using ids [of b] None by (simp add: status_at_def)
  show ?thesis
    using bs' by (auto simp: ok1 status_at_def fun_eq_iff intro!: indexes_ok_insert [OF ok1 none])
next
  case (Some s)
  define bs1 where "bs1 = update_indexes b (Some (status_id s)) None (bs\<lparr>block_statuses := fmdrop b (block_statuses bs)\<rparr>)"
  have ok1: "indexes_ok bs1" unfolding bs1_def by (rule indexes_ok_without [OF ok Some])
  obtain r' s' m' where c': "callback (Some s) (block_statuses bs1) = Inr (r', s', m')"
    using tm Some by (auto simp: transition_map_def result_simps bs1_def Let_def)
  have c: "callback (Some s) (block_statuses bs1) = Inr (r, s', m')"
    and rest: "s' = None \<and> bs' = bs1\<lparr>block_statuses := m'\<rparr> \<or> (\<exists>t bs3. s' = Some t \<and>
      transition_insert ord b (status_id s) t (bs1\<lparr>block_statuses := m'\<rparr>) = Inr bs3 \<and>
      bs' = update_indexes b None (Some (status_id t)) bs3)"
    using tm Some c'
    by (cases s'; auto simp: transition_map_def bs1_def result_simps Let_def)+
  have ids: "\<And>c. map_option status_id (fmlookup m' c) = status_at bs1 c"
    using cb [OF c] by (simp add: status_at_def)
  have ok2: "indexes_ok (bs1\<lparr>block_statuses := m'\<rparr>)" by (rule indexes_ok_same_ids [OF ok1 ids])
  have none: "status_at (bs1\<lparr>block_statuses := m'\<rparr>) b = None"
    using ids [of b] by (simp add: status_at_def bs1_def)
  from rest show ?thesis
  proof (elim disjE exE conjE)
    assume "bs' = bs1\<lparr>block_statuses := m'\<rparr>"
    with ok2 show ?thesis by simp
  next
    fix t bs3
    assume ti: "transition_insert ord b (status_id s) t (bs1\<lparr>block_statuses := m'\<rparr>) = Inr bs3"
      and "bs' = update_indexes b None (Some (status_id t)) bs3"
    with indexes_ok_insert [OF ok2 none transition_insert_statuses(2) [OF ti] transition_insert_statuses(1) [OF ti]]
    show ?thesis by simp
  qed
qed

lemma indexes_ok_new: "indexes_ok (blocks_state_new :: 'st blocks_state)"
proof -
  have "index_of (blocks_state_new :: 'st blocks_state) i = {||}" for i
    by (cases i) (simp_all add: blocks_state_new_def)
  moreover have "block_statuses (blocks_state_new :: 'st blocks_state) = fmempty" by (simp add: blocks_state_new_def)
  ultimately show ?thesis by (simp add: indexes_ok_def status_at_def)
qed

end
