(* ===== verification/Massa_Block_Graph.thy ===== *)
theory Massa_Block_Graph
  imports Massa_Blocks_State Massa_Timeslots
begin

text \<open>
  \<^verbatim>\<open>massa-consensus-worker/src/state/graph.rs\<close> and \<open>add_block_to_graph\<close> of \<^verbatim>\<open>process.rs\<close>: the
  block graph.  Adding a block links it to its ancestors, updates the incompatibility graph and the
  cliques, elects the blockclique, discards the blocks that no good clique contains, and makes final
  those that every clique contains and that have enough descendants.
\<close>

section \<open>State\<close>

record clique =
  block_ids :: "block_id fset"
  clique_fitness :: u64
  is_blockclique :: bool

definition clique_default :: clique where
  "clique_default = \<lparr> block_ids = {||}, clique_fitness = 0, is_blockclique = True \<rparr>"

record consensus_config =
  cfg_thread_count :: u8
  cfg_t0 :: massa_time
  cfg_genesis_timestamp :: massa_time
  cfg_delta_f0 :: u64
  cfg_last_start_period :: u64

record 'st consensus_state =
  config :: consensus_config
  genesis_hashes :: "block_id list"
  gi_head :: incompatibilities
  max_cliques :: "clique list"
  latest_final_blocks_periods :: "(block_id \<times> u64) list"
  blocks_state :: "'st blocks_state"
  best_parents :: "(block_id \<times> u64) list"
  new_final_blocks :: "block_id fset"
  new_stale_blocks :: "(block_id, address \<times> slot) fmap"

abbreviation statuses :: "'st consensus_state \<Rightarrow> 'st statuses" where
  "statuses st \<equiv> block_statuses (blocks_state st)"

definition update_statuses :: "('st statuses \<Rightarrow> 'st statuses) \<Rightarrow> 'st consensus_state \<Rightarrow> 'st consensus_state" where
  "update_statuses f st = st\<lparr>blocks_state := (blocks_state st)\<lparr>block_statuses := f (statuses st)\<rparr>\<rparr>"

text \<open>\<open>get\<close> and \<open>get_mut\<close> of a block that is expected to be active.\<close>

definition active_at :: "'st statuses \<Rightarrow> block_id \<Rightarrow> active_block option" where
  "active_at sts b = (case fmlookup sts b of Some (Active ab sob) \<Rightarrow> Some ab | _ \<Rightarrow> None)"

definition modify_active :: "(active_block \<Rightarrow> active_block) \<Rightarrow> block_id \<Rightarrow> 'st statuses \<Rightarrow> 'st statuses" where
  "modify_active f b sts =
     (case fmlookup sts b of Some (Active ab sob) \<Rightarrow> fmupd b (Active (f ab) sob) sts | _ \<Rightarrow> sts)"

section \<open>Linking a block to its ancestors\<close>

definition modify_children ::
    "u8 \<Rightarrow> ((block_id, u64) fmap \<Rightarrow> (block_id, u64) fmap) \<Rightarrow> block_id \<Rightarrow> 'st statuses
      \<Rightarrow> consensus_error + 'st statuses" where
  "modify_children th f parent_h sts =
     (case active_at sts parent_h of
        Some a_parent \<Rightarrow>
          rbind (vec_modify (unat th) f (children a_parent)) (\<lambda>cs.
            Inr (modify_active (\<lambda>a. a\<lparr>children := cs\<rparr>) parent_h sts))
      | None \<Rightarrow> Inr sts)"

text \<open>The head of the list is the back of the deque.\<close>

function insert_descendant :: "block_id \<Rightarrow> block_id list \<Rightarrow> block_id fset \<Rightarrow> 'st statuses \<Rightarrow> 'st statuses" where
  "insert_descendant b [] visited sts = sts"
| "insert_descendant b (h # ancestors) visited sts =
     (if h |\<in>| visited then insert_descendant b ancestors visited sts
      else case active_at sts h of
        Some ab \<Rightarrow>
          if is_final ab then insert_descendant b ancestors (finsert h visited) sts
          else insert_descendant b (ancestors @ map fst (parents ab)) (finsert h visited)
                 (modify_active (\<lambda>a. a\<lparr>descendants := finsert b (descendants a)\<rparr>) h sts)
      | None \<Rightarrow> insert_descendant b ancestors (finsert h visited) sts)"
  by pat_completeness auto

lemma active_at_dom: "active_at sts b = Some ab \<Longrightarrow> b |\<in>| fmdom sts"
  by (auto simp: active_at_def intro: fmdomI split: option.splits)

lemma fmdom_modify_active [simp]: "fmdom (modify_active f b sts) = fmdom sts"
  by (auto simp: modify_active_def intro: fmdomI split: option.splits block_status.splits)

termination insert_descendant
proof (relation "measures [\<lambda>(b, hs, visited, sts). fcard (fmdom sts |-| visited), \<lambda>(b, hs, visited, sts). length hs]")
  fix b :: block_id and h ancestors visited and sts :: "'st statuses" and ab
  assume new: "h |\<notin>| visited" "active_at sts h = Some ab"
  then obtain s where "fmlookup sts h = Some s" by (auto simp: active_at_def split: option.splits)
  then have less: "fcard (fmdom sts |-| finsert h visited) < fcard (fmdom sts |-| visited)"
    using new(1) by (rule fcard_unseen_less)
  then show "((b, ancestors, finsert h visited, sts), b, h # ancestors, visited, sts)
      \<in> measures [\<lambda>(b, hs, visited, sts). fcard (fmdom sts |-| visited), \<lambda>(b, hs, visited, sts). length hs]"
    by simp
  show "((b, ancestors @ map fst (parents ab), finsert h visited,
        modify_active (\<lambda>a. a\<lparr>descendants := finsert b (descendants a)\<rparr>) h sts), b, h # ancestors, visited, sts)
      \<in> measures [\<lambda>(b, hs, visited, sts). fcard (fmdom sts |-| visited), \<lambda>(b, hs, visited, sts). length hs]"
    using less by simp
next
  fix b :: block_id and h ancestors visited and sts :: "'st statuses"
  have "fmdom sts |-| finsert h visited |\<subseteq>| fmdom sts |-| visited" by auto
  then have "fcard (fmdom sts |-| finsert h visited) \<le> fcard (fmdom sts |-| visited)" by (rule fcard_mono)
  then show "((b, ancestors, finsert h visited, sts), b, h # ancestors, visited, sts)
      \<in> measures [\<lambda>(b, hs, visited, sts). fcard (fmdom sts |-| visited), \<lambda>(b, hs, visited, sts). length hs]"
    by auto
qed auto

definition insert_parents_descendants ::
    "block_id \<Rightarrow> slot \<Rightarrow> block_id list \<Rightarrow> 'st consensus_state \<Rightarrow> consensus_error + 'st consensus_state" where
  "insert_parents_descendants b slot parents_hash st =
     rbind (for_each (modify_children (thread slot) (fmupd b (period slot))) parents_hash (statuses st)) (\<lambda>sts.
       let creator =
             (if unat (thread slot) < length parents_hash
              then map_option creator_address (active_at sts (parents_hash ! unat (thread slot)))
              else None)
       in if active_at sts b = None then Inl (ConsensusPanic (StatusInconsistency b))
          else Inr (update_statuses (\<lambda>_.
                 insert_descendant b (rev parents_hash) {||}
                   (modify_active (\<lambda>a. a\<lparr>same_thread_parent_creator := creator\<rparr>) b sts)) st))"

section \<open>The blockclique\<close>

definition add_fitness ::
    "varint_lib \<Rightarrow> 'st statuses \<Rightarrow> block_id \<Rightarrow> u64 \<times> int \<Rightarrow> consensus_error + u64 \<times> int" where
  "add_fitness V sts b acc = (case acc of (fit, sum_hash) \<Rightarrow>
     (case active_at sts b of
        None \<Rightarrow> Inl (ContainerInconsistency b)
      | Some ab \<Rightarrow>
          rbind (ok_or (checked_add fit (fitness ab)) FitnessOverflow) (\<lambda>fit'.
          rbind (map_err (\<lambda>_. SerializationFailed) (block_id_ser V b)) (\<lambda>bs.
            Inr (fit', sum_hash - int (be_val bs))))))"

text \<open>
  The loop over the cliques: \<open>(blockclique_i, max_clique_fitness)\<close> is the best clique seen so far.
\<close>

fun fitness_loop ::
    "hash_order \<Rightarrow> varint_lib \<Rightarrow> 'st statuses \<Rightarrow> nat \<Rightarrow> nat \<times> u64 \<times> int \<Rightarrow> clique list
      \<Rightarrow> consensus_error + nat \<times> clique list" where
  "fitness_loop ord V sts i (best_i, best) [] = Inr (best_i, [])"
| "fitness_loop ord V sts i (best_i, best) (c # cs) =
     rbind (for_each (add_fitness V sts) (ord (Clique_Blocks i) (block_ids c)) (0, 0)) (\<lambda>cur_fit.
     rbind (fitness_loop ord V sts (Suc i) (if best < cur_fit then (i, cur_fit) else (best_i, best)) cs) (\<lambda>(k, cs').
       Inr (k, c\<lparr>clique_fitness := fst cur_fit, is_blockclique := False\<rparr> # cs')))"

definition compute_fitness_find_blockclique ::
    "hash_order \<Rightarrow> varint_lib \<Rightarrow> 'st consensus_state \<Rightarrow> consensus_error + nat \<times> 'st consensus_state" where
  "compute_fitness_find_blockclique ord V st =
     rbind (fitness_loop ord V (statuses st) 0 (0, 0, 0) (max_cliques st)) (\<lambda>(blockclique_i, cs).
     rbind (vec_modify blockclique_i (\<lambda>c. c\<lparr>is_blockclique := True\<rparr>) cs) (\<lambda>cs'.
       Inr (blockclique_i, st\<lparr>max_cliques := cs'\<rparr>)))"

definition get_blockclique :: "'st consensus_state \<Rightarrow> consensus_error + block_id fset" where
  "get_blockclique st =
     (case find is_blockclique (max_cliques st) of
        None \<Rightarrow> Inl (ConsensusPanic NoClique)
      | Some c \<Rightarrow> Inr (block_ids c))"

section \<open>Stale blocks\<close>

definition list_stale_blocks :: "u64 \<Rightarrow> clique list \<Rightarrow> block_id fset" where
  "list_stale_blocks fitness_threshold cs =
     (let indices = rev (sort_key (\<lambda>i. fcard (block_ids (cs ! i))) [0..<length cs]);
          (high_set, low_set) = fold (\<lambda>i (high, low).
            if fitness_threshold \<le> clique_fitness (cs ! i) then (high |\<union>| block_ids (cs ! i), low)
            else (high, low |\<union>| block_ids (cs ! i))) indices ({||}, {||})
      in low_set |-| high_set)"

definition gi_remove :: "block_id \<Rightarrow> incompatibilities \<Rightarrow> incompatibilities" where
  "gi_remove b gi =
     (case fmlookup gi b of
        None \<Rightarrow> gi
      | Some others \<Rightarrow> fmmap_keys (\<lambda>k s. if k |\<in>| others then s |-| {|b|} else s) (fmdrop b gi))"

definition cliques_remove :: "block_id \<Rightarrow> u64 \<Rightarrow> clique list \<Rightarrow> clique list" where
  "cliques_remove b fit cs =
     (let cs' = filter (\<lambda>c. block_ids c \<noteq> {||})
            (map (\<lambda>c. if b |\<in>| block_ids c
                      then c\<lparr>block_ids := block_ids c |-| {|b|}, clique_fitness := clique_fitness c - fit\<rparr>
                      else c) cs)
      in if cs' = [] then [clique_default] else cs')"

definition remove_block ::
    "hash_order \<Rightarrow> block_id \<Rightarrow> 'st consensus_state \<Rightarrow> consensus_error + 'st consensus_state" where
  "remove_block ord b st =
     (let seq = sequence_counter (blocks_state st) in
      rbind (transition_map ord b (\<lambda>block_status sts.
         case block_status of
           Some (Active ab sob) \<Rightarrow>
             if is_final ab then Inl (ConsensusPanic (RemovedFinal b))
             else rbind (for_each (modify_children (thread (active_slot ab)) (fmdrop b)) (map fst (parents ab)) sts) (\<lambda>sts'.
               Inr (ab, Some (Discarded (active_slot ab) (creator_address ab) (map fst (parents ab)) StaleBlock seq), sts'))
         | _ \<Rightarrow> Inl (ConsensusPanic (StatusInconsistency b))) (blocks_state st)) (\<lambda>(ab, bs).
       Inr (st\<lparr>gi_head := gi_remove b (gi_head st),
               max_cliques := cliques_remove b (fitness ab) (max_cliques st),
               new_stale_blocks := fmupd b (creator_address ab, active_slot ab) (new_stale_blocks st),
               blocks_state := bs\<rparr>)))"

section \<open>Final blocks\<close>

fun intersect_cliques :: "clique list \<Rightarrow> nat list \<Rightarrow> block_id fset \<Rightarrow> block_id fset" where
  "intersect_cliques cs [] candidates = candidates"
| "intersect_cliques cs (i # is) candidates =
     (let candidates' = ffilter (\<lambda>v. v |\<in>| block_ids (cs ! i)) candidates
      in if candidates' = {||} then candidates' else intersect_cliques cs is candidates')"

definition descendants_fitness ::
    "hash_order \<Rightarrow> nat \<Rightarrow> 'st statuses \<Rightarrow> clique \<Rightarrow> block_id \<Rightarrow> active_block \<Rightarrow> u64" where
  "descendants_fitness ord i sts c b ab =
     sum_list (map (\<lambda>h. case active_at sts h of Some a \<Rightarrow> fitness a | None \<Rightarrow> 0)
       (ord (Final_Descendants i b) (descendants ab |\<inter>| block_ids c)))"

definition check_candidate ::
    "hash_order \<Rightarrow> u64 \<Rightarrow> nat \<Rightarrow> 'st statuses \<Rightarrow> clique \<Rightarrow> block_id \<Rightarrow> block_id fset \<times> block_id fset
      \<Rightarrow> consensus_error + block_id fset \<times> block_id fset" where
  "check_candidate ord delta_f0 i sts c b acc = (case acc of (candidates, finals) \<Rightarrow>
     (case active_at sts b of
        None \<Rightarrow> Inl (MissingBlock b)
      | Some ab \<Rightarrow>
          if delta_f0 < descendants_fitness ord i sts c b ab
          then Inr (candidates |-| {|b|}, finsert b finals)
          else Inr (candidates, finals)))"

fun final_loop ::
    "hash_order \<Rightarrow> u64 \<Rightarrow> 'st statuses \<Rightarrow> clique list \<Rightarrow> nat list \<Rightarrow> block_id fset \<times> block_id fset
      \<Rightarrow> consensus_error + block_id fset" where
  "final_loop ord delta_f0 sts cs [] (candidates, finals) = Inr finals"
| "final_loop ord delta_f0 sts cs (i # is) (candidates, finals) =
     (if candidates = {||} then Inr finals
      else rbind (for_each (check_candidate ord delta_f0 i sts (cs ! i)) (ord (Final_Candidates i) candidates)
                   (candidates, finals))
             (final_loop ord delta_f0 sts cs is))"

definition list_final_blocks ::
    "hash_order \<Rightarrow> 'st consensus_state \<Rightarrow> consensus_error + block_id fset" where
  "list_final_blocks ord st =
     (let cs = max_cliques st;
          delta_f0 = cfg_delta_f0 (config st);
          indices = sort_key (\<lambda>i. fcard (block_ids (cs ! i))) [0..<length cs]
      in case indices of
           [] \<Rightarrow> Inl (ConsensusPanic NoClique)
         | i # is \<Rightarrow>
             let candidates = intersect_cliques cs is (block_ids (cs ! i));
                 high = filter (\<lambda>i. delta_f0 < clique_fitness (cs ! i)) indices;
                 by_fitness = rev (sort_key (\<lambda>i. clique_fitness (cs ! i)) high)
             in final_loop ord delta_f0 (statuses st) cs by_fitness (candidates, {||}))"

definition mark_final_block ::
    "block_id \<Rightarrow> 'st consensus_state \<Rightarrow> consensus_error + 'st consensus_state" where
  "mark_final_block b st =
     (let st = st\<lparr>gi_head := gi_remove b (gi_head st)\<rparr>
      in case active_at (statuses st) b of
           None \<Rightarrow> Inl (ContainerInconsistency b)
         | Some final_block \<Rightarrow>
             let th = unat (thread (active_slot final_block));
                 st = update_statuses (modify_active (\<lambda>a. a\<lparr>is_final := True\<rparr>) b) st;
                 st = st\<lparr>max_cliques := cliques_remove b (fitness final_block) (max_cliques st)\<rparr>
             in rbind (vec_modify th (\<lambda>(latest, p).
                        if p < period (active_slot final_block) then (b, period (active_slot final_block))
                        else (latest, p)) (latest_final_blocks_periods st)) (\<lambda>latest.
                  Inr (st\<lparr>latest_final_blocks_periods := latest,
                          new_final_blocks := finsert b (new_final_blocks st)\<rparr>)))"

definition mark_final_blocks ::
    "hash_order \<Rightarrow> block_id fset \<Rightarrow> 'st consensus_state \<Rightarrow> consensus_error + 'st consensus_state" where
  "mark_final_blocks ord finals st = for_each mark_final_block (ord Final_Blocks finals) st"

section \<open>Adding a block\<close>

definition add_incompatibility ::
    "block_id \<Rightarrow> block_id \<Rightarrow> incompatibilities \<Rightarrow> consensus_error + incompatibilities" where
  "add_incompatibility b incomp_h gi =
     (case fmlookup gi incomp_h of
        None \<Rightarrow> Inl (MissingBlock incomp_h)
      | Some s \<Rightarrow> Inr (fmupd incomp_h (finsert b s) gi))"

text \<open>The update of the cliques: an extension, or a full computation when the block forks.\<close>

definition extend_cliques :: "block_id \<Rightarrow> block_id fset \<Rightarrow> clique list \<Rightarrow> clique list" where
  "extend_cliques b incomp cs =
     map (\<lambda>c. if incomp |\<inter>| block_ids c = {||} then c\<lparr>block_ids := finsert b (block_ids c)\<rparr> else c) cs"

definition update_max_cliques ::
    "hash_order \<Rightarrow> block_id \<Rightarrow> block_id fset \<Rightarrow> nat \<Rightarrow> 'st consensus_state
      \<Rightarrow> (consensus_error + 'st consensus_state) option" where
  "update_max_cliques ord b incomp inherited_incomp_count st =
     (if fcard incomp = inherited_incomp_count
      then Some (Inr (st\<lparr>max_cliques := extend_cliques b incomp (max_cliques st)\<rparr>))
      else map_option (\<lambda>r.
        rbind (map_err (\<lambda>e. ConsensusPanic (CliquePanic e)) r) (\<lambda>cs.
          Inr (st\<lparr>max_cliques :=
            map (\<lambda>c. \<lparr> block_ids = c, clique_fitness = 0, is_blockclique = False \<rparr>) cs\<rparr>)))
        (compute_max_cliques ord (gi_head st)))"

definition update_best_parent ::
    "'st statuses \<Rightarrow> block_id \<Rightarrow> (block_id \<times> u64) list \<Rightarrow> consensus_error + (block_id \<times> u64) list" where
  "update_best_parent sts b bps =
     (case active_at sts b of
        None \<Rightarrow> Inl (ContainerInconsistency b)
      | Some ab \<Rightarrow> vec_modify (unat (thread (active_slot ab))) (\<lambda>(best, p).
          if p < period (active_slot ab) then (b, period (active_slot ab)) else (best, p)) bps)"

text \<open>What follows the update of the cliques.\<close>

definition settle_graph ::
    "hash_order \<Rightarrow> varint_lib \<Rightarrow> slot \<Rightarrow> 'st consensus_state \<Rightarrow> consensus_error + 'st consensus_state" where
  "settle_graph ord V slot st =
     rbind (compute_fitness_find_blockclique ord V st) (\<lambda>(position_blockclique, st).
     rbind (vec_get (max_cliques st) position_blockclique) (\<lambda>blockclique.
     rbind (for_each (update_best_parent (statuses st)) (ord Blockclique (block_ids blockclique))
              (latest_final_blocks_periods st)) (\<lambda>bps.
       let st = st\<lparr>best_parents := bps\<rparr>;
           fitness_threshold = saturating_sub (clique_fitness blockclique) (cfg_delta_f0 (config st));
           stale_blocks = list_stale_blocks fitness_threshold (max_cliques st);
           st = st\<lparr>max_cliques := filter (\<lambda>c. fitness_threshold \<le> clique_fitness c) (max_cliques st)\<rparr>
       in rbind (for_each (remove_block ord) (ord Stale_Blocks stale_blocks) st) (\<lambda>st.
          rbind (list_final_blocks ord st) (\<lambda>final_blocks.
          rbind (mark_final_blocks ord final_blocks st) (\<lambda>st.
          rbind (map_err ConsensusModelsError (get_block_slot_timestamp (cfg_thread_count (config st))
                   (cfg_t0 (config st)) (cfg_genesis_timestamp (config st)) slot)) (\<lambda>_.
            Inr st)))))))"

definition add_block_to_graph ::
    "hash_order \<Rightarrow> varint_lib \<Rightarrow> block_id \<Rightarrow> (block_id \<times> u64) list \<Rightarrow> slot \<Rightarrow> block_id fset \<Rightarrow> nat
      \<Rightarrow> 'st consensus_state \<Rightarrow> (consensus_error + 'st consensus_state) option" where
  "add_block_to_graph ord V b parents_hash_period slot incomp inherited_incomp_count st =
     (case rbind (insert_parents_descendants b slot (map fst parents_hash_period) st) (\<lambda>st.
             rbind (for_each (add_incompatibility b) (ord Incompatibilities incomp) (gi_head st)) (\<lambda>gi.
               Inr (st\<lparr>gi_head := fmupd b incomp gi\<rparr>))) of
        Inl e \<Rightarrow> Some (Inl e)
      | Inr st \<Rightarrow> map_option (\<lambda>r. rbind r (settle_graph ord V slot))
                   (update_max_cliques ord b incomp inherited_incomp_count st))"

end
