(* ===== verification/Massa_Graph_Safety.thy ===== *)
theory Massa_Graph_Safety
  imports Massa_Block_Graph
begin

text \<open>
  What the block graph keeps and what adding a block does to it.  The invariant \<open>graph_inv\<close> ties the
  statuses, the incompatibility graph and the cliques together; \<open>add_block_to_graph\<close> keeps it, never
  fails, and leaves no block that meets the criterion of finality without making it final.
\<close>

section \<open>The incompatibility graph\<close>

lemma compatible_cong:
  assumes "s |\<subseteq>| fmdom gi \<longleftrightarrow> s |\<subseteq>| fmdom gi'"
    "\<And>u v. u |\<in>| s \<Longrightarrow> v |\<in>| s \<Longrightarrow> v |\<in>| incomp_of gi u \<longleftrightarrow> v |\<in>| incomp_of gi' u"
  shows "compatible gi s \<longleftrightarrow> compatible gi' s"
  using assms unfolding compatible_def by blast

lemma maximal_compatibleI:
  assumes "compatible gi s" "\<And>t. compatible gi t \<Longrightarrow> s |\<subseteq>| t \<Longrightarrow> t = s"
  shows "s \<in> maximal_compatible gi"
  unfolding maximal_compatible_iff using assms by blast

lemma maximal_compatibleD:
  "m \<in> maximal_compatible gi \<Longrightarrow> compatible gi t \<Longrightarrow> m |\<subseteq>| t \<Longrightarrow> t = m"
  unfolding maximal_compatible_iff by blast

lemma maximal_compatible_compatible: "m \<in> maximal_compatible gi \<Longrightarrow> compatible gi m"
  by (simp add: maximal_compatible_def)

lemma fmdom_gi_remove [simp]: "fmdom (gi_remove b gi) = fmdom gi |-| {|b|}"
  by (auto simp: gi_remove_def fmdom_notD split: option.splits)

lemma incomp_of_gi_remove:
  assumes "gi_wf gi"
  shows "incomp_of (gi_remove b gi) u = (if u = b then {||} else incomp_of gi u |-| {|b|})"
proof -
  have "b |\<notin>| incomp_of gi u" if "u |\<notin>| incomp_of gi b" using that incomp_of_sym [OF assms] by blast
  then show ?thesis
    by (auto simp: gi_remove_def incomp_of_def split: option.splits)
qed

lemma gi_wf_gi_remove: "gi_wf gi \<Longrightarrow> gi_wf (gi_remove b gi)"
  unfolding gi_wf_def [of "gi_remove b gi"] by (auto simp: incomp_of_gi_remove gi_wf_def)

lemma compatible_gi_remove:
  "gi_wf gi \<Longrightarrow> compatible (gi_remove b gi) s \<longleftrightarrow> compatible gi s \<and> b |\<notin>| s"
  unfolding compatible_def by (auto simp: incomp_of_gi_remove)

lemma maximal_gi_remove:
  assumes "gi_wf gi" "m \<in> maximal_compatible gi" "b |\<notin>| m"
  shows "m \<in> maximal_compatible (gi_remove b gi)"
  using assms by (auto simp: maximal_compatible_def compatible_gi_remove)

text \<open>A block that conflicts with nothing is in every maximal set, and can be taken out of all.\<close>

lemma maximal_gi_remove_isolated:
  assumes "gi_wf gi" "m \<in> maximal_compatible gi" "b |\<in>| m" "incomp_of gi b = {||}"
  shows "m |-| {|b|} \<in> maximal_compatible (gi_remove b gi)"
proof -
  have "compatible gi (finsert v m)" if "v |\<notin>| m" "compatible gi (finsert v (m |-| {|b|}))" for v
  proof -
    have "b |\<notin>| incomp_of gi v" using assms(1,4) incomp_of_sym [of gi b v] by auto
    then show ?thesis
      using that assms(2) by (auto simp: compatible_finsert [OF assms(1)] maximal_compatible_def)
  qed
  moreover have "compatible gi (m |-| {|b|})"
    using assms(2) by (auto simp: maximal_compatible_def intro: compatible_subset)
  ultimately show ?thesis
    using assms(2) by (auto simp: maximal_compatible_def compatible_gi_remove [OF assms(1)])
qed

text \<open>\<open>gi'\<close> is \<open>gi\<close> with the new block \<open>b\<close>, incompatible with \<open>incomp\<close>.\<close>

definition gi_adds :: "block_id \<Rightarrow> block_id fset \<Rightarrow> incompatibilities \<Rightarrow> incompatibilities \<Rightarrow> bool" where
  "gi_adds b incomp gi gi' \<longleftrightarrow> fmdom gi' = finsert b (fmdom gi) \<and>
     (\<forall>u. incomp_of gi' u =
        (if u = b then incomp else if u |\<in>| incomp then finsert b (incomp_of gi u) else incomp_of gi u))"

lemma for_each_add_incompatibility:
  assumes "set hs \<subseteq> fset (fmdom gi)" "distinct hs"
  shows "\<exists>gi'. for_each (add_incompatibility b) hs gi = Inr gi' \<and> fmdom gi' = fmdom gi \<and>
    (\<forall>u. incomp_of gi' u = (if u \<in> set hs then finsert b (incomp_of gi u) else incomp_of gi u))"
  using assms
proof (induction hs arbitrary: gi)
  case (Cons h hs)
  then obtain s where s: "fmlookup gi h = Some s" by (auto simp: fmlookup_dom_iff)
  define gi1 where "gi1 = fmupd h (finsert b s) gi"
  have gi1: "add_incompatibility b h gi = Inr gi1" by (simp add: add_incompatibility_def s gi1_def)
  have dom1: "fmdom gi1 = fmdom gi" using s by (auto simp: gi1_def intro: fmdomI)
  have inc1: "incomp_of gi1 u = (if u = h then finsert b (incomp_of gi u) else incomp_of gi u)" for u
    by (simp add: gi1_def incomp_of_def s)
  obtain gi' where "for_each (add_incompatibility b) hs gi1 = Inr gi'" "fmdom gi' = fmdom gi1"
    "\<forall>u. incomp_of gi' u = (if u \<in> set hs then finsert b (incomp_of gi1 u) else incomp_of gi1 u)"
    using Cons.IH [of gi1] Cons.prems dom1 by auto
  with gi1 dom1 inc1 Cons.prems(2) show ?case by auto
qed simp

lemma add_incompatibilities:
  assumes "traverses ord" "incomp |\<subseteq>| fmdom gi" "b |\<notin>| fmdom gi"
  obtains gi' where "for_each (add_incompatibility b) (ord t incomp) gi = Inr gi'"
    "gi_adds b incomp gi (fmupd b incomp gi')"
proof -
  obtain gi' where gi': "for_each (add_incompatibility b) (ord t incomp) gi = Inr gi'" "fmdom gi' = fmdom gi"
    "\<forall>u. incomp_of gi' u = (if u |\<in>| incomp then finsert b (incomp_of gi u) else incomp_of gi u)"
    using for_each_add_incompatibility [of "ord t incomp" gi b] assms
    by (auto simp: less_eq_fset.rep_eq)
  have "incomp_of (fmupd b incomp gi') u = (if u = b then incomp else incomp_of gi' u)" for u
    by (simp add: incomp_of_def)
  with gi' show thesis using that by (simp add: gi_adds_def)
qed

lemma gi_wf_adds:
  assumes wf: "gi_wf gi" and add: "gi_adds b incomp gi gi'" and "incomp |\<subseteq>| fmdom gi" "b |\<notin>| fmdom gi"
  shows "gi_wf gi'"
proof -
  have "b |\<notin>| incomp_of gi u" for u using incomp_of_dom [OF wf, of b u] assms(4) by auto
  moreover have "incomp_of gi b = {||}" using assms(4) by (simp add: incomp_of_def fmdom_notD)
  ultimately show ?thesis
    using wf add assms(3,4) unfolding gi_wf_def [of gi'] gi_adds_def by (auto simp: gi_wf_def split: if_splits)
qed

lemma compatible_adds:
  assumes wf: "gi_wf gi" and add: "gi_adds b incomp gi gi'" and "incomp |\<subseteq>| fmdom gi" "b |\<notin>| fmdom gi"
  shows "compatible gi' s \<longleftrightarrow>
    (if b |\<in>| s then compatible gi (s |-| {|b|}) \<and> s |\<inter>| incomp = {||} else compatible gi s)"
proof (cases "b |\<in>| s")
  case False
  then show ?thesis using add by (auto simp: compatible_def gi_adds_def)
next
  case True
  have wf': "gi_wf gi'" by (rule gi_wf_adds [OF assms])
  have bi: "b |\<notin>| incomp" using assms(3,4) by auto
  have s: "s = finsert b (s |-| {|b|})" using True by auto
  have "compatible gi' (s |-| {|b|}) \<longleftrightarrow> compatible gi (s |-| {|b|})"
    using add by (auto simp: compatible_def gi_adds_def)
  then have "compatible gi' s \<longleftrightarrow> compatible gi (s |-| {|b|}) \<and> (\<forall>u. u |\<in>| s |-| {|b|} \<longrightarrow> u |\<notin>| incomp)"
    using add compatible_finsert [OF wf', of b "s |-| {|b|}"] s by (auto simp: gi_adds_def)
  with True bi show ?thesis by auto
qed

text \<open>Extending the maximal sets that are compatible with the new block gives maximal sets.\<close>

lemma maximal_adds:
  assumes wf: "gi_wf gi" and add: "gi_adds b incomp gi gi'" and "incomp |\<subseteq>| fmdom gi" "b |\<notin>| fmdom gi"
    and m: "m \<in> maximal_compatible gi"
  shows "(if incomp |\<inter>| m = {||} then finsert b m else m) \<in> maximal_compatible gi'"
proof -
  note compat = compatible_adds [OF assms(1-4)]
  have bm: "b |\<notin>| m" using m assms(4) by (auto simp: maximal_compatible_def compatible_def)
  have max: "t = m" if "compatible gi t" "m |\<subseteq>| t" for t using m that by (rule maximal_compatibleD)
  have mc: "compatible gi m" using m by (simp add: maximal_compatible_def)
  show ?thesis
  proof (cases "incomp |\<inter>| m = {||}")
    case True
    have bi: "b |\<notin>| incomp" using assms(3,4) by auto
    have eq: "finsert b m |-| {|b|} = m" using bm by blast
    have "finsert b m |\<inter>| incomp = {||}" using True bi by blast
    then have "compatible gi' (finsert b m)" unfolding compat eq using mc by simp
    moreover have "t = finsert b m" if "compatible gi' t" "finsert b m |\<subseteq>| t" for t
    proof -
      have bt: "b |\<in>| t" using that(2) by blast
      then have "compatible gi (t |-| {|b|})" using that(1) by (simp add: compat)
      moreover have "m |\<subseteq>| t |-| {|b|}" using that(2) bm by blast
      ultimately have "t |-| {|b|} = m" by (rule max)
      with bt show ?thesis by blast
    qed
    ultimately have "finsert b m \<in> maximal_compatible gi'" by (rule maximal_compatibleI)
    with True show ?thesis by simp
  next
    case False
    have "compatible gi' m" using mc bm by (simp add: compat)
    moreover have "t = m" if "compatible gi' t" "m |\<subseteq>| t" for t
    proof -
      have "t |\<inter>| incomp \<noteq> {||}" using that(2) False by blast
      then have "b |\<notin>| t" using that(1) by (auto simp: compat)
      then have "compatible gi t" using that(1) by (simp add: compat)
      then show ?thesis using that(2) by (rule max)
    qed
    ultimately have "m \<in> maximal_compatible gi'" by (rule maximal_compatibleI)
    with False show ?thesis by simp
  qed
qed

text \<open>
  When the incompatibilities of the new block are those of its parents, and the parents are
  compatible with each other and with the block, every maximal set arises in this way.
\<close>

lemma maximal_adds_inherited:
  assumes wf: "gi_wf gi" and add: "gi_adds b incomp gi gi'" and "incomp |\<subseteq>| fmdom gi" "b |\<notin>| fmdom gi"
    and inherited: "\<And>v. v |\<in>| incomp \<longleftrightarrow> (\<exists>p. p |\<in>| ps \<and> v |\<in>| incomp_of gi p)"
    and ps: "\<And>p q. p |\<in>| ps \<Longrightarrow> q |\<in>| ps \<Longrightarrow> p |\<notin>| incomp_of gi q" "ps |\<subseteq>| fmdom gi"
  shows "maximal_compatible gi' =
    (\<lambda>m. if incomp |\<inter>| m = {||} then finsert b m else m) ` maximal_compatible gi" (is "_ = ?f ` _")
proof
  show "?f ` maximal_compatible gi \<subseteq> maximal_compatible gi'"
    using maximal_adds [OF assms(1-4)] by blast
next
  note compat = compatible_adds [OF assms(1-4)]
  have bp: "b |\<notin>| ps" using ps(2) assms(4) by auto
  show "maximal_compatible gi' \<subseteq> ?f ` maximal_compatible gi"
  proof
    fix m' assume m': "m' \<in> maximal_compatible gi'"
    have max': "t = m'" if "compatible gi' t" "m' |\<subseteq>| t" for t using m' that by (rule maximal_compatibleD)
    have c': "compatible gi' m'" using m' by (simp add: maximal_compatible_def)
    define s where "s = (if b |\<in>| m' then (m' |-| {|b|}) |\<union>| ps else m')"
    have s: "compatible gi s"
    proof (cases "b |\<in>| m'")
      case True
      then have c: "compatible gi (m' |-| {|b|})" "m' |\<inter>| incomp = {||}" using c' by (auto simp: compat)
      have "v |\<notin>| incomp_of gi p" "p |\<notin>| incomp_of gi v" if "p |\<in>| ps" "v |\<in>| m'" for p v
        using that c(2) inherited [of v] incomp_of_sym [OF wf, of v p] by auto
      with c(1) ps show ?thesis using True by (auto simp: s_def compatible_def)
    qed (use c' in \<open>simp add: s_def compat\<close>)
    obtain m where m: "m \<in> maximal_compatible gi" "s |\<subseteq>| m" using extend_to_maximal [OF s] .
    have mc: "compatible gi m" using m(1) by (simp add: maximal_compatible_def)
    have bm: "b |\<notin>| m" using mc assms(4) by (auto simp: compatible_def)
    have "?f m = m'"
    proof (cases "b |\<in>| m'")
      case True
      then have "ps |\<subseteq>| m" using m(2) by (auto simp: s_def)
      then have dis: "incomp |\<inter>| m = {||}" using mc inherited by (auto simp: compatible_def)
      moreover have "finsert b m = m'"
      proof (rule max')
        show "compatible gi' (finsert b m)"
          using maximal_adds [OF assms(1-4) m(1)] dis by (simp add: maximal_compatible_def)
      qed (use m(2) True in \<open>auto simp: s_def\<close>)
      ultimately show ?thesis by simp
    next
      case False
      then have sub: "m' |\<subseteq>| m" using m(2) by (simp add: s_def)
      show ?thesis
      proof (rule max')
        show "compatible gi' (?f m)"
          by (rule maximal_compatible_compatible [OF maximal_adds [OF assms(1-4) m(1)]])
      qed (use sub in auto)
    qed
    then show "m' \<in> ?f ` maximal_compatible gi" using m(1) by blast
  qed
qed

section \<open>Relinking blocks\<close>

text \<open>
  Most steps change at most the links of the active blocks: their children, their descendants and the
  creator of the parent in the same thread.
\<close>

definition same_core :: "active_block \<Rightarrow> active_block \<Rightarrow> bool" where
  "same_core a a' \<longleftrightarrow> is_final a' = is_final a \<and> active_slot a' = active_slot a \<and> fitness a' = fitness a \<and>
     parents a' = parents a \<and> creator_address a' = creator_address a \<and> length (children a') = length (children a)"

definition relinked :: "'st statuses \<Rightarrow> 'st statuses \<Rightarrow> bool" where
  "relinked m m' \<longleftrightarrow> (\<forall>b. fmlookup m' b = fmlookup m b \<or>
     (\<exists>a a' s. fmlookup m b = Some (Active a s) \<and> fmlookup m' b = Some (Active a' s) \<and> same_core a a'))"

lemma same_core_refl [simp]: "same_core a a"
  by (simp add: same_core_def)

lemma same_core_trans: "same_core a b \<Longrightarrow> same_core b c \<Longrightarrow> same_core a c"
  by (simp add: same_core_def)

lemma relinked_refl [simp]: "relinked m m"
  by (simp add: relinked_def)

lemma relinked_cases:
  assumes "relinked m m'"
  obtains "fmlookup m' b = fmlookup m b"
    | a a' s where "fmlookup m b = Some (Active a s)" "fmlookup m' b = Some (Active a' s)" "same_core a a'"
  using assms unfolding relinked_def by blast

lemma relinked_trans:
  assumes "relinked l m" "relinked (m :: 'a statuses) n"
  shows "relinked l n"
  unfolding relinked_def
proof
  fix b
  let ?R = "\<lambda>l n :: 'a statuses. fmlookup n b = fmlookup l b \<or>
     (\<exists>a a' s. fmlookup l b = Some (Active a s) \<and> fmlookup n b = Some (Active a' s) \<and> same_core a a')"
  show "?R l n"
  proof (rule relinked_cases [OF assms(1), of b])
    assume "fmlookup m b = fmlookup l b"
    then show ?thesis by (metis relinked_cases [OF assms(2), of b])
  next
    fix a a' s
    assume lm: "fmlookup l b = Some (Active a s)" "fmlookup m b = Some (Active a' s)" "same_core a a'"
    show ?thesis
    proof (rule relinked_cases [OF assms(2), of b])
      fix c c' t
      assume "fmlookup m b = Some (Active c t)" "fmlookup n b = Some (Active c' t)" "same_core c c'"
      with lm show ?thesis by (auto intro: same_core_trans)
    qed (use lm in auto)
  qed
qed

lemma relinked_active:
  assumes "relinked m m'"
  shows "active_at m b = None \<longleftrightarrow> active_at m' b = None"
    and "active_at m b = Some a \<Longrightarrow> \<exists>a'. active_at m' b = Some a' \<and> same_core a a'"
    and "active_at m' b = Some a' \<Longrightarrow> \<exists>a. active_at m b = Some a \<and> same_core a a'"
  by (rule relinked_cases [OF assms, of b]; simp add: active_at_def)+

lemma relinked_status_id:
  "relinked m m' \<Longrightarrow> map_option status_id (fmlookup m' b) = map_option status_id (fmlookup m b)"
  unfolding relinked_def by (erule allE [of _ b]) auto

lemma active_at_modify_active:
  "active_at (modify_active f b sts) c =
     (if c = b then map_option f (active_at sts b) else active_at sts c)"
  by (auto simp: active_at_def modify_active_def split: option.splits block_status.splits)

lemma relinked_modify_active:
  assumes "\<And>a. active_at sts b = Some a \<Longrightarrow> same_core a (f a)"
  shows "relinked sts (modify_active f b sts)"
  using assms by (auto simp: relinked_def modify_active_def active_at_def split: option.splits block_status.splits)

lemma modify_children_ok:
  assumes "\<And>c ab. active_at sts c = Some ab \<Longrightarrow> unat th < length (children ab)"
  shows "\<exists>sts'. modify_children th f p sts = Inr sts' \<and> relinked sts sts'"
proof (cases "active_at sts p")
  case None
  then show ?thesis by (simp add: modify_children_def)
next
  case (Some a)
  then have "unat th < length (children a)" using assms by blast
  then show ?thesis
    using Some by (auto simp: modify_children_def vec_modify_def same_core_def intro!: relinked_modify_active)
qed

lemma for_each_modify_children:
  assumes "\<And>c ab. active_at sts c = Some ab \<Longrightarrow> unat th < length (children ab)"
  shows "\<exists>sts'. for_each (modify_children th f) ps sts = Inr sts' \<and> relinked sts sts'"
proof (rule for_each_inv [where P = "\<lambda>_ sts'. relinked sts sts'"])
  fix p rest sts'
  assume rel: "relinked sts sts'"
  have "unat th < length (children ab)" if "active_at sts' c = Some ab" for c ab
    using relinked_active(3) [OF rel that] assms by (auto simp: same_core_def)
  then show "\<exists>s'. modify_children th f p sts' = Inr s' \<and> relinked sts s'"
    using modify_children_ok [of sts' th f p] relinked_trans [OF rel] by blast
qed simp

lemma insert_descendant_relinked: "relinked sts (insert_descendant b hs visited sts)"
proof (induction b hs visited sts rule: insert_descendant.induct)
  case (2 b h ancestors visited sts)
  have "relinked sts (modify_active (\<lambda>a. a\<lparr>descendants := finsert b (descendants a)\<rparr>) h sts)"
    by (rule relinked_modify_active) (simp add: same_core_def)
  with 2 show ?case by (auto split: option.splits intro: relinked_trans)
qed simp

lemma insert_parents_descendants_ok:
  assumes "\<And>c ab. active_at (statuses st) c = Some ab \<Longrightarrow> unat (thread slot) < length (children ab)"
    "active_at (statuses st) b \<noteq> None"
  obtains sts where "insert_parents_descendants b slot ps st = Inr (update_statuses (\<lambda>_. sts) st)"
    "relinked (statuses st) sts"
proof -
  obtain sts1 where 1: "for_each (modify_children (thread slot) (fmupd b (period slot))) ps (statuses st) = Inr sts1"
    "relinked (statuses st) sts1"
    using for_each_modify_children [of "statuses st" "thread slot" "fmupd b (period slot)" ps] assms(1) by blast
  have b: "active_at sts1 b \<noteq> None" using assms(2) relinked_active(1) [OF 1(2), of b] by metis
  define creator where "creator = (if unat (thread slot) < length ps
      then map_option creator_address (active_at sts1 (ps ! unat (thread slot))) else None)"
  define sts2 where "sts2 = modify_active (\<lambda>a. a\<lparr>same_thread_parent_creator := creator\<rparr>) b sts1"
  have "relinked sts1 sts2" unfolding sts2_def by (rule relinked_modify_active) (simp add: same_core_def)
  then have "relinked (statuses st) (insert_descendant b (rev ps) {||} sts2)"
    using 1(2) insert_descendant_relinked relinked_trans by blast
  then show thesis
    using that 1(1) b unfolding sts2_def creator_def by (simp add: insert_parents_descendants_def Let_def)
qed

section \<open>The invariant\<close>

definition block_fitness :: "'st statuses \<Rightarrow> block_id \<Rightarrow> nat" where
  "block_fitness sts b = (case active_at sts b of Some a \<Rightarrow> unat (fitness a) | None \<Rightarrow> 0)"

definition set_fitness :: "'st statuses \<Rightarrow> block_id fset \<Rightarrow> nat" where
  "set_fitness sts s = (\<Sum>b\<in>fset s. block_fitness sts b)"

text \<open>
  \<open>graph_core\<close>: the indexes are right, the incompatibility graph is symmetric, every vector has one
  entry per thread, and no final block is later than the latest final block of its thread.
\<close>

definition graph_core :: "'st consensus_state \<Rightarrow> bool" where
  "graph_core st \<longleftrightarrow> indexes_ok (blocks_state st) \<and> gi_wf (gi_head st) \<and>
     length (latest_final_blocks_periods st) = unat (cfg_thread_count (config st)) \<and>
     (\<forall>b a. active_at (statuses st) b = Some a \<longrightarrow>
        unat (thread (active_slot a)) < length (latest_final_blocks_periods st) \<and>
        length (children a) = length (latest_final_blocks_periods st) \<and>
        (is_final a \<longrightarrow>
          period (active_slot a) \<le> snd (latest_final_blocks_periods st ! unat (thread (active_slot a)))))"

text \<open>The incompatibility graph has the active blocks that are not final, but those of \<open>ex\<close>.\<close>

definition gi_domain :: "block_id set \<Rightarrow> 'st consensus_state \<Rightarrow> bool" where
  "gi_domain ex st \<longleftrightarrow> (\<forall>b. b |\<in>| fmdom (gi_head st) \<longleftrightarrow>
     b \<notin> ex \<and> (\<exists>a. active_at (statuses st) b = Some a \<and> \<not> is_final a))"

definition cliques_ok :: "incompatibilities \<Rightarrow> clique list \<Rightarrow> bool" where
  "cliques_ok gi cs \<longleftrightarrow> cs \<noteq> [] \<and> distinct (map block_ids cs) \<and> block_ids ` set cs \<subseteq> maximal_compatible gi"

definition scored :: "'st statuses \<Rightarrow> clique list \<Rightarrow> bool" where
  "scored sts cs \<longleftrightarrow> (\<forall>c\<in>set cs. unat (clique_fitness c) = set_fitness sts (block_ids c))"

text \<open>One clique is marked as the blockclique, and none has a higher fitness.\<close>

definition elected :: "clique list \<Rightarrow> bool" where
  "elected cs \<longleftrightarrow> (\<exists>d. filter is_blockclique cs = [d] \<and> (\<forall>c\<in>set cs. clique_fitness c \<le> clique_fitness d))"

text \<open>The cliques cover the graph, but for the blocks of \<open>r\<close>, which are in no clique.\<close>

definition covers :: "block_id set \<Rightarrow> incompatibilities \<Rightarrow> clique list \<Rightarrow> bool" where
  "covers r gi cs \<longleftrightarrow> (\<forall>b. b |\<in>| fmdom gi \<longleftrightarrow> b \<in> r \<or> (\<exists>c\<in>set cs. b |\<in>| block_ids c)) \<and>
     (\<forall>c\<in>set cs. r \<inter> fset (block_ids c) = {})"

definition graph_inv_but :: "block_id set \<Rightarrow> 'st consensus_state \<Rightarrow> bool" where
  "graph_inv_but r st \<longleftrightarrow> graph_core st \<and> gi_domain {} st \<and> cliques_ok (gi_head st) (max_cliques st) \<and>
     scored (statuses st) (max_cliques st) \<and> elected (max_cliques st) \<and>
     covers r (gi_head st) (max_cliques st)"

abbreviation graph_inv :: "'st consensus_state \<Rightarrow> bool" where
  "graph_inv \<equiv> graph_inv_but {}"

text \<open>
  What may happen to a block: an active one keeps its data, stays final when it is final, and may be
  discarded as stale when it is not; any other status stays.
\<close>

definition evolved :: "active_block \<Rightarrow> active_block \<Rightarrow> bool" where
  "evolved a a' \<longleftrightarrow> (is_final a \<longrightarrow> is_final a') \<and> active_slot a' = active_slot a \<and> fitness a' = fitness a \<and>
     parents a' = parents a \<and> creator_address a' = creator_address a"

fun advanced_status :: "'st block_status option \<Rightarrow> 'st block_status option \<Rightarrow> bool" where
  "advanced_status (Some (Active a s)) y \<longleftrightarrow>
     (\<exists>a'. y = Some (Active a' s) \<and> evolved a a') \<or>
     \<not> is_final a \<and>
       (\<exists>n. y = Some (Discarded (active_slot a) (creator_address a) (map fst (parents a)) StaleBlock n))"
| "advanced_status x y \<longleftrightarrow> y = x"

definition advanced :: "'st statuses \<Rightarrow> 'st statuses \<Rightarrow> bool" where
  "advanced m m' \<longleftrightarrow> (\<forall>b. advanced_status (fmlookup m b) (fmlookup m' b))"

lemma update_statuses_simps [simp]:
  "statuses (update_statuses f st) = f (statuses st)"
  "config (update_statuses f st) = config st"
  "gi_head (update_statuses f st) = gi_head st"
  "max_cliques (update_statuses f st) = max_cliques st"
  "latest_final_blocks_periods (update_statuses f st) = latest_final_blocks_periods st"
  "new_final_blocks (update_statuses f st) = new_final_blocks st"
  by (simp_all add: update_statuses_def)

lemma block_fitness_relinked:
  assumes "relinked sts sts'"
  shows "block_fitness sts' b = block_fitness sts b"
proof (cases "active_at sts b")
  case None
  then have "active_at sts' b = None" using relinked_active(1) [OF assms] by metis
  with None show ?thesis by (simp add: block_fitness_def)
next
  case (Some a)
  with relinked_active(2) [OF assms] show ?thesis by (force simp: block_fitness_def same_core_def)
qed

lemma set_fitness_relinked: "relinked sts sts' \<Longrightarrow> set_fitness sts' s = set_fitness sts s"
  by (simp add: set_fitness_def block_fitness_relinked)

lemma graph_core_relinked:
  assumes "graph_core st" "relinked (statuses st) sts"
  shows "graph_core (update_statuses (\<lambda>_. sts) st)"
proof -
  have "indexes_ok (blocks_state (update_statuses (\<lambda>_. sts) st))"
    unfolding update_statuses_def using assms
    by (simp add: graph_core_def indexes_ok_same_ids relinked_status_id status_at_def)
  moreover have "\<exists>a. active_at (statuses st) b = Some a \<and> same_core a a'" if "active_at sts b = Some a'" for b a'
    using relinked_active(3) [OF assms(2) that] .
  ultimately show ?thesis
    using assms(1) unfolding graph_core_def by (fastforce simp: same_core_def)
qed

lemma gi_domain_relinked:
  assumes "gi_domain ex st" "relinked (statuses st) sts"
  shows "gi_domain ex (update_statuses (\<lambda>_. sts) st)"
  using assms(1) relinked_active(2,3) [OF assms(2)] unfolding gi_domain_def same_core_def
  by (metis update_statuses_simps(1,3))

section \<open>The election of the blockclique\<close>

lemma for_each_add_fitness:
  assumes "distinct hs" "\<And>b. b \<in> set hs \<Longrightarrow> active_at sts b \<noteq> None"
    "unat f + (\<Sum>b\<in>set hs. block_fitness sts b) < 2 ^ 64"
  shows "\<exists>f' h'. for_each (add_fitness V sts) hs (f, h) = Inr (f', h') \<and>
    unat f' = unat f + (\<Sum>b\<in>set hs. block_fitness sts b)"
  using assms
proof (induction hs arbitrary: f h)
  case (Cons b hs)
  obtain a where a: "active_at sts b = Some a" using Cons.prems(2) [of b] by auto
  have sum: "(\<Sum>b\<in>set (b # hs). block_fitness sts b) = unat (fitness a) + (\<Sum>b\<in>set hs. block_fitness sts b)"
    using Cons.prems(1) a by (simp add: block_fitness_def)
  define f1 where "f1 = f + fitness a"
  have "unat f + unat (fitness a) < 2 ^ LENGTH(64)" using Cons.prems(3) sum by simp
  then have f1: "checked_add f (fitness a) = Some f1" "unat f1 = unat f + unat (fitness a)"
    by (simp_all add: checked_add_def f1_def unat_add_no_overflow)
  obtain bs where bs: "block_id_ser V b = Inr bs" by (simp add: block_id_ser_def varint_ser_def)
  have "unat f1 + (\<Sum>b\<in>set hs. block_fitness sts b) < 2 ^ 64" using Cons.prems(3) sum f1(2) by simp
  then obtain f' h' where "for_each (add_fitness V sts) hs (f1, h - int (be_val bs)) = Inr (f', h')"
    "unat f' = unat f1 + (\<Sum>b\<in>set hs. block_fitness sts b)"
    using Cons.IH [of f1 "h - int (be_val bs)"] Cons.prems(1,2) by auto
  moreover have "add_fitness V sts b (f, h) = Inr (f1, h - int (be_val bs))"
    by (simp add: add_fitness_def a f1 bs)
  ultimately show ?case using sum f1(2) by auto
qed simp

text \<open>The scores are right, and the index is that of a clique of the highest fitness.\<close>

lemma fitness_loop_ok:
  assumes ord: "traverses ord"
    and act: "\<And>c b. c \<in> set cs \<Longrightarrow> b |\<in>| block_ids c \<Longrightarrow> active_at sts b \<noteq> None"
    and fit: "\<And>c. c \<in> set cs \<Longrightarrow> set_fitness sts (block_ids c) < 2 ^ 64"
  shows "\<exists>k cs'. fitness_loop ord V sts i (bi, best) cs = Inr (k, cs') \<and>
    map block_ids cs' = map block_ids cs \<and> scored sts cs' \<and> filter is_blockclique cs' = [] \<and>
    (\<exists>f h. best \<le> (f, h) \<and> (\<forall>c\<in>set cs'. clique_fitness c \<le> f) \<and>
      ((k, f, h) = (bi, best) \<or> i \<le> k \<and> k < i + length cs \<and> clique_fitness (cs' ! (k - i)) = f))"
  using act fit
proof (induction cs arbitrary: i bi best)
  case Nil
  obtain f h where "best = (f, h)" by (cases best)
  then show ?case by (simp add: scored_def) blast
next
  case (Cons c cs)
  have "active_at sts b \<noteq> None" if "b \<in> set (ord (Clique_Blocks i) (block_ids c))" for b
    using Cons.prems(1) [of c b] that ord by simp
  moreover have "unat (0 :: u64) + (\<Sum>b\<in>set (ord (Clique_Blocks i) (block_ids c)). block_fitness sts b) < 2 ^ 64"
    using Cons.prems(2) [of c] ord by (simp add: set_fitness_def)
  ultimately obtain f h where fh:
    "for_each (add_fitness V sts) (ord (Clique_Blocks i) (block_ids c)) (0, 0) = Inr (f, h)"
    "unat f = set_fitness sts (block_ids c)"
    using for_each_add_fitness [OF distinct_ord [OF ord], of "Clique_Blocks i" "block_ids c" sts 0 V 0] ord
    by (auto simp: set_fitness_def)
  define acc where "acc = (if best < (f, h) then (i, f, h) else (bi, best))"
  obtain bi' b' where acc: "acc = (bi', b')" by (cases acc)
  have prems: "\<And>d b. d \<in> set cs \<Longrightarrow> b |\<in>| block_ids d \<Longrightarrow> active_at sts b \<noteq> None"
    "\<And>d. d \<in> set cs \<Longrightarrow> set_fitness sts (block_ids d) < 2 ^ 64"
    using Cons.prems by (meson list.set_intros(2))+
  from Cons.IH [where i = "Suc i" and bi = bi' and best = b'] prems
  obtain k cs' f' h' where rest: "fitness_loop ord V sts (Suc i) acc cs = Inr (k, cs')"
    "map block_ids cs' = map block_ids cs" "scored sts cs'" "filter is_blockclique cs' = []"
    "b' \<le> (f', h')" "\<forall>c\<in>set cs'. clique_fitness c \<le> f'"
    "(k, f', h') = (bi', b') \<or> Suc i \<le> k \<and> k < Suc i + length cs \<and> clique_fitness (cs' ! (k - Suc i)) = f'"
    unfolding acc by blast
  define c' where "c' = c\<lparr>clique_fitness := f, is_blockclique := False\<rparr>"
  have ge: "best \<le> b'" "(f, h) \<le> b'" using acc by (auto simp: acc_def split: if_splits)
  have "best \<le> (f', h')" "f \<le> f'" using ge rest(5) by (auto intro: order_trans simp: less_eq_prod_def)
  moreover have "(k, f', h') = (bi, best) \<or> i \<le> k \<and> k < i + length (c # cs) \<and> clique_fitness ((c' # cs') ! (k - i)) = f'"
    using rest(7)
  proof
    assume "(k, f', h') = (bi', b')"
    then show ?thesis using acc by (auto simp: acc_def c'_def split: if_splits)
  next
    assume *: "Suc i \<le> k \<and> k < Suc i + length cs \<and> clique_fitness (cs' ! (k - Suc i)) = f'"
    then have "k - i = Suc (k - Suc i)" by (simp add: Suc_diff_Suc Suc_le_eq)
    with * show ?thesis by simp
  qed
  moreover have "fitness_loop ord V sts i (bi, best) (c # cs) = Inr (k, c' # cs')"
    using fh(1) rest(1) by (simp add: acc_def c'_def)
  moreover have "scored sts (c' # cs')" "map block_ids (c' # cs') = map block_ids (c # cs)"
    "filter is_blockclique (c' # cs') = []" "\<forall>c\<in>set (c' # cs'). clique_fitness c \<le> f'"
    using rest fh(2) \<open>f \<le> f'\<close> by (simp_all add: scored_def c'_def)
  ultimately show ?case by blast
qed

lemma filter_update_one:
  assumes "filter P xs = []" "k < length xs" "P y"
  shows "filter P (xs[k := y]) = [y]"
proof -
  have "filter P (take k xs) = []" "filter P (drop (Suc k) xs) = []"
    using assms(1) by (auto simp: filter_empty_conv dest: in_set_takeD in_set_dropD)
  then show ?thesis using assms(2,3) by (simp add: upd_conv_take_nth_drop)
qed

lemma map_update_same:
  assumes "k < length xs" "f y = f (xs ! k)"
  shows "map f (xs[k := y]) = map f xs"
  using assms by (metis map_update list_update_id map_update nth_map length_map)

lemma compute_fitness_ok:
  assumes ord: "traverses ord" and ne: "max_cliques st \<noteq> []"
    and act: "\<And>c b. c \<in> set (max_cliques st) \<Longrightarrow> b |\<in>| block_ids c \<Longrightarrow> active_at (statuses st) b \<noteq> None"
    and fit: "\<And>c. c \<in> set (max_cliques st) \<Longrightarrow> set_fitness (statuses st) (block_ids c) < 2 ^ 64"
  obtains k cs where "compute_fitness_find_blockclique ord V st = Inr (k, st\<lparr>max_cliques := cs\<rparr>)"
    "map block_ids cs = map block_ids (max_cliques st)" "scored (statuses st) cs"
    "k < length cs" "filter is_blockclique cs = [cs ! k]" "\<forall>c\<in>set cs. clique_fitness c \<le> clique_fitness (cs ! k)"
proof -
  from fitness_loop_ok [where cs = "max_cliques st" and sts = "statuses st" and i = 0 and bi = 0
      and best = "(0, 0)" and V = V, OF ord] act fit
  obtain k cs f h where l: "fitness_loop ord V (statuses st) 0 (0, 0, 0) (max_cliques st) = Inr (k, cs)"
    and cs: "map block_ids cs = map block_ids (max_cliques st)" "scored (statuses st) cs" "filter is_blockclique cs = []"
    and f: "\<forall>c\<in>set cs. clique_fitness c \<le> f"
      "(k, f, h) = (0, 0, 0) \<or> 0 \<le> k \<and> k < 0 + length (max_cliques st) \<and> clique_fitness (cs ! (k - 0)) = f"
    by blast
  have len: "length cs = length (max_cliques st)" using cs(1) by (metis length_map)
  have k: "k < length cs" using f(2) ne len by auto
  have fk: "clique_fitness (cs ! k) = f" using f(1) [THEN bspec, OF nth_mem [OF k]] f(2) by auto
  define d where "d = (cs ! k)\<lparr>is_blockclique := True\<rparr>"
  have d: "block_ids d = block_ids (cs ! k)" "clique_fitness d = f" "is_blockclique d" by (simp_all add: d_def fk)
  have "compute_fitness_find_blockclique ord V st = Inr (k, st\<lparr>max_cliques := cs[k := d]\<rparr>)"
    using l k by (simp add: compute_fitness_find_blockclique_def vec_modify_def d_def)
  moreover have "map block_ids (cs[k := d]) = map block_ids (max_cliques st)"
    using map_update_same [OF k d(1)] cs(1) by simp
  moreover have "scored (statuses st) (cs[k := d])"
  proof -
    have "unat (clique_fitness d) = set_fitness (statuses st) (block_ids d)"
      using cs(2) [unfolded scored_def, THEN bspec, OF nth_mem [OF k]] d fk by simp
    then show ?thesis
      using cs(2) set_update_subset_insert [of cs k d] unfolding scored_def by blast
  qed
  moreover have "filter is_blockclique (cs[k := d]) = [cs[k := d] ! k]"
    using filter_update_one [OF cs(3) k d(3)] k by simp
  moreover have "\<forall>c\<in>set (cs[k := d]). clique_fitness c \<le> clique_fitness (cs[k := d] ! k)"
    using f(1) k d(2) set_update_subset_insert [of cs k d] by auto
  ultimately show thesis using that k by (metis length_list_update)
qed

section \<open>The best parents\<close>

lemma best_parents_ok:
  assumes "\<And>b. b \<in> set hs \<Longrightarrow> \<exists>a. active_at sts b = Some a \<and> unat (thread (active_slot a)) < length bps"
  shows "\<exists>bps'. for_each (update_best_parent sts) hs bps = Inr bps' \<and> length bps' = length bps"
  using assms
proof (induction hs arbitrary: bps)
  case (Cons b hs)
  obtain a where a: "active_at sts b = Some a" "unat (thread (active_slot a)) < length bps"
    using Cons.prems [of b] by auto
  then obtain bps' where "update_best_parent sts b bps = Inr bps'" "length bps' = length bps"
    by (auto simp: update_best_parent_def vec_modify_def)
  then show ?case using Cons.IH [of bps'] Cons.prems by auto
qed simp

section \<open>Stale blocks\<close>

lemma list_stale_blocks_eq:
  "b |\<in>| list_stale_blocks th cs \<longleftrightarrow>
     (\<exists>c\<in>set cs. b |\<in>| block_ids c \<and> clique_fitness c < th) \<and>
     \<not> (\<exists>c\<in>set cs. b |\<in>| block_ids c \<and> th \<le> clique_fitness c)"
proof -
  define f where "f = (\<lambda>i (high, low). if th \<le> clique_fitness (cs ! i) then (high |\<union>| block_ids (cs ! i), low)
            else (high, low |\<union>| block_ids (cs ! i)))"
  have fold: "b |\<in>| fst (fold f is hl) \<longleftrightarrow> b |\<in>| fst hl \<or> (\<exists>i\<in>set is. b |\<in>| block_ids (cs ! i) \<and> th \<le> clique_fitness (cs ! i))"
    "b |\<in>| snd (fold f is hl) \<longleftrightarrow> b |\<in>| snd hl \<or> (\<exists>i\<in>set is. b |\<in>| block_ids (cs ! i) \<and> clique_fitness (cs ! i) < th)" for "is" hl
    by (induction "is" arbitrary: hl) (auto simp: f_def split: prod.splits)
  define idx where "idx = rev (sort_key (\<lambda>i. fcard (block_ids (cs ! i))) [0..<length cs])"
  have idx: "set idx = {0..<length cs}" by (simp add: idx_def)
  have ex: "(\<exists>i\<in>{0..<length cs}. P (cs ! i)) \<longleftrightarrow> (\<exists>c\<in>set cs. P c)" for P
    by (metis atLeastLessThan_iff in_set_conv_nth less_eq_nat.simps(1))
  have "list_stale_blocks th cs = snd (fold f idx ({||}, {||})) |-| fst (fold f idx ({||}, {||}))"
    by (simp add: list_stale_blocks_def idx_def f_def case_prod_unfold Let_def)
  then have "b |\<in>| list_stale_blocks th cs \<longleftrightarrow>
      b |\<in>| snd (fold f idx ({||}, {||})) \<and> b |\<notin>| fst (fold f idx ({||}, {||}))" by simp
  then show ?thesis unfolding fold idx ex [where P = "\<lambda>c. b |\<in>| block_ids c \<and> th \<le> clique_fitness c"]
      ex [where P = "\<lambda>c. b |\<in>| block_ids c \<and> clique_fitness c < th"] by simp
qed

lemma modify_children_relinked:
  assumes "modify_children th f p sts = Inr sts'"
  shows "relinked sts sts'"
proof (cases "active_at sts p")
  case None
  with assms show ?thesis by (simp add: modify_children_def)
next
  case (Some a)
  obtain cs where cs: "vec_modify (unat th) f (children a) = Inr cs"
    "sts' = modify_active (\<lambda>a. a\<lparr>children := cs\<rparr>) p sts"
    using assms Some by (auto simp: modify_children_def result_simps)
  then have "length cs = length (children a)" by (auto simp: vec_modify_def split: if_splits)
  then show ?thesis unfolding cs(2) using Some by (intro relinked_modify_active) (simp add: same_core_def)
qed

lemma for_each_modify_children_relinked:
  "for_each (modify_children th f) ps sts = Inr sts' \<Longrightarrow> relinked sts sts'"
proof (induction ps arbitrary: sts)
  case (Cons p ps)
  then show ?case
    by (auto simp: result_simps intro: relinked_trans [OF modify_children_relinked])
qed simp

lemma maximal_nonempty:
  assumes "gi_wf gi" "b |\<in>| fmdom gi"
  shows "{||} \<notin> maximal_compatible gi"
  using assms by (auto simp: maximal_compatible_def compatible_def incomp_of_irrefl)

lemma cliques_remove_absent:
  assumes "gi_wf gi" "b |\<in>| fmdom gi" "cliques_ok gi cs" "\<forall>c\<in>set cs. b |\<notin>| block_ids c"
  shows "cliques_remove b f cs = cs"
proof -
  have "map (\<lambda>c. if b |\<in>| block_ids c
      then c\<lparr>block_ids := block_ids c |-| {|b|}, clique_fitness := clique_fitness c - f\<rparr> else c) cs = cs"
    using assms(4) by (simp add: map_idI)
  moreover have "filter (\<lambda>c. block_ids c \<noteq> {||}) cs = cs"
    using maximal_nonempty [OF assms(1,2)] assms(3) by (force simp: cliques_ok_def filter_id_conv)
  moreover have "cs \<noteq> []" using assms(3) by (simp add: cliques_ok_def)
  ultimately show ?thesis by (simp add: cliques_remove_def)
qed

text \<open>Removing a block changes its status and the links of other blocks, and nothing else.\<close>

lemma remove_block_eq:
  assumes core: "graph_core st" and b: "fmlookup (statuses st) b = Some (Active ab sob)" "\<not> is_final ab"
  obtains sts bs n where "relinked (fmdrop b (statuses st)) sts"
    "block_statuses bs = fmupd b
      (Discarded (active_slot ab) (creator_address ab) (map fst (parents ab)) StaleBlock n) sts"
    "indexes_ok bs"
    "remove_block ord b st = Inr (st\<lparr>gi_head := gi_remove b (gi_head st),
       max_cliques := cliques_remove b (fitness ab) (max_cliques st),
       new_stale_blocks := fmupd b (creator_address ab, active_slot ab) (new_stale_blocks st), blocks_state := bs\<rparr>)"
proof -
  define cb :: "'a block_status option \<Rightarrow> 'a statuses \<Rightarrow> consensus_error + active_block \<times> 'a block_status option \<times> 'a statuses"
    where "cb = (\<lambda>block_status sts. case block_status of
       Some (Active ab sob) \<Rightarrow>
         if is_final ab then Inl (ConsensusPanic (RemovedFinal b))
         else rbind (for_each (modify_children (thread (active_slot ab)) (fmdrop b)) (map fst (parents ab)) sts) (\<lambda>sts'.
           Inr (ab, Some (Discarded (active_slot ab) (creator_address ab) (map fst (parents ab)) StaleBlock
             (sequence_counter (blocks_state st))), sts'))
     | _ \<Rightarrow> Inl (ConsensusPanic (StatusInconsistency b)))"
  have ids: "map_option status_id (fmlookup m' c) = map_option status_id (fmlookup m c)"
    if "cb s m = Inr (r', s', m')" for s m r' s' m' c
    using that by (auto simp: cb_def result_simps split: option.splits block_status.splits if_splits
        dest!: for_each_modify_children_relinked relinked_status_id)
  have "unat (thread (active_slot ab)) < length (children a)"
    if "active_at (fmdrop b (statuses st)) c = Some a" for c a
  proof -
    have "active_at (statuses st) c = Some a" using that by (auto simp: active_at_def split: if_splits)
    moreover have "active_at (statuses st) b = Some ab" using b by (simp add: active_at_def)
    ultimately show ?thesis using core unfolding graph_core_def by metis
  qed
  then obtain sts where sts: "for_each (modify_children (thread (active_slot ab)) (fmdrop b)) (map fst (parents ab))
      (fmdrop b (statuses st)) = Inr sts" "relinked (fmdrop b (statuses st)) sts"
    using for_each_modify_children [of "fmdrop b (statuses st)" "thread (active_slot ab)" "fmdrop b" "map fst (parents ab)"] by blast
  have "\<exists>bs n. transition_map ord b cb (blocks_state st) = Inr (ab, bs) \<and>
      block_statuses bs = fmupd b (Discarded (active_slot ab) (creator_address ab) (map fst (parents ab)) StaleBlock n) sts"
    using b sts(1) by (auto simp: transition_map_def Let_def cb_def)
  then obtain bs n where bs: "transition_map ord b cb (blocks_state st) = Inr (ab, bs)"
    "block_statuses bs = fmupd b (Discarded (active_slot ab) (creator_address ab) (map fst (parents ab)) StaleBlock n) sts"
    by blast
  have "indexes_ok bs"
    using transition_map_indexes [OF _ bs(1) ids] core by (simp add: graph_core_def)
  moreover have "remove_block ord b st = Inr (st\<lparr>gi_head := gi_remove b (gi_head st),
       max_cliques := cliques_remove b (fitness ab) (max_cliques st),
       new_stale_blocks := fmupd b (creator_address ab, active_slot ab) (new_stale_blocks st), blocks_state := bs\<rparr>)"
    using bs(1) unfolding remove_block_def cb_def by (simp add: Let_def)
  ultimately show thesis using that sts(2) bs(2) by blast
qed

lemma advanced_status_refl: "advanced_status x x"
  by (cases "(x, x)" rule: advanced_status.cases) (auto simp: evolved_def)

lemma advanced_refl [simp]: "advanced m m"
  by (simp add: advanced_def advanced_status_refl)

lemma advanced_status_trans: "advanced_status x y \<Longrightarrow> advanced_status y z \<Longrightarrow> advanced_status x z"
  by (cases "(x, y)" rule: advanced_status.cases) (auto simp: evolved_def)

lemma advanced_trans: "advanced l m \<Longrightarrow> advanced m n \<Longrightarrow> advanced l n"
  unfolding advanced_def by (blast intro: advanced_status_trans)

lemma evolved_same_core: "same_core a a' \<Longrightarrow> evolved a a'"
  by (simp add: same_core_def evolved_def)

lemma advanced_relinked:
  assumes "relinked m m'"
  shows "advanced m m'"
  unfolding advanced_def
proof
  fix b
  show "advanced_status (fmlookup m b) (fmlookup m' b)"
    by (rule relinked_cases [OF assms, of b]) (simp_all add: advanced_status_refl evolved_same_core)
qed

lemma advanced_remove:
  assumes "relinked (fmdrop b m) sts" "fmlookup m b = Some (Active a s)" "\<not> is_final a"
  shows "advanced m (fmupd b (Discarded (active_slot a) (creator_address a) (map fst (parents a)) StaleBlock n) sts)"
  unfolding advanced_def
proof
  fix c
  have "advanced_status (fmlookup (fmdrop b m) c) (fmlookup sts c)"
    using advanced_relinked [OF assms(1)] by (simp add: advanced_def)
  then show "advanced_status (fmlookup m c) (fmlookup
      (fmupd b (Discarded (active_slot a) (creator_address a) (map fst (parents a)) StaleBlock n) sts) c)"
    using assms(2,3) by (cases "c = b") simp_all
qed

lemma set_fitness_cong: "(\<And>b. b |\<in>| s \<Longrightarrow> block_fitness m' b = block_fitness m b) \<Longrightarrow> set_fitness m' s = set_fitness m s"
  unfolding set_fitness_def by (rule sum.cong) auto

lemma active_at_removed:
  assumes "relinked (fmdrop b m) sts" "m' = fmupd b (Discarded sl cr ps re n) sts"
  shows "active_at m' b = None"
    and "c \<noteq> b \<Longrightarrow> active_at m' c = Some a' \<Longrightarrow> \<exists>a. active_at m c = Some a \<and> same_core a a'"
    and "c \<noteq> b \<Longrightarrow> active_at m c = Some a \<Longrightarrow> \<exists>a'. active_at m' c = Some a' \<and> same_core a a'"
    and "c \<noteq> b \<Longrightarrow> block_fitness m' c = block_fitness m c"
proof -
  have act: "active_at (fmdrop b m) c = (if c = b then None else active_at m c)"
    "active_at m' c = (if c = b then None else active_at sts c)" for c
    by (simp_all add: active_at_def assms(2))
  show "active_at m' b = None" by (simp add: act)
  show "\<exists>a. active_at m c = Some a \<and> same_core a a'" if "c \<noteq> b" "active_at m' c = Some a'"
    using relinked_active(3) [OF assms(1), of c a'] that by (simp add: act)
  show "\<exists>a'. active_at m' c = Some a' \<and> same_core a a'" if "c \<noteq> b" "active_at m c = Some a"
    using relinked_active(2) [OF assms(1), of c a] that by (simp add: act)
  show "block_fitness m' c = block_fitness m c" if "c \<noteq> b"
    using block_fitness_relinked [OF assms(1), of c] that by (simp add: block_fitness_def act)
qed

lemma remove_block_inv:
  assumes inv: "graph_inv_but r st" and b: "b \<in> r"
  shows "\<exists>st'. remove_block ord b st = Inr st' \<and> graph_inv_but (r - {b}) st' \<and>
    advanced (statuses st) (statuses st') \<and> max_cliques st' = max_cliques st \<and>
    config st' = config st \<and> latest_final_blocks_periods st' = latest_final_blocks_periods st \<and>
    new_final_blocks st' = new_final_blocks st"
proof -
  have core: "graph_core st" and dom: "gi_domain {} st" and cl: "cliques_ok (gi_head st) (max_cliques st)"
    and sc: "scored (statuses st) (max_cliques st)" and el: "elected (max_cliques st)"
    and cov: "covers r (gi_head st) (max_cliques st)"
    using inv by (simp_all add: graph_inv_but_def)
  have wf: "gi_wf (gi_head st)" using core by (simp add: graph_core_def)
  have bd: "b |\<in>| fmdom (gi_head st)" using cov b by (auto simp: covers_def)
  have bc: "\<forall>c\<in>set (max_cliques st). b |\<notin>| block_ids c" using cov b by (auto simp: covers_def)
  obtain ab where ab: "active_at (statuses st) b = Some ab" "\<not> is_final ab"
    using dom bd by (auto simp: gi_domain_def)
  then obtain sob where lk: "fmlookup (statuses st) b = Some (Active ab sob)"
    by (auto simp: active_at_def split: option.splits block_status.splits)
  obtain sts bs n where rel: "relinked (fmdrop b (statuses st)) sts"
    and bs: "block_statuses bs = fmupd b
      (Discarded (active_slot ab) (creator_address ab) (map fst (parents ab)) StaleBlock n) sts" "indexes_ok bs"
    and rm: "remove_block ord b st = Inr (st\<lparr>gi_head := gi_remove b (gi_head st),
       max_cliques := cliques_remove b (fitness ab) (max_cliques st),
       new_stale_blocks := fmupd b (creator_address ab, active_slot ab) (new_stale_blocks st), blocks_state := bs\<rparr>)"
    using remove_block_eq [OF core lk ab(2)] .
  define st' where "st' = st\<lparr>gi_head := gi_remove b (gi_head st),
       max_cliques := cliques_remove b (fitness ab) (max_cliques st),
       new_stale_blocks := fmupd b (creator_address ab, active_slot ab) (new_stale_blocks st), blocks_state := bs\<rparr>"
  note act = active_at_removed [OF rel bs(1)]
  have same: "max_cliques st' = max_cliques st"
    using cliques_remove_absent [OF wf bd cl bc] by (simp add: st'_def)
  have sts': "statuses st' = block_statuses bs" and gi': "gi_head st' = gi_remove b (gi_head st)"
    by (simp_all add: st'_def)
  have "graph_core st'"
    using core bs(2) gi_wf_gi_remove [OF wf, of b] act(1,2) unfolding graph_core_def st'_def
    by (auto simp: same_core_def) (metis option.distinct(1))+
  moreover have "gi_domain {} st'"
    using dom act unfolding gi_domain_def sts' gi' fmdom_gi_remove same_core_def
    by (metis empty_iff fminus_iff fsingleton_iff option.distinct(1))
  moreover have "cliques_ok (gi_head st') (max_cliques st')"
    using cl maximal_gi_remove [OF wf] bc unfolding same gi' cliques_ok_def by blast
  moreover have "scored (statuses st') (max_cliques st')"
    using sc set_fitness_cong [of _ "block_statuses bs" "statuses st"] act(4) bc
    unfolding same sts' scored_def by metis
  moreover have "covers (r - {b}) (gi_head st') (max_cliques st')"
    using cov bc unfolding same gi' covers_def by auto
  moreover have "advanced (statuses st) (statuses st')"
    unfolding sts' bs(1) by (rule advanced_remove [OF rel lk ab(2)])
  ultimately show ?thesis
    using rm el same unfolding st'_def [symmetric] by (auto simp: graph_inv_but_def st'_def)
qed

lemma remove_stale_ok:
  assumes inv: "graph_inv_but (set bs) st" and "distinct bs"
  shows "\<exists>st'. for_each (remove_block ord) bs st = Inr st' \<and> graph_inv st' \<and>
    advanced (statuses st) (statuses st') \<and> max_cliques st' = max_cliques st \<and>
    config st' = config st \<and> latest_final_blocks_periods st' = latest_final_blocks_periods st \<and>
    new_final_blocks st' = new_final_blocks st"
proof -
  define P where "P = (\<lambda>bs st'. distinct bs \<and> graph_inv_but (set bs) st' \<and>
    advanced (statuses st) (statuses st') \<and> max_cliques st' = max_cliques st \<and>
    config st' = config st \<and> latest_final_blocks_periods st' = latest_final_blocks_periods st \<and>
    new_final_blocks st' = new_final_blocks st)"
  have step: "\<exists>s''. remove_block ord b s' = Inr s'' \<and> P rest s''" if p: "P (b # rest) s'" for b rest s'
  proof -
    have b: "b \<in> set (b # rest)" and i: "graph_inv_but (set (b # rest)) s'" using p by (simp_all add: P_def)
    have "set (b # rest) - {b} = set rest" using p by (simp add: P_def)
    with remove_block_inv [OF i b, of ord] p show ?thesis by (auto simp: P_def intro: advanced_trans)
  qed
  have "P bs st" using assms by (simp add: P_def)
  with for_each_inv [where P = P and f = "remove_block ord" and xs = bs and s = st] step
  show ?thesis by (auto simp: P_def)
qed

text \<open>Dropping the cliques of low fitness leaves the stale blocks, and only them, uncovered.\<close>

lemma retain_cliques:
  assumes "cliques_ok gi cs" "scored sts cs" "covers {} gi cs" "k < length cs"
    "filter is_blockclique cs = [cs ! k]" "\<forall>c\<in>set cs. clique_fitness c \<le> clique_fitness (cs ! k)"
    "th \<le> clique_fitness (cs ! k)"
  defines "cs' \<equiv> filter (\<lambda>c. th \<le> clique_fitness c) cs"
  shows "cliques_ok gi cs'" "scored sts cs'" "elected cs'" "covers (fset (list_stale_blocks th cs)) gi cs'"
proof -
  have mem: "cs ! k \<in> set cs'" using assms(4,7) by (simp add: cs'_def)
  then have "cs' \<noteq> []" by auto
  moreover have "distinct (map block_ids cs')" using assms(1) by (simp add: cs'_def cliques_ok_def distinct_map_filter)
  ultimately show "cliques_ok gi cs'" using assms(1) by (auto simp: cliques_ok_def cs'_def)
  show "scored sts cs'" using assms(2) by (simp add: scored_def cs'_def)
  have "filter is_blockclique cs' = filter (\<lambda>c. th \<le> clique_fitness c) (filter is_blockclique cs)"
    by (simp add: cs'_def conj_commute)
  then have "filter is_blockclique cs' = [cs ! k]" using assms(5,7) by simp
  then show "elected cs'" using assms(6) by (auto simp: elected_def cs'_def)
  show "covers (fset (list_stale_blocks th cs)) gi cs'"
    using assms(3) unfolding covers_def cs'_def by (auto simp: list_stale_blocks_eq not_le [symmetric])
qed

section \<open>Final blocks\<close>

lemma unat_sum_list:
  assumes "(\<Sum>x\<leftarrow>xs. unat (f x)) < 2 ^ 64"
  shows "unat (\<Sum>x\<leftarrow>xs. f x :: u64) = (\<Sum>x\<leftarrow>xs. unat (f x))"
  using assms
proof (induction xs)
  case (Cons x xs)
  then show ?case using unat_add_no_overflow [of "f x" "\<Sum>x\<leftarrow>xs. f x"] by simp
qed simp

lemma set_fitness_mono: "s |\<subseteq>| t \<Longrightarrow> set_fitness sts s \<le> set_fitness sts t"
  unfolding set_fitness_def by (intro sum_mono2) (auto simp: less_eq_fset.rep_eq)

text \<open>The fitness of the descendants in a clique does not overflow.\<close>

lemma unat_descendants_fitness:
  assumes "traverses ord" "unat (clique_fitness c) = set_fitness sts (block_ids c)"
  shows "unat (descendants_fitness ord i sts c b ab) = set_fitness sts (descendants ab |\<inter>| block_ids c)"
proof -
  define s where "s = descendants ab |\<inter>| block_ids c"
  define hs where "hs = ord (Final_Descendants i b) s"
  define fit where "fit = (\<lambda>h. case active_at sts h of Some a \<Rightarrow> fitness a | None \<Rightarrow> 0)"
  have fit: "unat (fit h) = block_fitness sts h" for h
    by (simp add: fit_def block_fitness_def split: option.split)
  have sum: "(\<Sum>h\<leftarrow>hs. unat (fit h)) = set_fitness sts s"
    using assms(1) by (simp add: fit set_fitness_def hs_def sum_list_distinct_conv_sum_set)
  have "set_fitness sts s \<le> unat (clique_fitness c)"
    unfolding assms(2) by (rule set_fitness_mono) (auto simp: s_def)
  then have "(\<Sum>h\<leftarrow>hs. unat (fit h)) < 2 ^ 64" using u64_less_2p64 [of "clique_fitness c"] unfolding sum by linarith
  then have "unat (\<Sum>h\<leftarrow>hs. fit h) = set_fitness sts s" using unat_sum_list sum by metis
  then show ?thesis by (simp add: descendants_fitness_def s_def hs_def fit_def)
qed

lemma intersect_cliques_iff:
  "b |\<in>| intersect_cliques cs is candidates \<longleftrightarrow> b |\<in>| candidates \<and> (\<forall>i\<in>set is. b |\<in>| block_ids (cs ! i))"
  by (induction cs "is" candidates rule: intersect_cliques.induct) (auto simp: Let_def)

definition final_in :: "hash_order \<Rightarrow> u64 \<Rightarrow> 'st statuses \<Rightarrow> clique list \<Rightarrow> nat \<Rightarrow> block_id \<Rightarrow> bool" where
  "final_in ord delta sts cs i b \<longleftrightarrow>
     (\<exists>ab. active_at sts b = Some ab \<and> delta < descendants_fitness ord i sts (cs ! i) b ab)"

lemma for_each_check_candidate:
  assumes "\<And>b. b \<in> set hs \<Longrightarrow> active_at sts b \<noteq> None"
    and "new = fset_of_list (filter (final_in ord delta sts cs i) hs)"
  shows "for_each (check_candidate ord delta i sts (cs ! i)) hs (candidates, finals) =
    Inr (candidates |-| new, finals |\<union>| new)"
  using assms(1) unfolding assms(2)
proof (induction hs arbitrary: candidates finals)
  case (Cons b hs)
  obtain ab where ab: "active_at sts b = Some ab" using Cons.prems [of b] by auto
  have "active_at sts c \<noteq> None" if "c \<in> set hs" for c using Cons.prems that by simp
  note IH = Cons.IH [OF this]
  have "check_candidate ord delta i sts (cs ! i) b (candidates, finals) =
      (if final_in ord delta sts cs i b then Inr (candidates |-| {|b|}, finsert b finals) else Inr (candidates, finals))"
    by (simp add: check_candidate_def final_in_def ab)
  moreover have "(candidates |-| {|b|}) |-| s = candidates |-| finsert b s" "finsert b finals |\<union>| s = finals |\<union>| finsert b s" for s
    by auto
  ultimately show ?case by (simp add: IH)
qed simp

lemma final_loop_ok:
  assumes ord: "traverses ord" and "\<And>b. b |\<in>| candidates \<Longrightarrow> active_at sts b \<noteq> None"
  shows "\<exists>F. final_loop ord delta sts cs is (candidates, finals) = Inr F \<and>
    (\<forall>b. b |\<in>| F \<longleftrightarrow> b |\<in>| finals \<or> b |\<in>| candidates \<and> (\<exists>i\<in>set is. final_in ord delta sts cs i b))"
  using assms(2)
proof (induction "is" arbitrary: candidates finals)
  case (Cons i "is")
  show ?case
  proof (cases "candidates = {||}")
    case False
    define hs where "hs = ord (Final_Candidates i) candidates"
    define new where "new = fset_of_list (filter (final_in ord delta sts cs i) hs)"
    have hs: "set hs = fset candidates" using ord by (simp add: hs_def)
    have "for_each (check_candidate ord delta i sts (cs ! i)) hs (candidates, finals) =
        Inr (candidates |-| new, finals |\<union>| new)"
      by (rule for_each_check_candidate [OF _ new_def]) (use Cons.prems hs in auto)
    moreover have "active_at sts b \<noteq> None" if "b |\<in>| candidates |-| new" for b using Cons.prems that by simp
    then obtain F where F: "final_loop ord delta sts cs is (candidates |-| new, finals |\<union>| new) = Inr F"
      "\<forall>b. b |\<in>| F \<longleftrightarrow> b |\<in>| finals |\<union>| new \<or> b |\<in>| candidates |-| new \<and> (\<exists>i\<in>set is. final_in ord delta sts cs i b)"
      using Cons.IH [of "candidates |-| new" "finals |\<union>| new"] by blast
    moreover have "b |\<in>| new \<longleftrightarrow> b |\<in>| candidates \<and> final_in ord delta sts cs i b" for b
      using hs by (auto simp: new_def fset_of_list_elem)
    ultimately show ?thesis using False by (auto simp: hs_def [symmetric])
  qed simp
qed simp

text \<open>A block is listed when every clique contains it and, in one, its descendants weigh enough.\<close>

definition meets_finality :: "'st consensus_state \<Rightarrow> block_id \<Rightarrow> bool" where
  "meets_finality st b \<longleftrightarrow> (\<forall>c\<in>set (max_cliques st). b |\<in>| block_ids c) \<and>
     (\<exists>c\<in>set (max_cliques st). \<exists>a. active_at (statuses st) b = Some a \<and>
        unat (cfg_delta_f0 (config st)) < set_fitness (statuses st) (descendants a |\<inter>| block_ids c))"

lemma clique_maximal: "cliques_ok gi cs \<Longrightarrow> c \<in> set cs \<Longrightarrow> block_ids c \<in> maximal_compatible gi"
  by (auto simp: cliques_ok_def)

lemma clique_in_dom: "cliques_ok gi cs \<Longrightarrow> c \<in> set cs \<Longrightarrow> b |\<in>| block_ids c \<Longrightarrow> b |\<in>| fmdom gi"
  using maximal_compatible_compatible [OF clique_maximal] unfolding compatible_def by blast

lemma list_final_blocks_ok:
  assumes ord: "traverses ord" and inv: "graph_inv st"
  obtains F where "list_final_blocks ord st = Inr F" "\<And>b. b |\<in>| F \<longleftrightarrow> meets_finality st b"
proof -
  define cs where "cs = max_cliques st"
  define sts where "sts = statuses st"
  define delta where "delta = cfg_delta_f0 (config st)"
  define idx where "idx = sort_key (\<lambda>i. fcard (block_ids (cs ! i))) [0..<length cs]"
  define high where "high = rev (sort_key (\<lambda>i. clique_fitness (cs ! i)) (filter (\<lambda>i. delta < clique_fitness (cs ! i)) idx))"
  have cl: "cliques_ok (gi_head st) cs" and sc: "scored sts cs" and dom: "gi_domain {} st"
    using inv by (simp_all add: graph_inv_but_def cs_def sts_def)
  have setidx: "set idx = {0..<length cs}" by (simp add: idx_def)
  then obtain i "is" where idx: "idx = i # is" using cl by (cases idx) (auto simp: cliques_ok_def)
  define cand where "cand = intersect_cliques cs is (block_ids (cs ! i))"
  have all: "(\<forall>j\<in>{0..<length cs}. P (cs ! j)) \<longleftrightarrow> (\<forall>c\<in>set cs. P c)" for P
    by (auto simp: all_set_conv_all_nth)
  have "b |\<in>| cand \<longleftrightarrow> (\<forall>j\<in>set idx. b |\<in>| block_ids (cs ! j))" for b
    by (simp add: cand_def intersect_cliques_iff idx)
  then have cand: "b |\<in>| cand \<longleftrightarrow> (\<forall>c\<in>set cs. b |\<in>| block_ids c)" for b
    by (simp only: setidx all [where P = "\<lambda>c. b |\<in>| block_ids c"])
  have mem: "cs ! j \<in> set cs" if "j \<in> set idx" for j using that setidx by simp
  have act: "active_at sts b \<noteq> None" if "b |\<in>| cand" for b
  proof -
    have "cs ! i \<in> set cs" "b |\<in>| block_ids (cs ! i)" using that cand mem [of i] idx by simp_all
    then have "b |\<in>| fmdom (gi_head st)" by (rule clique_in_dom [OF cl])
    then show ?thesis using dom by (auto simp: gi_domain_def sts_def)
  qed
  obtain F where F: "final_loop ord delta sts cs high (cand, {||}) = Inr F"
    "\<forall>b. b |\<in>| F \<longleftrightarrow> b |\<in>| {||} \<or> b |\<in>| cand \<and> (\<exists>j\<in>set high. final_in ord delta sts cs j b)"
    using final_loop_ok [OF ord act, of cand delta cs high "{||}"] by blast
  have fin: "j \<in> set high \<and> final_in ord delta sts cs j b \<longleftrightarrow> j < length cs \<and> (\<exists>a. active_at sts b = Some a \<and>
      unat delta < set_fitness sts (descendants a |\<inter>| block_ids (cs ! j)))" for j b
  proof (cases "j < length cs")
    case True
    then have fit: "unat (clique_fitness (cs ! j)) = set_fitness sts (block_ids (cs ! j))" using sc by (simp add: scored_def)
    have d: "delta < descendants_fitness ord j sts (cs ! j) b a \<longleftrightarrow>
        unat delta < set_fitness sts (descendants a |\<inter>| block_ids (cs ! j))" for a
      by (simp add: word_less_nat_alt unat_descendants_fitness [OF ord fit])
    have "set_fitness sts (descendants a |\<inter>| block_ids (cs ! j)) \<le> unat (clique_fitness (cs ! j))" for a
      unfolding fit by (rule set_fitness_mono) auto
    then have imp: "delta < clique_fitness (cs ! j)" if "unat delta < set_fitness sts (descendants a |\<inter>| block_ids (cs ! j))" for a
      using that unfolding word_less_nat_alt by (meson less_le_trans)
    have "j \<in> set high \<longleftrightarrow> delta < clique_fitness (cs ! j)" using True setidx by (simp add: high_def)
    then show ?thesis using True imp unfolding final_in_def d by blast
  qed (auto simp: high_def setidx)
  have "b |\<in>| F \<longleftrightarrow> meets_finality st b" for b
  proof -
    define Q where "Q = (\<lambda>c :: clique. \<exists>a. active_at sts b = Some a \<and>
        unat delta < set_fitness sts (descendants a |\<inter>| block_ids c))"
    have "(\<exists>j\<in>set high. final_in ord delta sts cs j b) \<longleftrightarrow> (\<exists>j<length cs. Q (cs ! j))"
      using fin [of _ b] unfolding Q_def by blast
    also have "\<dots> \<longleftrightarrow> (\<exists>c\<in>set cs. Q c)" by (metis in_set_conv_nth)
    finally have "(\<exists>j\<in>set high. final_in ord delta sts cs j b) \<longleftrightarrow> (\<exists>c\<in>set cs. \<exists>a. active_at sts b = Some a \<and>
        unat delta < set_fitness sts (descendants a |\<inter>| block_ids c))" unfolding Q_def .
    then show ?thesis
      using F(2) cand by (simp add: meets_finality_def cs_def sts_def delta_def)
  qed
  moreover have "list_final_blocks ord st = Inr F"
    unfolding list_final_blocks_def Let_def cs_def [symmetric] sts_def [symmetric] delta_def [symmetric]
      idx_def [symmetric] high_def [symmetric]
    unfolding idx list.case cand_def [symmetric] by (rule F(1))
  ultimately show thesis using that by blast
qed

text \<open>A block that every clique contains conflicts with nothing, and can be taken out of all cliques.\<close>

lemma in_all_isolated:
  assumes wf: "gi_wf gi" and cl: "cliques_ok gi cs" and cov: "covers {} gi cs"
    and all: "\<forall>c\<in>set cs. b |\<in>| block_ids c"
  shows "incomp_of gi b = {||}"
proof (rule ccontr)
  assume "incomp_of gi b \<noteq> {||}"
  then obtain v where v: "v |\<in>| incomp_of gi b" by auto
  then have "v |\<in>| fmdom gi" using incomp_of_dom [OF wf] by blast
  then obtain c where c: "c \<in> set cs" "v |\<in>| block_ids c" using cov by (auto simp: covers_def)
  then have "compatible gi (block_ids c)" using maximal_compatible_compatible [OF clique_maximal [OF cl]] by blast
  with v c all show False unfolding compatible_def by blast
qed

definition drop_block :: "block_id \<Rightarrow> u64 \<Rightarrow> clique \<Rightarrow> clique" where
  "drop_block b f c = c\<lparr>block_ids := block_ids c |-| {|b|}, clique_fitness := clique_fitness c - f\<rparr>"

lemma drop_block_simps [simp]:
  "block_ids (drop_block b f c) = block_ids c |-| {|b|}"
  "clique_fitness (drop_block b f c) = clique_fitness c - f"
  "is_blockclique (drop_block b f c) = is_blockclique c"
  by (simp_all add: drop_block_def)

lemma empty_maximal:
  assumes "gi_wf gi" "{||} \<in> maximal_compatible gi"
  shows "fmdom gi = {||}"
  using maximal_nonempty [OF assms(1)] assms(2) by blast

lemma cliques_remove_all:
  assumes wf: "gi_wf gi" and cl: "cliques_ok gi cs" and cov: "covers {} gi cs"
    and all: "\<forall>c\<in>set cs. b |\<in>| block_ids c"
  shows "cliques_ok (gi_remove b gi) (map (drop_block b f) cs)"
    and "cliques_remove b f cs = map (drop_block b f) cs \<or>
      cliques_remove b f cs = [clique_default] \<and> fmdom (gi_remove b gi) = {||} \<and> (\<exists>c. cs = [c])"
proof -
  have iso: "incomp_of gi b = {||}" by (rule in_all_isolated [OF assms])
  have "inj_on (\<lambda>s. s |-| {|b|}) (block_ids ` set cs)"
    using all by (auto intro!: inj_onI)
  then have "distinct (map (\<lambda>s. s |-| {|b|}) (map block_ids cs))"
    using cl unfolding cliques_ok_def by (simp add: distinct_map comp_def inj_on_def)
  moreover have "block_ids c |-| {|b|} \<in> maximal_compatible (gi_remove b gi)" if "c \<in> set cs" for c
    using maximal_gi_remove_isolated [OF wf clique_maximal [OF cl that] _ iso] all that by blast
  ultimately show ok: "cliques_ok (gi_remove b gi) (map (drop_block b f) cs)"
    using cl by (auto simp: cliques_ok_def comp_def)
  have map: "map (\<lambda>c. if b |\<in>| block_ids c then c\<lparr>block_ids := block_ids c |-| {|b|}, clique_fitness := clique_fitness c - f\<rparr>
      else c) cs = map (drop_block b f) cs"
    using all by (simp add: drop_block_def)
  show "cliques_remove b f cs = map (drop_block b f) cs \<or>
      cliques_remove b f cs = [clique_default] \<and> fmdom (gi_remove b gi) = {||} \<and> (\<exists>c. cs = [c])"
  proof (cases "\<exists>c\<in>set (map (drop_block b f) cs). block_ids c = {||}")
    case False
    then have "filter (\<lambda>c. block_ids c \<noteq> {||}) (map (drop_block b f) cs) = map (drop_block b f) cs"
      by (simp only: filter_id_conv) blast
    moreover have "map (drop_block b f) cs \<noteq> []" using cl by (simp add: cliques_ok_def)
    ultimately show ?thesis unfolding cliques_remove_def map Let_def by simp
  next
    case True
    then have dom: "fmdom (gi_remove b gi) = {||}"
      using empty_maximal [OF gi_wf_gi_remove [OF wf]] clique_maximal [OF ok] by metis
    have emp: "block_ids c = {||}" if "c \<in> set (map (drop_block b f) cs)" for c
      using clique_in_dom [OF ok that] dom by auto
    have "filter (\<lambda>c. block_ids c \<noteq> {||}) (map (drop_block b f) cs) = []"
      unfolding filter_empty_conv not_not by (intro ballI emp)
    then have "cliques_remove b f cs = [clique_default]" unfolding cliques_remove_def map Let_def by simp
    moreover have "\<exists>c. cs = [c]"
    proof (cases cs)
      case (Cons c cs')
      have "cs' = []"
      proof (cases cs')
        case (Cons d ds)
        then have "block_ids (drop_block b f c) \<noteq> block_ids (drop_block b f d)"
          using \<open>cs = c # cs'\<close> ok by (simp add: cliques_ok_def)
        moreover have "block_ids (drop_block b f c) = {||}" "block_ids (drop_block b f d) = {||}"
          by (rule emp; simp add: Cons \<open>cs = c # cs'\<close>)+
        ultimately show ?thesis by metis
      qed
      with Cons show ?thesis by simp
    qed (use cl in \<open>simp add: cliques_ok_def\<close>)
    ultimately show ?thesis using dom by blast
  qed
qed

lemma scored_remove_all:
  assumes sc: "scored sts cs" and all: "\<forall>c\<in>set cs. b |\<in>| block_ids c"
    and fit: "block_fitness sts b = unat f" "\<And>c. block_fitness sts' c = block_fitness sts c"
    and c: "c \<in> set cs"
  shows "unat (clique_fitness (drop_block b f c)) = set_fitness sts' (block_ids (drop_block b f c))"
    and "f \<le> clique_fitness c"
proof -
  have b: "b \<in> fset (block_ids c)" using all c by blast
  have "set_fitness sts (block_ids c) = unat f + set_fitness sts (block_ids c |-| {|b|})"
    unfolding set_fitness_def using sum.remove [OF finite_fset b, of "block_fitness sts"] fit(1) by simp
  then have sum: "unat (clique_fitness c) = unat f + set_fitness sts (block_ids c |-| {|b|})"
    using sc c by (simp add: scored_def)
  then show le: "f \<le> clique_fitness c" by (simp add: word_le_nat_alt)
  have "set_fitness sts' (block_ids c |-| {|b|}) = set_fitness sts (block_ids c |-| {|b|})"
    by (rule set_fitness_cong) (rule fit(2))
  with sum le show "unat (clique_fitness (drop_block b f c)) = set_fitness sts' (block_ids (drop_block b f c))"
    by (simp add: unat_sub_no_underflow)
qed

lemma elected_remove_all:
  assumes el: "elected cs" and le: "\<And>c. c \<in> set cs \<Longrightarrow> f \<le> clique_fitness c"
  shows "elected (map (drop_block b f) cs)"
proof -
  obtain d where d: "filter is_blockclique cs = [d]" "\<forall>c\<in>set cs. clique_fitness c \<le> clique_fitness d"
    using el by (auto simp: elected_def)
  have "d \<in> set cs" using d(1) by (metis list.set_intros(1) filter_is_subset subsetD)
  have "filter is_blockclique (map (drop_block b f) cs) = [drop_block b f d]"
    using d(1) by (simp add: filter_map comp_def)
  moreover have "clique_fitness c - f \<le> clique_fitness d - f" if "c \<in> set cs" for c
    using d(2) le [OF that] le [OF \<open>d \<in> set cs\<close>] that
    by (simp add: word_le_nat_alt unat_sub_no_underflow diff_le_mono)
  ultimately show ?thesis by (auto simp: elected_def)
qed

text \<open>The cliques after a final block was taken out.\<close>

lemma cliques_remove_final:
  assumes wf: "gi_wf gi" and cl: "cliques_ok gi cs" and cov: "covers {} gi cs" and sc: "scored sts cs" and el: "elected cs"
    and all: "\<forall>c\<in>set cs. b |\<in>| block_ids c"
    and fit: "block_fitness sts b = unat f" "\<And>c. block_fitness sts' c = block_fitness sts c"
  defines "cs' \<equiv> cliques_remove b f cs" and "gi' \<equiv> gi_remove b gi"
  shows "cliques_ok gi' cs'" "covers {} gi' cs'" "scored sts' cs'" "elected cs'"
    "\<forall>c'\<in>set cs'. \<exists>c\<in>set cs. block_ids c' = block_ids c |-| {|b|}"
    "\<forall>c\<in>set cs. \<exists>c'\<in>set cs'. block_ids c' = block_ids c |-| {|b|}"
proof -
  note cr = cliques_remove_all [OF wf cl cov all, of f]
  have "cliques_ok gi' cs' \<and> covers {} gi' cs' \<and> scored sts' cs' \<and> elected cs' \<and>
    (\<forall>c'\<in>set cs'. \<exists>c\<in>set cs. block_ids c' = block_ids c |-| {|b|}) \<and>
    (\<forall>c\<in>set cs. \<exists>c'\<in>set cs'. block_ids c' = block_ids c |-| {|b|})"
    using cr(2)
  proof
    assume "cliques_remove b f cs = map (drop_block b f) cs"
    then have cs': "cs' = map (drop_block b f) cs" by (simp add: cs'_def)
    have "covers {} gi' cs'" using cov by (auto simp: covers_def cs' gi'_def)
    moreover have "scored sts' cs'"
      using scored_remove_all(1) [OF sc all fit] unfolding cs' scored_def by simp
    moreover have "elected cs'"
      unfolding cs' by (rule elected_remove_all [OF el scored_remove_all(2) [OF sc all fit]])
    ultimately show ?thesis using cr(1) by (auto simp: cs' gi'_def)
  next
    assume *: "cliques_remove b f cs = [clique_default] \<and> fmdom (gi_remove b gi) = {||} \<and> (\<exists>c. cs = [c])"
    then obtain c where c: "cs = [c]" "cs' = [clique_default]" "fmdom gi' = {||}" by (auto simp: cs'_def gi'_def)
    have "block_ids (drop_block b f c) |\<subseteq>| fmdom gi'"
      using clique_in_dom [OF cr(1)] c(1) by (auto simp: gi'_def)
    then have ids: "block_ids c |-| {|b|} = {||}" using c(3) by simp
    have "{||} \<in> maximal_compatible gi'"
      using c(3) by (simp add: maximal_compatible_def compatible_def)
    then show ?thesis
      by (simp add: ids c cliques_ok_def covers_def scored_def elected_def clique_default_def set_fitness_def)
  qed
  then show "cliques_ok gi' cs'" "covers {} gi' cs'" "scored sts' cs'" "elected cs'"
    "\<forall>c'\<in>set cs'. \<exists>c\<in>set cs. block_ids c' = block_ids c |-| {|b|}"
    "\<forall>c\<in>set cs. \<exists>c'\<in>set cs'. block_ids c' = block_ids c |-| {|b|}" by blast+
qed

definition raise_latest :: "block_id \<Rightarrow> slot \<Rightarrow> (block_id \<times> u64) list \<Rightarrow> (block_id \<times> u64) list" where
  "raise_latest b s l = l[unat (thread s) := (case l ! unat (thread s) of (latest, p) \<Rightarrow>
     if p < period s then (b, period s) else (latest, p))]"

lemma raise_latest_ge:
  assumes "unat (thread s) < length l"
  shows "length (raise_latest b s l) = length l"
    and "i < length l \<Longrightarrow> snd (l ! i) \<le> snd (raise_latest b s l ! i)"
    and "period s \<le> snd (raise_latest b s l ! unat (thread s))"
  using assms by (auto simp: raise_latest_def nth_list_update split: prod.splits)

lemma mark_final_block_eq:
  assumes core: "graph_core st" and fb: "active_at (statuses st) b = Some fb"
  shows "mark_final_block b st = Inr ((update_statuses (modify_active (\<lambda>a. a\<lparr>is_final := True\<rparr>) b) st)
    \<lparr>gi_head := gi_remove b (gi_head st),
     max_cliques := cliques_remove b (fitness fb) (max_cliques st),
     latest_final_blocks_periods := raise_latest b (active_slot fb) (latest_final_blocks_periods st),
     new_final_blocks := finsert b (new_final_blocks st)\<rparr>)"
proof -
  have "unat (thread (active_slot fb)) < length (latest_final_blocks_periods st)"
    using core fb unfolding graph_core_def by blast
  then show ?thesis
    using fb by (simp add: mark_final_block_def Let_def vec_modify_def raise_latest_def update_statuses_def)
qed

lemma modify_active_status_id:
  "map_option status_id (fmlookup (modify_active f b m) c) = map_option status_id (fmlookup m c)"
  by (simp add: modify_active_def split: option.split block_status.split)

lemma advanced_mark_final: "advanced m (modify_active (\<lambda>a. a\<lparr>is_final := True\<rparr>) b m)"
  unfolding advanced_def
proof
  fix c
  show "advanced_status (fmlookup m c) (fmlookup (modify_active (\<lambda>a. a\<lparr>is_final := True\<rparr>) b m) c)"
    by (cases "c = b") (auto simp: modify_active_def evolved_def advanced_status_refl split: option.split block_status.split)
qed

lemma graph_core_mark_final:
  assumes core: "graph_core st" and fb: "active_at (statuses st) b = Some fb"
  shows "graph_core ((update_statuses (modify_active (\<lambda>a. a\<lparr>is_final := True\<rparr>) b) st)
    \<lparr>gi_head := gi_remove b (gi_head st), max_cliques := cs,
     latest_final_blocks_periods := raise_latest b (active_slot fb) (latest_final_blocks_periods st),
     new_final_blocks := nf\<rparr>)" (is "graph_core ?st'")
proof -
  let ?l = "latest_final_blocks_periods st" and ?l' = "raise_latest b (active_slot fb) (latest_final_blocks_periods st)"
  have th: "unat (thread (active_slot fb)) < length ?l" using core fb unfolding graph_core_def by blast
  note l' = raise_latest_ge [where b = b, OF th]
  have "indexes_ok (blocks_state ?st')"
    using core by (simp add: update_statuses_def graph_core_def indexes_ok_same_ids modify_active_status_id status_at_def)
  moreover have "gi_wf (gi_head ?st')" using core by (simp add: graph_core_def gi_wf_gi_remove)
  moreover have "unat (thread (active_slot a)) < length ?l' \<and> length (children a) = length ?l' \<and>
      (is_final a \<longrightarrow> period (active_slot a) \<le> snd (?l' ! unat (thread (active_slot a))))"
    if a: "active_at (statuses ?st') c = Some a" for c a
  proof (cases "c = b")
    case True
    then have "a = fb\<lparr>is_final := True\<rparr>" using a fb by (simp add: active_at_modify_active)
    then show ?thesis using core fb l' th unfolding graph_core_def by auto
  next
    case False
    then have "active_at (statuses st) c = Some a" using a by (simp add: active_at_modify_active)
    then have "unat (thread (active_slot a)) < length ?l" "length (children a) = length ?l"
      "is_final a \<longrightarrow> period (active_slot a) \<le> snd (?l ! unat (thread (active_slot a)))"
      using core unfolding graph_core_def by blast+
    then show ?thesis using l'(1,2) by (auto intro: order_trans)
  qed
  ultimately show ?thesis
    using core l'(1) unfolding graph_core_def by simp
qed

lemma mark_final_block_inv:
  assumes inv: "graph_inv st" and all: "\<forall>c\<in>set (max_cliques st). b |\<in>| block_ids c"
  shows "\<exists>st'. mark_final_block b st = Inr st' \<and> graph_inv st' \<and> advanced (statuses st) (statuses st') \<and>
    config st' = config st \<and> new_final_blocks st' = finsert b (new_final_blocks st) \<and>
    (\<exists>a. active_at (statuses st') b = Some a \<and> is_final a) \<and>
    (\<forall>c d. c \<noteq> b \<longrightarrow> d \<in> set (max_cliques st') \<longrightarrow> (\<forall>d\<in>set (max_cliques st). c |\<in>| block_ids d) \<longrightarrow> c |\<in>| block_ids d) \<and>
    (\<forall>c. meets_finality st' c \<longrightarrow> meets_finality st c \<and> c \<noteq> b)"
proof -
  have core: "graph_core st" and dom: "gi_domain {} st" and cl: "cliques_ok (gi_head st) (max_cliques st)"
    and sc: "scored (statuses st) (max_cliques st)" and el: "elected (max_cliques st)"
    and cov: "covers {} (gi_head st) (max_cliques st)"
    using inv by (simp_all add: graph_inv_but_def)
  have wf: "gi_wf (gi_head st)" using core by (simp add: graph_core_def)
  obtain c0 where "c0 \<in> set (max_cliques st)" using cl by (cases "max_cliques st") (auto simp: cliques_ok_def)
  then have "b |\<in>| fmdom (gi_head st)" using clique_in_dom [OF cl] all by blast
  then obtain fb where fb: "active_at (statuses st) b = Some fb" "\<not> is_final fb" using dom by (auto simp: gi_domain_def)
  define st' where "st' = (update_statuses (modify_active (\<lambda>a. a\<lparr>is_final := True\<rparr>) b) st)
    \<lparr>gi_head := gi_remove b (gi_head st),
     max_cliques := cliques_remove b (fitness fb) (max_cliques st),
     latest_final_blocks_periods := raise_latest b (active_slot fb) (latest_final_blocks_periods st),
     new_final_blocks := finsert b (new_final_blocks st)\<rparr>"
  have sts': "statuses st' = modify_active (\<lambda>a. a\<lparr>is_final := True\<rparr>) b (statuses st)"
    and gi': "gi_head st' = gi_remove b (gi_head st)"
    and cs': "max_cliques st' = cliques_remove b (fitness fb) (max_cliques st)" by (simp_all add: st'_def)
  have act': "active_at (statuses st') c = (if c = b then Some (fb\<lparr>is_final := True\<rparr>) else active_at (statuses st) c)" for c
    unfolding sts' active_at_modify_active by (simp add: fb)
  have fit: "block_fitness (statuses st) b = unat (fitness fb)"
    "block_fitness (statuses st') c = block_fitness (statuses st) c" for c
    by (simp_all add: block_fitness_def act' fb)
  note cr = cliques_remove_final [OF wf cl cov sc el all fit, folded gi' cs']
  have "gi_domain {} st'" using dom unfolding gi_domain_def gi' fmdom_gi_remove act' by auto
  moreover have "graph_core st'" unfolding st'_def by (rule graph_core_mark_final [OF core fb(1)])
  ultimately have "graph_inv st'" using cr(1-4) by (simp add: graph_inv_but_def)
  moreover have "mark_final_block b st = Inr st'" unfolding st'_def by (rule mark_final_block_eq [OF core fb(1)])
  moreover have "advanced (statuses st) (statuses st')" unfolding sts' by (rule advanced_mark_final)
  moreover have "c |\<in>| block_ids d" if "c \<noteq> b" "d \<in> set (max_cliques st')" "\<forall>d\<in>set (max_cliques st). c |\<in>| block_ids d" for c d
    using cr(5) that by (metis fminus_iff fsingleton_iff)
  moreover have "meets_finality st c \<and> c \<noteq> b" if m: "meets_finality st' c" for c
  proof -
    obtain d' a where d': "d' \<in> set (max_cliques st')" "active_at (statuses st') c = Some a"
      "unat (cfg_delta_f0 (config st')) < set_fitness (statuses st') (descendants a |\<inter>| block_ids d')"
      using m by (auto simp: meets_finality_def)
    obtain d where d: "d \<in> set (max_cliques st)" "block_ids d' = block_ids d |-| {|b|}" using cr(5) d'(1) by blast
    have "c |\<in>| block_ids d'" using m d'(1) by (auto simp: meets_finality_def)
    then have cb: "c \<noteq> b" using d(2) by auto
    have inall: "c |\<in>| block_ids e" if "e \<in> set (max_cliques st)" for e
      using m cr(6) that unfolding meets_finality_def by (metis fminus_iff)
    have "set_fitness (statuses st') (descendants a |\<inter>| block_ids d') \<le> set_fitness (statuses st) (descendants a |\<inter>| block_ids d)"
      unfolding set_fitness_cong [of _ "statuses st'" "statuses st", OF fit(2)]
      by (rule set_fitness_mono) (auto simp: d(2))
    with d'(3) have "unat (cfg_delta_f0 (config st)) < set_fitness (statuses st) (descendants a |\<inter>| block_ids d)"
      by (simp add: st'_def)
    moreover have "active_at (statuses st) c = Some a" using d'(2) cb by (simp add: act')
    ultimately show ?thesis using cb inall d(1) unfolding meets_finality_def by blast
  qed
  ultimately show ?thesis using act' by (auto simp: st'_def)
qed

lemma advanced_final:
  assumes "advanced m m'" "active_at m b = Some a" "is_final a"
  shows "\<exists>a'. active_at m' b = Some a' \<and> is_final a'"
proof -
  obtain s where "fmlookup m b = Some (Active a s)"
    using assms(2) by (auto simp: active_at_def split: option.splits block_status.splits)
  moreover have "advanced_status (fmlookup m b) (fmlookup m' b)" using assms(1) by (simp add: advanced_def)
  ultimately show ?thesis using assms(3) by (auto simp: active_at_def evolved_def)
qed

definition final_at :: "'st consensus_state \<Rightarrow> block_id \<Rightarrow> bool" where
  "final_at st b \<longleftrightarrow> (\<exists>a. active_at (statuses st) b = Some a \<and> is_final a)"

lemma final_at_advanced: "advanced (statuses st) (statuses st') \<Longrightarrow> final_at st b \<Longrightarrow> final_at st' b"
  unfolding final_at_def using advanced_final by blast

lemma mark_final_blocks_ok:
  assumes ord: "traverses ord" and inv: "graph_inv st" and F: "\<And>b. b |\<in>| F \<longleftrightarrow> meets_finality st b"
  shows "\<exists>st'. mark_final_blocks ord F st = Inr st' \<and> graph_inv st' \<and> advanced (statuses st) (statuses st') \<and>
    config st' = config st \<and> new_final_blocks st' = new_final_blocks st |\<union>| F \<and>
    (\<forall>b. b |\<in>| F \<longrightarrow> final_at st' b) \<and> (\<forall>b. \<not> meets_finality st' b)"
proof -
  define P where "P = (\<lambda>bs st'. distinct bs \<and> set bs \<subseteq> fset F \<and> graph_inv st' \<and> advanced (statuses st) (statuses st') \<and>
    config st' = config st \<and> new_final_blocks st' = new_final_blocks st |\<union>| (F |-| fset_of_list bs) \<and>
    (\<forall>b. b |\<in>| F \<longrightarrow> b \<notin> set bs \<longrightarrow> final_at st' b) \<and>
    (\<forall>b\<in>set bs. \<forall>c\<in>set (max_cliques st'). b |\<in>| block_ids c) \<and> (\<forall>b. meets_finality st' b \<longrightarrow> b \<in> set bs))"
  have step: "\<exists>s''. mark_final_block b s' = Inr s'' \<and> P rest s''" if p: "P (b # rest) s'" for b rest s'
  proof -
    have i: "graph_inv s'" and all: "\<forall>c\<in>set (max_cliques s'). b |\<in>| block_ids c"
      and d: "b \<notin> set rest" "b |\<in>| F" using p by (simp_all add: P_def)
    obtain s'' where s'': "mark_final_block b s' = Inr s''" "graph_inv s''" "advanced (statuses s') (statuses s'')"
      "config s'' = config s'" "new_final_blocks s'' = finsert b (new_final_blocks s')" "final_at s'' b"
      and keep: "\<And>c d. c \<noteq> b \<Longrightarrow> d \<in> set (max_cliques s'') \<Longrightarrow> \<forall>d\<in>set (max_cliques s'). c |\<in>| block_ids d \<Longrightarrow> c |\<in>| block_ids d"
      and meets: "\<And>c. meets_finality s'' c \<Longrightarrow> meets_finality s' c \<and> c \<noteq> b"
      using mark_final_block_inv [OF i all] unfolding final_at_def by blast
    have "new_final_blocks s'' = new_final_blocks st |\<union>| (F |-| fset_of_list rest)"
      using p s''(5) d by (auto simp: P_def fset_of_list_elem)
    moreover have "final_at s'' c" if "c |\<in>| F" "c \<notin> set rest" for c
      using that p s''(6) final_at_advanced [OF s''(3)] by (cases "c = b") (auto simp: P_def)
    moreover have "c |\<in>| block_ids e" if "c \<in> set rest" "e \<in> set (max_cliques s'')" for c e
      using keep [OF _ that(2), of c] that(1) d(1) p by (auto simp: P_def)
    moreover have "c \<in> set rest" if "meets_finality s'' c" for c
      using meets [OF that] p by (auto simp: P_def)
    moreover have "advanced (statuses st) (statuses s'')" using p s''(3) by (auto simp: P_def intro: advanced_trans)
    ultimately show ?thesis using s''(1,2,4) p by (auto simp: P_def)
  qed
  have "P (ord Final_Blocks F) st"
    using ord inv F by (auto simp: P_def fset_of_list.rep_eq fset_eq_iff meets_finality_def)
  with for_each_inv [where P = P and f = mark_final_block and xs = "ord Final_Blocks F" and s = st] step
  have "\<exists>s'. for_each mark_final_block (ord Final_Blocks F) st = Inr s' \<and> P [] s'" by blast
  then show ?thesis unfolding mark_final_blocks_def P_def by auto
qed

section \<open>Settling the graph\<close>

text \<open>
  What \<open>settle_graph\<close> relies on after the update of the cliques, and what it gives: the invariant, no
  block left that meets the criterion of finality, and the list of the blocks that became final.
\<close>

definition settleable :: "'st consensus_state \<Rightarrow> bool" where
  "settleable st \<longleftrightarrow> graph_core st \<and> gi_domain {} st \<and> cliques_ok (gi_head st) (max_cliques st) \<and>
     covers {} (gi_head st) (max_cliques st) \<and> set_fitness (statuses st) (fmdom (gi_head st)) < 2 ^ 64"

definition settled :: "'st consensus_state \<Rightarrow> 'st consensus_state \<Rightarrow> bool" where
  "settled st st' \<longleftrightarrow> graph_inv st' \<and> advanced (statuses st) (statuses st') \<and> config st' = config st \<and>
     new_final_blocks st |\<subseteq>| new_final_blocks st' \<and>
     (\<forall>b. b |\<in>| new_final_blocks st' \<longrightarrow> b |\<in>| new_final_blocks st \<or> final_at st' b) \<and>
     (\<forall>b. \<not> meets_finality st' b)"

lemma settle_graph_ok:
  assumes ord: "traverses ord" and st: "settleable st"
    and time: "get_block_slot_timestamp (cfg_thread_count (config st)) (cfg_t0 (config st))
      (cfg_genesis_timestamp (config st)) slot = Inr t"
  shows "\<exists>st'. settle_graph ord V slot st = Inr st' \<and> settled st st'"
proof -
  have core: "graph_core st" and dom: "gi_domain {} st" and cl: "cliques_ok (gi_head st) (max_cliques st)"
    and cov: "covers {} (gi_head st) (max_cliques st)"
    and tot: "set_fitness (statuses st) (fmdom (gi_head st)) < 2 ^ 64" using st by (simp_all add: settleable_def)
  have act: "\<exists>a. active_at (statuses st) b = Some a" if "c \<in> set (max_cliques st)" "b |\<in>| block_ids c" for c b
    using clique_in_dom [OF cl that] dom by (auto simp: gi_domain_def)
  have fit: "set_fitness (statuses st) (block_ids c) < 2 ^ 64" if "c \<in> set (max_cliques st)" for c
    using set_fitness_mono [of "block_ids c" "fmdom (gi_head st)" "statuses st"] clique_in_dom [OF cl that] tot
    by (meson fsubsetI le_less_trans)
  have "max_cliques st \<noteq> []" using cl by (simp add: cliques_ok_def)
  from compute_fitness_ok [OF ord this, of V] act fit
  obtain k cs where k: "compute_fitness_find_blockclique ord V st = Inr (k, st\<lparr>max_cliques := cs\<rparr>)"
    "map block_ids cs = map block_ids (max_cliques st)" "scored (statuses st) cs"
    "k < length cs" "filter is_blockclique cs = [cs ! k]" "\<forall>c\<in>set cs. clique_fitness c \<le> clique_fitness (cs ! k)"
    by (metis option.distinct(1))
  have ids: "block_ids ` set cs = block_ids ` set (max_cliques st)" using k(2) by (metis image_set)
  have cl1: "cliques_ok (gi_head st) cs" using cl k(2) ids unfolding cliques_ok_def by (metis map_is_Nil_conv)
  have cov1: "covers {} (gi_head st) cs" using cov ids unfolding covers_def by (metis (no_types, lifting) image_iff)
  define th where "th = saturating_sub (clique_fitness (cs ! k)) (cfg_delta_f0 (config st))"
  have "th \<le> clique_fitness (cs ! k)" by (simp add: th_def word_le_nat_alt word_simps)
  note rt = retain_cliques [OF cl1 k(3) cov1 k(4-6) this]
  have "\<exists>a. active_at (statuses st) b = Some a \<and> unat (thread (active_slot a)) < length (latest_final_blocks_periods st)"
    if "b \<in> set (ord Blockclique (block_ids (cs ! k)))" for b
  proof -
    have "b |\<in>| fmdom (gi_head st)" using clique_in_dom [OF cl1 nth_mem [OF k(4)], of b] that ord by simp
    then show ?thesis using dom core unfolding gi_domain_def graph_core_def by blast
  qed
  then obtain bps where bps: "for_each (update_best_parent (statuses st)) (ord Blockclique (block_ids (cs ! k)))
      (latest_final_blocks_periods st) = Inr bps"
    using best_parents_ok [of "ord Blockclique (block_ids (cs ! k))" "statuses st" "latest_final_blocks_periods st"] by blast
  define st2 where "st2 = st\<lparr>best_parents := bps, max_cliques := filter (\<lambda>c. th \<le> clique_fitness c) cs\<rparr>"
  define stale where "stale = ord Stale_Blocks (list_stale_blocks th cs)"
  have "graph_core st2" using core by (auto simp: st2_def graph_core_def)
  moreover have "gi_domain {} st2" using dom by (simp add: st2_def gi_domain_def)
  ultimately have "graph_inv_but (set stale) st2" using rt ord by (simp add: graph_inv_but_def st2_def stale_def)
  then obtain st3 where st3: "for_each (remove_block ord) stale st2 = Inr st3" "graph_inv st3"
    "advanced (statuses st2) (statuses st3)" "config st3 = config st2" "new_final_blocks st3 = new_final_blocks st2"
    using remove_stale_ok [of stale st2 ord] ord by (auto simp: stale_def)
  obtain F where F: "list_final_blocks ord st3 = Inr F" "\<And>b. b |\<in>| F \<longleftrightarrow> meets_finality st3 b"
    using list_final_blocks_ok [OF ord st3(2)] by metis
  obtain st4 where st4: "mark_final_blocks ord F st3 = Inr st4" "graph_inv st4" "advanced (statuses st3) (statuses st4)"
    "config st4 = config st3" "new_final_blocks st4 = new_final_blocks st3 |\<union>| F"
    "\<forall>b. b |\<in>| F \<longrightarrow> final_at st4 b" "\<forall>b. \<not> meets_finality st4 b"
    using mark_final_blocks_ok [OF ord st3(2) F(2)] by blast
  have conf: "config st4 = config st" using st3(4) st4(4) by (simp add: st2_def)
  have adv: "advanced (statuses st) (statuses st4)" using st3(3) st4(3) by (auto simp: st2_def intro: advanced_trans)
  have "settle_graph ord V slot st = Inr st4"
    using k(1,4) bps st3(1) F(1) st4(1) time conf
    by (simp add: settle_graph_def vec_get_def Let_def th_def [symmetric] stale_def [symmetric] st2_def [symmetric])
  moreover have "settled st st4" using st4 conf adv st3(5) by (auto simp: settled_def st2_def)
  ultimately show ?thesis by blast
qed

section \<open>Adding a block\<close>

lemma extend_cliques_ids:
  "map block_ids (extend_cliques b incomp cs) =
     map (\<lambda>m. if incomp |\<inter>| m = {||} then finsert b m else m) (map block_ids cs)"
  by (simp add: extend_cliques_def comp_def if_distrib cong: if_cong)

lemma extend_cliques_ok:
  assumes wf: "gi_wf gi" and add: "gi_adds b incomp gi gi'" and sub: "incomp |\<subseteq>| fmdom gi" and new: "b |\<notin>| fmdom gi"
    and cl: "cliques_ok gi cs" and cov: "covers {} gi cs"
    and fit: "\<exists>c\<in>set cs. incomp |\<inter>| block_ids c = {||}"
  shows "cliques_ok gi' (extend_cliques b incomp cs)" "covers {} gi' (extend_cliques b incomp cs)"
proof -
  define f where "f = (\<lambda>m. if incomp |\<inter>| m = {||} then finsert b m else m)"
  have ids: "map block_ids (extend_cliques b incomp cs) = map f (map block_ids cs)"
    unfolding f_def by (rule extend_cliques_ids)
  have bc: "b |\<notin>| m" if "m \<in> block_ids ` set cs" for m using that clique_in_dom [OF cl] new by auto
  have inv: "m = f m |-| {|b|}" if "b |\<notin>| m" for m using that by (auto simp: f_def)
  have "inj_on f (block_ids ` set cs)" using bc inv by (intro inj_onI) metis
  then have dist: "distinct (map block_ids (extend_cliques b incomp cs))"
    using cl unfolding ids cliques_ok_def by (simp add: distinct_map comp_inj_on)
  have img: "block_ids ` set (extend_cliques b incomp cs) = f ` block_ids ` set cs"
    using ids by (metis image_set)
  have "f m \<in> maximal_compatible gi'" if "m \<in> block_ids ` set cs" for m
    unfolding f_def by (rule maximal_adds [OF wf add sub new]) (use that cl in \<open>auto simp: cliques_ok_def\<close>)
  then have max: "block_ids ` set (extend_cliques b incomp cs) \<subseteq> maximal_compatible gi'" unfolding img by blast
  have "extend_cliques b incomp cs \<noteq> []" using cl by (simp add: cliques_ok_def extend_cliques_def)
  with dist max show "cliques_ok gi' (extend_cliques b incomp cs)" unfolding cliques_ok_def by simp
  have ex: "(\<exists>c\<in>set xs. v |\<in>| block_ids c) \<longleftrightarrow> (\<exists>m\<in>block_ids ` set xs. v |\<in>| m)" for v and xs :: "clique list" by simp
  have "v |\<in>| fmdom gi' \<longleftrightarrow> (\<exists>m\<in>f ` block_ids ` set cs. v |\<in>| m)" for v
  proof -
    have mem: "v |\<in>| f m \<longleftrightarrow> v |\<in>| m \<or> v = b \<and> incomp |\<inter>| m = {||}" for m by (simp add: f_def) metis
    have "(\<exists>m\<in>f ` block_ids ` set cs. v |\<in>| m) \<longleftrightarrow> (\<exists>c\<in>set cs. v |\<in>| f (block_ids c))" by simp
    also have "\<dots> \<longleftrightarrow>
        (\<exists>c\<in>set cs. v |\<in>| block_ids c) \<or> v = b \<and> (\<exists>c\<in>set cs. incomp |\<inter>| block_ids c = {||})"
      unfolding mem by metis
    also have "\<dots> \<longleftrightarrow> v |\<in>| fmdom gi \<or> v = b"
    proof -
      have "v |\<in>| fmdom gi \<longleftrightarrow> (\<exists>c\<in>set cs. v |\<in>| block_ids c)" using cov by (simp add: covers_def)
      with fit show ?thesis by (simp only: simp_thms)
    qed
    also have "\<dots> \<longleftrightarrow> v |\<in>| fmdom gi'" using add by (auto simp: gi_adds_def)
    finally show ?thesis by (rule sym)
  qed
  then show "covers {} gi' (extend_cliques b incomp cs)" unfolding covers_def ex img by simp
qed

lemma compute_cliques_ok:
  assumes ord: "traverses ord" and wf: "gi_wf gi"
  obtains cs where "compute_max_cliques ord gi = Some (Inr cs)"
    "cliques_ok gi (map (\<lambda>c. \<lparr>block_ids = c, clique_fitness = 0, is_blockclique = False\<rparr>) cs)"
    "covers {} gi (map (\<lambda>c. \<lparr>block_ids = c, clique_fitness = 0, is_blockclique = False\<rparr>) cs)"
proof -
  obtain cs where cs: "compute_max_cliques ord gi = Some (Inr cs)" "distinct cs" "set cs = maximal_compatible gi"
    using compute_max_cliques_ok [OF ord wf] .
  have "compatible gi {||}" by (simp add: compatible_def)
  then have "maximal_compatible gi \<noteq> {}" by (metis extend_to_maximal empty_iff)
  then have ne: "cs \<noteq> []" using cs(3) by auto
  have "v |\<in>| fmdom gi \<longleftrightarrow> (\<exists>m\<in>maximal_compatible gi. v |\<in>| m)" for v
  proof
    assume "v |\<in>| fmdom gi"
    then have "compatible gi {|v|}" by (simp add: compatible_def incomp_of_irrefl [OF wf])
    then show "\<exists>m\<in>maximal_compatible gi. v |\<in>| m" by (metis extend_to_maximal finsert_fsubset)
  next
    assume "\<exists>m\<in>maximal_compatible gi. v |\<in>| m"
    then show "v |\<in>| fmdom gi" by (auto simp: maximal_compatible_def compatible_def)
  qed
  then show thesis
    using that [OF cs(1)] cs(2,3) ne by (simp add: cliques_ok_def covers_def comp_def image_image)
qed

lemma update_max_cliques_ok:
  assumes ord: "traverses ord" and wf: "gi_wf gi" and add: "gi_adds b incomp gi (gi_head st)"
    and sub: "incomp |\<subseteq>| fmdom gi" and new: "b |\<notin>| fmdom gi"
    and cl: "cliques_ok gi (max_cliques st)" and cov: "covers {} gi (max_cliques st)"
    and fit: "fcard incomp = n \<longrightarrow> (\<exists>c\<in>set (max_cliques st). incomp |\<inter>| block_ids c = {||})"
  obtains cs where "update_max_cliques ord b incomp n st = Some (Inr (st\<lparr>max_cliques := cs\<rparr>))"
    "cliques_ok (gi_head st) cs" "covers {} (gi_head st) cs"
proof (cases "fcard incomp = n")
  case True
  with that extend_cliques_ok [OF wf add sub new cl cov] fit show thesis by (simp add: update_max_cliques_def)
next
  case False
  obtain cs where "compute_max_cliques ord (gi_head st) = Some (Inr cs)"
    "cliques_ok (gi_head st) (map (\<lambda>c. \<lparr>block_ids = c, clique_fitness = 0, is_blockclique = False\<rparr>) cs)"
    "covers {} (gi_head st) (map (\<lambda>c. \<lparr>block_ids = c, clique_fitness = 0, is_blockclique = False\<rparr>) cs)"
    using compute_cliques_ok [OF ord gi_wf_adds [OF wf add sub new]] .
  with that False show thesis by (simp add: update_max_cliques_def)
qed

text \<open>
  The state in which \<open>process\<close> calls \<open>add_block_to_graph\<close>: the block is active and not yet in the
  graph, and for an extension there is a clique that is compatible with the block.
\<close>

definition ready :: "block_id \<Rightarrow> 'st consensus_state \<Rightarrow> bool" where
  "ready b st \<longleftrightarrow> graph_core st \<and> gi_domain {b} st \<and> cliques_ok (gi_head st) (max_cliques st) \<and>
     covers {} (gi_head st) (max_cliques st) \<and>
     (\<exists>a. active_at (statuses st) b = Some a \<and> \<not> is_final a)"

definition addable :: "block_id \<Rightarrow> slot \<Rightarrow> block_id fset \<Rightarrow> nat \<Rightarrow> 'st consensus_state \<Rightarrow> bool" where
  "addable b slot incomp inherited st \<longleftrightarrow> ready b st \<and> incomp |\<subseteq>| fmdom (gi_head st) \<and>
     thread slot < cfg_thread_count (config st) \<and>
     (fcard incomp = inherited \<longrightarrow> (\<exists>c\<in>set (max_cliques st). incomp |\<inter>| block_ids c = {||})) \<and>
     set_fitness (statuses st) (finsert b (fmdom (gi_head st))) < 2 ^ 64 \<and>
     (\<exists>t. get_block_slot_timestamp (cfg_thread_count (config st)) (cfg_t0 (config st))
        (cfg_genesis_timestamp (config st)) slot = Inr t)"

lemma add_block_to_graph_ok:
  assumes ord: "traverses ord" and st: "addable b slot incomp inherited st"
  shows "\<exists>st'. add_block_to_graph ord V b ps slot incomp inherited st = Some (Inr st') \<and> settled st st'"
proof -
  have core: "graph_core st" and dom: "gi_domain {b} st" and cl: "cliques_ok (gi_head st) (max_cliques st)"
    and cov: "covers {} (gi_head st) (max_cliques st)"
    and b: "\<exists>a. active_at (statuses st) b = Some a \<and> \<not> is_final a"
    and sub: "incomp |\<subseteq>| fmdom (gi_head st)" and th: "thread slot < cfg_thread_count (config st)"
    and fit: "fcard incomp = inherited \<longrightarrow> (\<exists>c\<in>set (max_cliques st). incomp |\<inter>| block_ids c = {||})"
    and tot: "set_fitness (statuses st) (finsert b (fmdom (gi_head st))) < 2 ^ 64"
    using st by (simp_all add: addable_def ready_def)
  obtain t where t: "get_block_slot_timestamp (cfg_thread_count (config st)) (cfg_t0 (config st))
      (cfg_genesis_timestamp (config st)) slot = Inr t" using st by (auto simp: addable_def)
  have wf: "gi_wf (gi_head st)" using core by (simp add: graph_core_def)
  have new: "b |\<notin>| fmdom (gi_head st)" using dom by (simp add: gi_domain_def)
  have "unat (thread slot) < length (children a)" if "active_at (statuses st) c = Some a" for c a
    using core that th unfolding graph_core_def word_less_nat_alt by metis
  then obtain sts where sts: "insert_parents_descendants b slot (map fst ps) st = Inr (update_statuses (\<lambda>_. sts) st)"
    and rel: "relinked (statuses st) sts"
    using insert_parents_descendants_ok [of st slot b "map fst ps"] b by blast
  obtain gi1 where gi1: "for_each (add_incompatibility b) (ord Incompatibilities incomp) (gi_head st) = Inr gi1"
    and add: "gi_adds b incomp (gi_head st) (fmupd b incomp gi1)"
    using add_incompatibilities [OF ord sub new] .
  define st1 where "st1 = (update_statuses (\<lambda>_. sts) st)\<lparr>gi_head := fmupd b incomp gi1\<rparr>"
  have gi: "gi_head st1 = fmupd b incomp gi1" and cs1: "max_cliques st1 = max_cliques st"
    and sts1: "statuses st1 = sts" and conf: "config st1 = config st" by (simp_all add: st1_def)
  obtain cs where cs: "update_max_cliques ord b incomp inherited st1 = Some (Inr (st1\<lparr>max_cliques := cs\<rparr>))"
    "cliques_ok (gi_head st1) cs" "covers {} (gi_head st1) cs"
    using update_max_cliques_ok [of ord "gi_head st" b incomp st1 inherited] ord wf add sub new cl cov fit
    unfolding gi cs1 by blast
  define st2 where "st2 = st1\<lparr>max_cliques := cs\<rparr>"
  have "gi_wf (gi_head st2)" using gi_wf_adds [OF wf add sub new] by (simp add: st2_def gi)
  then have "graph_core st2"
    using graph_core_relinked [OF core rel] by (auto simp: graph_core_def st2_def st1_def)
  moreover have "gi_domain {} st2"
  proof -
    have "gi_domain {b} (update_statuses (\<lambda>_. sts) st)" by (rule gi_domain_relinked [OF dom rel])
    moreover have "\<exists>a. active_at sts b = Some a \<and> \<not> is_final a"
      using b relinked_active(2) [OF rel] unfolding same_core_def by metis
    ultimately show ?thesis using add by (auto simp: gi_domain_def st2_def gi_adds_def gi sts1)
  qed
  moreover have "set_fitness (statuses st2) (fmdom (gi_head st2)) < 2 ^ 64"
    using tot add set_fitness_relinked [OF rel] by (simp add: st2_def gi sts1 gi_adds_def)
  ultimately have "settleable st2" using cs(2,3) by (simp add: settleable_def st2_def)
  then obtain st' where st': "settle_graph ord V slot st2 = Inr st'" "settled st2 st'"
    using settle_graph_ok [OF ord, of st2 slot t V] t conf by (auto simp: st2_def)
  have "add_block_to_graph ord V b ps slot incomp inherited st = Some (Inr st')"
    using sts gi1 cs(1) st'(1) by (simp add: add_block_to_graph_def st1_def [symmetric] st2_def [symmetric])
  moreover have "settled st st'"
    using st'(2) advanced_trans [OF advanced_relinked [OF rel]] by (simp add: settled_def st2_def st1_def)
  ultimately show ?thesis by blast
qed

section \<open>Dropped cliques\<close>

text \<open>
  Dropping the cliques of low fitness can leave the list without a clique for a later block.  Blocks 1 and 2 are
  compatible, but the clique they form is too light and is dropped, while each is kept by a heavy clique with
  blocks 3 or 4; no block is stale.  A block that has 1 and 2 as parents inherits all its incompatibilities, and
  the extension puts it in no clique.
\<close>

definition dropped_gi :: incompatibilities where
  "dropped_gi = fmap_of_list
     [(BlockIdV0 1, {|BlockIdV0 4|}), (BlockIdV0 2, {|BlockIdV0 3|}),
      (BlockIdV0 3, {|BlockIdV0 2, BlockIdV0 4|}), (BlockIdV0 4, {|BlockIdV0 1, BlockIdV0 3|})]"

definition dropped_cliques :: "clique list" where
  "dropped_cliques =
     [\<lparr> block_ids = {|BlockIdV0 1, BlockIdV0 3|}, clique_fitness = 21, is_blockclique = True \<rparr>,
      \<lparr> block_ids = {|BlockIdV0 2, BlockIdV0 4|}, clique_fitness = 21, is_blockclique = False \<rparr>,
      \<lparr> block_ids = {|BlockIdV0 1, BlockIdV0 2|}, clique_fitness = 2, is_blockclique = False \<rparr>]"

lemma maximal_conflictI:
  assumes "compatible gi s"
    "\<And>v. v |\<in>| fmdom gi \<Longrightarrow> v |\<notin>| s \<Longrightarrow> s |\<inter>| incomp_of gi v \<noteq> {||}"
  shows "s \<in> maximal_compatible gi"
proof -
  have "\<not> compatible gi (finsert v s)" if v: "v |\<in>| fmdom gi" "v |\<notin>| s" for v
  proof
    assume c: "compatible gi (finsert v s)"
    obtain u where "u |\<in>| s" "u |\<in>| incomp_of gi v" using assms(2) [OF v] by auto
    with c show False unfolding compatible_def by (metis finsertI1 finsertI2)
  qed
  with assms(1) show ?thesis by (simp add: maximal_compatible_def)
qed

lemma compatible_pairI:
  assumes "{|u, v|} |\<subseteq>| fmdom gi" "{|u, v|} |\<inter>| incomp_of gi u = {||}" "{|u, v|} |\<inter>| incomp_of gi v = {||}"
  shows "compatible gi {|u, v|}"
proof -
  have "b |\<notin>| incomp_of gi a" if "a |\<in>| {|u, v|}" "b |\<in>| {|u, v|}" for a b
    using that assms(2,3) by auto
  with assms(1) show ?thesis unfolding compatible_def by simp
qed

lemma extension_misses_dropped_clique:
  defines "kept \<equiv> filter (\<lambda>c. 11 \<le> clique_fitness c) dropped_cliques"
    and "incomp \<equiv> incomp_of dropped_gi (BlockIdV0 1) |\<union>| incomp_of dropped_gi (BlockIdV0 2)"
  shows "cliques_ok dropped_gi dropped_cliques" "covers {} dropped_gi dropped_cliques"
    "list_stale_blocks 11 dropped_cliques = {||}" "covers {} dropped_gi kept"
    "compatible dropped_gi {|BlockIdV0 1, BlockIdV0 2|}"
    "\<forall>c\<in>set (extend_cliques (BlockIdV0 5) incomp kept). BlockIdV0 5 |\<notin>| block_ids c"
proof -
  have inc: "incomp_of dropped_gi u =
      (if u = BlockIdV0 1 then {|BlockIdV0 4|} else if u = BlockIdV0 2 then {|BlockIdV0 3|}
       else if u = BlockIdV0 3 then {|BlockIdV0 2, BlockIdV0 4|}
       else if u = BlockIdV0 4 then {|BlockIdV0 1, BlockIdV0 3|} else {||})" for u
    by (simp add: dropped_gi_def incomp_of_def)
  have dom: "fmdom dropped_gi = {|BlockIdV0 1, BlockIdV0 2, BlockIdV0 3, BlockIdV0 4|}"
    by (simp add: dropped_gi_def)
  have max: "{|BlockIdV0 1, BlockIdV0 3|} \<in> maximal_compatible dropped_gi"
    "{|BlockIdV0 2, BlockIdV0 4|} \<in> maximal_compatible dropped_gi"
    "{|BlockIdV0 1, BlockIdV0 2|} \<in> maximal_compatible dropped_gi"
    by (rule maximal_conflictI; (rule compatible_pairI)?; auto simp: inc dom)+
  have neq: "A \<noteq> B" if "x |\<in>| A" "x |\<notin>| B" for x and A B :: "block_id fset" using that by blast
  have "{|BlockIdV0 1, BlockIdV0 3|} \<noteq> {|BlockIdV0 2, BlockIdV0 4|}"
    "{|BlockIdV0 1, BlockIdV0 3|} \<noteq> {|BlockIdV0 1, BlockIdV0 2|}"
    "{|BlockIdV0 2, BlockIdV0 4|} \<noteq> {|BlockIdV0 1, BlockIdV0 2|}"
    by (rule neq [of "BlockIdV0 3"]; simp) (rule neq [of "BlockIdV0 3"] neq [of "BlockIdV0 4"]; simp)+
  with max show "cliques_ok dropped_gi dropped_cliques" by (simp add: cliques_ok_def dropped_cliques_def)
  show "covers {} dropped_gi dropped_cliques" by (auto simp: covers_def dom dropped_cliques_def)
  show "list_stale_blocks 11 dropped_cliques = {||}"
    by (auto simp: fset_eq_iff list_stale_blocks_eq dropped_cliques_def)
  show "covers {} dropped_gi kept" by (auto simp: covers_def dom kept_def dropped_cliques_def)
  show "compatible dropped_gi {|BlockIdV0 1, BlockIdV0 2|}" using max(3) by (rule maximal_compatible_compatible)
  show "\<forall>c\<in>set (extend_cliques (BlockIdV0 5) incomp kept). BlockIdV0 5 |\<notin>| block_ids c"
    by (simp add: kept_def incomp_def inc dropped_cliques_def extend_cliques_def)
qed


section \<open>Properties\<close>

text \<open>A state to which the properties apply: block 2, a child of block 1, is about to be added.\<close>

definition sample_block :: "block_id \<Rightarrow> u64 \<Rightarrow> (block_id \<times> u64) list \<Rightarrow> active_block" where
  "sample_block b p ps = \<lparr> creator_address = Address_User [], active_id = b, parents = ps, children = [fmempty],
     descendants = {||}, is_final = False, active_slot = Slot p 0, fitness = 1, same_thread_parent_creator = None \<rparr>"

definition sample_state :: "unit consensus_state" where
  "sample_state =
     \<lparr> config = \<lparr> cfg_thread_count = 1, cfg_t0 = 16000, cfg_genesis_timestamp = 0, cfg_delta_f0 = 0,
         cfg_last_start_period = 0 \<rparr>,
       genesis_hashes = [BlockIdV0 0],
       gi_head = fmap_of_list [(BlockIdV0 1, {||})],
       max_cliques = [\<lparr> block_ids = {|BlockIdV0 1|}, clique_fitness = 1, is_blockclique = True \<rparr>],
       latest_final_blocks_periods = [(BlockIdV0 0, 0)],
       blocks_state =
         \<lparr> block_statuses = fmap_of_list
             [(BlockIdV0 1, Active (sample_block (BlockIdV0 1) 1 [(BlockIdV0 0, 0)]) (FullStorage ())),
              (BlockIdV0 2, Active (sample_block (BlockIdV0 2) 2 [(BlockIdV0 1, 1)]) (FullStorage ()))],
           incoming_index = {||}, sequence_counter = 0, waiting_for_slot_index = {||},
           waiting_for_dependencies_index = {||}, discarded_index = {||},
           active_index = {|BlockIdV0 1, BlockIdV0 2|} \<rparr>,
       best_parents = [(BlockIdV0 1, 1)],
       new_final_blocks = {||},
       new_stale_blocks = fmempty \<rparr>"

lemma sample_addable: "addable (BlockIdV0 2) (Slot 2 0) {||} 0 sample_state"
proof -
  let ?b1 = "BlockIdV0 1" and ?b2 = "BlockIdV0 2"
  have act: "active_at (statuses sample_state) b = (if b = ?b1 then Some (sample_block ?b1 1 [(BlockIdV0 0, 0)])
      else if b = ?b2 then Some (sample_block ?b2 2 [(?b1, 1)]) else None)" for b
    by (simp add: sample_state_def active_at_def)
  have "b |\<in>| index_of (blocks_state sample_state) i \<longleftrightarrow> status_at (blocks_state sample_state) b = Some i" for b i
    by (cases i) (simp_all add: sample_state_def status_at_def)
  then have ix: "indexes_ok (blocks_state sample_state)" by (simp add: indexes_ok_def)
  have gi: "incomp_of (gi_head sample_state) u = {||}" "fmdom (gi_head sample_state) = {|?b1|}" for u
    by (simp_all add: sample_state_def incomp_of_def)
  have core: "graph_core sample_state"
    unfolding graph_core_def act using ix
    by (simp add: gi_wf_def gi sample_block_def) (simp add: sample_state_def)
  have dom: "gi_domain {?b2} sample_state" unfolding gi_domain_def act gi by (simp add: sample_block_def)
  have "{|?b1|} \<in> maximal_compatible (gi_head sample_state)"
    by (auto simp: maximal_compatible_def compatible_def gi)
  then have cl: "cliques_ok (gi_head sample_state) (max_cliques sample_state)"
    by (simp add: cliques_ok_def) (simp add: sample_state_def)
  have cov: "covers {} (gi_head sample_state) (max_cliques sample_state)"
    unfolding covers_def gi by (simp add: sample_state_def)
  have "set_fitness (statuses sample_state) {|?b2, ?b1|} = 2"
    by (simp add: set_fitness_def block_fitness_def act sample_block_def)
  moreover have "\<exists>t. get_block_slot_timestamp 1 16000 0 (Slot 2 0) = Inr t"
    by (simp add: get_block_slot_timestamp_def massa_defs checked_div_def checked_mul_def checked_add_def)
  ultimately show ?thesis
    using core dom cl cov unfolding addable_def ready_def gi act
    by (simp add: sample_block_def) (simp add: sample_state_def)
qed





end
