(* ===== verification/Massa_Header_Check.thy ===== *)
theory Massa_Header_Check
  imports Massa_Graph_Safety
begin

text \<open>
  \<^verbatim>\<open>massa-consensus-worker/src/state/verifications.rs\<close>: the checks a block header passes before its block
  is added to the graph, and the set of the blocks it is incompatible with.  The selector of the producers and
  endorsers of a slot is a parameter.  A loop body that may return from the function gives a sum: \<open>Inl\<close> the
  returned value, \<open>Inr\<close> the state of the loop; panics are errors around it.  The values that the source
  formats into the reason of a discard are left out of the string.
\<close>

section \<open>Outcomes\<close>

datatype header_check_outcome =
    Proceed "(block_id \<times> u64) list" "block_id fset" nat u64
  | DiscardHeader discard_reason
  | WaitForSlot
  | WaitForDependencies "block_id fset"

record selector =
  get_producer :: "slot \<Rightarrow> address option"
  get_selection :: "slot \<Rightarrow> address list option"

type_synonym 's check = "consensus_error + (header_check_outcome + 's)"

fun loop_or_return :: "('a \<Rightarrow> 's \<Rightarrow> 'e + ('o + 's)) \<Rightarrow> 'a list \<Rightarrow> 's \<Rightarrow> 'e + ('o + 's)" where
  "loop_or_return f [] s = Inr (Inr s)"
| "loop_or_return f (x # xs) s =
     rbind (f x s) (\<lambda>r. case r of Inl out \<Rightarrow> Inr (Inl out) | Inr s' \<Rightarrow> loop_or_return f xs s')"

definition and_then :: "'e + ('o + 's) \<Rightarrow> ('s \<Rightarrow> 'e + ('o + 't)) \<Rightarrow> 'e + ('o + 't)" where
  "and_then r f = rbind r (\<lambda>x. case x of Inl out \<Rightarrow> Inr (Inl out) | Inr s \<Rightarrow> f s)"

section \<open>Descendants\<close>

text \<open>\<open>get_active_block_and_descendants\<close>; the head of the list is the top of the stack.\<close>

definition children_keys :: "hash_order \<Rightarrow> block_id \<Rightarrow> active_block \<Rightarrow> block_id list" where
  "children_keys ord h ab =
     concat (map (\<lambda>i. ord (Children h i) (fmdom (children ab ! i))) [0..<length (children ab)])"

function visit_descendants ::
    "hash_order \<Rightarrow> 'st statuses \<Rightarrow> block_id list \<Rightarrow> block_id fset \<Rightarrow> consensus_error + block_id fset" where
  "visit_descendants ord sts [] result = Inr result"
| "visit_descendants ord sts (h # to_visit) result =
     (if h |\<in>| result then visit_descendants ord sts to_visit result
      else case active_at sts h of
        Some ab \<Rightarrow> visit_descendants ord sts (rev (children_keys ord h ab) @ to_visit) (finsert h result)
      | None \<Rightarrow> Inl (ConsensusPanic (StatusInconsistency h)))"
  by pat_completeness auto

termination visit_descendants
proof (relation "measures [\<lambda>(ord, sts, hs, m). fcard (fmdom sts |-| m), \<lambda>(ord, sts, hs, m). length hs]")
  fix ord :: hash_order and sts :: "'st statuses" and h to_visit result ab
  assume "h |\<notin>| result" "active_at sts h = Some ab"
  moreover from this obtain s where "fmlookup sts h = Some s" by (auto simp: active_at_def split: option.splits)
  ultimately show "((ord, sts, rev (children_keys ord h ab) @ to_visit, finsert h result), ord, sts, h # to_visit, result)
      \<in> measures [\<lambda>(ord, sts, hs, m). fcard (fmdom sts |-| m), \<lambda>(ord, sts, hs, m). length hs]"
    by (simp add: fcard_unseen_less)
qed auto

definition get_active_block_and_descendants ::
    "hash_order \<Rightarrow> 'st statuses \<Rightarrow> block_id \<Rightarrow> consensus_error + block_id fset" where
  "get_active_block_and_descendants ord sts b = visit_descendants ord sts [b] {||}"

section \<open>The parents\<close>

definition thread_range :: "u8 \<Rightarrow> u8 list" where
  "thread_range n = map of_nat [0..<unat n]"

definition inherit_reason :: "discard_reason \<Rightarrow> discard_reason" where
  "inherit_reason r = (case r of
     InvalidBlock m \<Rightarrow> InvalidBlock (''discarded because a parent was discarded for the following reason: '' @ m)
   | _ \<Rightarrow> r)"

definition check_parent ::
    "'st consensus_state \<Rightarrow> secured_header \<Rightarrow> u8
      \<Rightarrow> (block_id \<times> u64) list \<times> block_id fset \<times> block_id fset
      \<Rightarrow> ((block_id \<times> u64) list \<times> block_id fset \<times> block_id fset) check" where
  "check_parent st header th acc = (case acc of (ps, incomp, missing_deps) \<Rightarrow>
     rbind (vec_get (header_parents header) (unat th)) (\<lambda>parent_hash.
       case fmlookup (statuses st) parent_hash of
         Some (Discarded _ _ _ reason _) \<Rightarrow> Inr (Inl (DiscardHeader (inherit_reason reason)))
       | Some (Active parent _) \<Rightarrow>
           if thread (active_slot parent) \<noteq> th \<or> header_slot header \<le> active_slot parent
           then Inr (Inl (DiscardHeader (InvalidBlock ''Bad parent'')))
           else (case fmlookup (gi_head st) parent_hash of
                   Some p_incomp \<Rightarrow>
                     if p_incomp |\<inter>| fset_of_list (header_parents header) \<noteq> {||}
                     then Inr (Inl (DiscardHeader (InvalidBlock ''Parent not mutually compatible'')))
                     else Inr (Inr (ps @ [(parent_hash, period (active_slot parent))], incomp |\<union>| p_incomp, missing_deps))
                 | None \<Rightarrow> Inr (Inr (ps @ [(parent_hash, period (active_slot parent))], incomp, missing_deps)))
       | _ \<Rightarrow>
           if parent_hash \<in> set (genesis_hashes st) then Inr (Inl (DiscardHeader StaleBlock))
           else Inr (Inr (ps, incomp, finsert parent_hash missing_deps))))"

section \<open>Topological consistency\<close>

definition check_grandparent ::
    "'st consensus_state \<Rightarrow> active_block \<Rightarrow> u8 \<Rightarrow> u8 \<Rightarrow> u64 list \<Rightarrow> u64 list check" where
  "check_grandparent st parent parent_i gp_i gp_max_slots =
     (if gp_i = parent_i then Inr (Inr gp_max_slots)
      else rbind (vec_get (parents parent) (unat gp_i)) (\<lambda>(gp_h, _).
        case fmlookup (statuses st) gp_h of
          Some (Discarded _ _ _ reason _) \<Rightarrow> Inr (Inl (DiscardHeader reason))
        | Some (Active gp _) \<Rightarrow>
            rbind (vec_get gp_max_slots (unat gp_i)) (\<lambda>gp_max.
              if gp_max < period (active_slot gp)
              then (if gp_i < parent_i then Inr (Inl (DiscardHeader (InvalidBlock ''grandpa error: gp_i < parent_i'')))
                    else rbind (vec_modify (unat gp_i) (\<lambda>_. period (active_slot gp)) gp_max_slots) (\<lambda>l. Inr (Inr l)))
              else Inr (Inr gp_max_slots))
        | _ \<Rightarrow> Inr (Inl (DiscardHeader StaleBlock))))"

definition check_topology ::
    "'st consensus_state \<Rightarrow> (block_id \<times> u64) list \<Rightarrow> u8 \<Rightarrow> u64 list \<Rightarrow> u64 list check" where
  "check_topology st ps parent_i gp_max_slots =
     rbind (vec_get ps (unat parent_i)) (\<lambda>(parent_h, parent_period).
       case active_at (statuses st) parent_h of
         None \<Rightarrow> Inl (ConsensusPanic (StatusInconsistency parent_h))
       | Some parent \<Rightarrow>
           rbind (vec_get gp_max_slots (unat parent_i)) (\<lambda>gp_max.
             if parent_period < gp_max
             then Inr (Inl (DiscardHeader
               (InvalidBlock ''a parent is earlier than a block known by another parent in that thread'')))
             else rbind (vec_modify (unat parent_i) (\<lambda>_. parent_period) gp_max_slots) (\<lambda>gp_max_slots.
               if parent_period = cfg_last_start_period (config st) then Inr (Inr gp_max_slots)
               else loop_or_return (check_grandparent st parent parent_i)
                      (thread_range (cfg_thread_count (config st))) gp_max_slots)))"

section \<open>Endorsements\<close>

definition check_endorsement :: "address list \<Rightarrow> header_endorsement \<Rightarrow> unit \<Rightarrow> unit check" where
  "check_endorsement draws endorsement u =
     rbind (vec_get draws (unat (endorsement_index endorsement))) (\<lambda>draw.
       if endorser_address endorsement \<noteq> draw
       then Inr (Inl (DiscardHeader (InvalidBlock ''endorser draw mismatch for header in slot'')))
       else Inr (Inr ()))"

definition check_endorsements :: "selector \<Rightarrow> secured_header \<Rightarrow> unit check" where
  "check_endorsements sel header =
     (case get_selection sel (header_slot header) of
        None \<Rightarrow> Inr (Inl WaitForSlot)
      | Some draws \<Rightarrow> loop_or_return (check_endorsement draws) (header_endorsements header) ())"

section \<open>Incompatibilities\<close>

text \<open>The ancestors in the threads of the parents, down to the first final ones.\<close>

function traverse_ancestors ::
    "'st statuses \<Rightarrow> block_id list \<Rightarrow> block_id fset \<Rightarrow> u64 list \<Rightarrow> consensus_error + block_id fset \<times> u64 list" where
  "traverse_ancestors sts [] ancestor_ids earliest = Inr (ancestor_ids, earliest)"
| "traverse_ancestors sts (h # to_traverse) ancestor_ids earliest =
     (if h |\<in>| ancestor_ids then traverse_ancestors sts to_traverse ancestor_ids earliest
      else case active_at sts h of
        None \<Rightarrow> traverse_ancestors sts to_traverse (finsert h ancestor_ids) earliest
      | Some ancestor \<Rightarrow>
          let th = unat (thread (active_slot ancestor)) in
          case vec_modify th (\<lambda>p. min p (period (active_slot ancestor))) earliest of
            Inl e \<Rightarrow> Inl e
          | Inr earliest' \<Rightarrow>
              traverse_ancestors sts
                ((if \<not> is_final ancestor \<and> th < length (parents ancestor) then [fst (parents ancestor ! th)] else [])
                   @ to_traverse)
                (finsert h ancestor_ids) earliest')"
  by pat_completeness auto

termination traverse_ancestors
proof (relation "measures [\<lambda>(sts, hs, m, l). fcard (fmdom sts |-| m), \<lambda>(sts, hs, m, l). length hs]")
  fix sts :: "'st statuses" and h to_traverse ancestor_ids earliest ab th es
  assume "h |\<notin>| ancestor_ids" "active_at sts h = Some ab"
  moreover from this obtain s where "fmlookup sts h = Some s" by (auto simp: active_at_def split: option.splits)
  ultimately show "((sts, (if \<not> is_final ab \<and> th < length (parents ab) then [fst (parents ab ! th)] else []) @ to_traverse,
        finsert h ancestor_ids, es), sts, h # to_traverse, ancestor_ids, earliest)
      \<in> measures [\<lambda>(sts, hs, m, l). fcard (fmdom sts |-| m), \<lambda>(sts, hs, m, l). length hs]"
    by (simp add: fcard_unseen_less)
next
  fix sts :: "'st statuses" and h to_traverse ancestor_ids earliest
  have "fmdom sts |-| finsert h ancestor_ids |\<subseteq>| fmdom sts |-| ancestor_ids" by auto
  then have "fcard (fmdom sts |-| finsert h ancestor_ids) \<le> fcard (fmdom sts |-| ancestor_ids)" by (rule fcard_mono)
  then show "((sts, to_traverse, finsert h ancestor_ids, earliest), sts, h # to_traverse, ancestor_ids, earliest)
      \<in> measures [\<lambda>(sts, hs, m, l). fcard (fmdom sts |-| m), \<lambda>(sts, hs, m, l). length hs]"
    by auto
qed auto

text \<open>Two blocks, none an ancestor of the other, are incompatible at one slot or \<open>t0\<close> or more apart.\<close>

definition slots_incompatible :: "u8 \<Rightarrow> slot \<Rightarrow> slot \<Rightarrow> consensus_error + bool" where
  "slots_incompatible thread_count s traversed =
     (if s = traversed then Inr True
      else rbind (map_err (\<lambda>_. ConsensusPanic SlotArithmetic)
             (if traversed < s then slots_since s traversed thread_count
              else slots_since traversed s thread_count)) (\<lambda>n.
        Inr (u8_to_u64 thread_count \<le> n)))"

definition check_incompatibility ::
    "hash_order \<Rightarrow> 'st consensus_state \<Rightarrow> secured_header \<Rightarrow> block_id fset \<Rightarrow> u64 list
      \<Rightarrow> block_id \<Rightarrow> block_id fset \<Rightarrow> block_id fset check" where
  "check_incompatibility ord st header ancestor_ids earliest traversed_id incomp =
     (if traversed_id |\<in>| ancestor_ids then Inr (Inr incomp)
      else case active_at (statuses st) traversed_id of
        None \<Rightarrow> Inl (ConsensusPanic (StatusInconsistency traversed_id))
      | Some traversed \<Rightarrow>
          rbind (vec_get earliest (unat (thread (active_slot traversed)))) (\<lambda>p.
            if period (active_slot traversed) < p then Inr (Inr incomp)
            else rbind (slots_incompatible (cfg_thread_count (config st)) (header_slot header) (active_slot traversed))
              (\<lambda>incompatible.
                if incompatible
                then (if is_final traversed then Inr (Inl (DiscardHeader StaleBlock))
                      else rbind (get_active_block_and_descendants ord (statuses st) traversed_id) (\<lambda>ds.
                        Inr (Inr (incomp |\<union>| ds))))
                else Inr (Inr incomp))))"

definition final_blocks :: "'st consensus_state \<Rightarrow> block_id fset" where
  "final_blocks st =
     ffilter (\<lambda>h. case active_at (statuses st) h of Some a \<Rightarrow> is_final a | None \<Rightarrow> False)
       (active_index (blocks_state st))"

section \<open>The check of a header\<close>

definition check_header_body ::
    "hash_order \<Rightarrow> selector \<Rightarrow> 'st consensus_state \<Rightarrow> secured_header \<Rightarrow> header_check_outcome check" where
  "check_header_body ord sel st header =
     and_then (loop_or_return (check_parent st header) (thread_range (cfg_thread_count (config st))) ([], {||}, {||}))
       (\<lambda>(ps, incomp, missing_deps).
     if missing_deps \<noteq> {||} then Inr (Inl (WaitForDependencies missing_deps))
     else let inherited_incomp_count = fcard incomp in
     and_then (loop_or_return (check_topology st ps) (thread_range (cfg_thread_count (config st)))
         (replicate (unat (cfg_thread_count (config st))) 0)) (\<lambda>_.
     and_then (check_endorsements sel header) (\<lambda>_.
     rbind (traverse_ancestors (statuses st) (rev (header_parents header)) {||} (map snd ps)) (\<lambda>(ancestor_ids, earliest).
     and_then (loop_or_return (check_incompatibility ord st header ancestor_ids earliest)
         (ord Active_Blocks (active_index (blocks_state st))) incomp) (\<lambda>incomp.
       if incomp |\<inter>| fset_of_list (map fst ps) \<noteq> {||}
       then Inr (Inl (DiscardHeader (InvalidBlock ''Block incompatible with a parent'')))
       else if incomp |\<inter>| final_blocks st \<noteq> {||} then Inr (Inl (DiscardHeader StaleBlock))
       else Inr (Inr (Proceed ps incomp inherited_incomp_count
              (of_nat (length (header_endorsements header)) + 1))))))))"

definition check_header ::
    "hash_order \<Rightarrow> selector \<Rightarrow> 'st consensus_state \<Rightarrow> secured_header \<Rightarrow> slot option
      \<Rightarrow> consensus_error + header_check_outcome" where
  "check_header ord sel st header current_slot =
     rbind (vec_get (latest_final_blocks_periods st) (unat (thread (header_slot header)))) (\<lambda>(_, latest).
       if period (header_slot header) \<le> latest then Inr (DiscardHeader StaleBlock)
       else case get_producer sel (header_slot header) of
         None \<Rightarrow> Inr WaitForSlot
       | Some slot_draw_address \<Rightarrow>
           if content_creator_address header \<noteq> slot_draw_address
           then Inr (DiscardHeader (InvalidBlock ''Bad creator turn for the slot''))
           else if (case current_slot of None \<Rightarrow> True | Some s \<Rightarrow> s < header_slot header) then Inr WaitForSlot
           else rbind (check_header_body ord sel st header) (\<lambda>r.
             Inr (case r of Inl out \<Rightarrow> out | Inr out \<Rightarrow> out)))"

section \<open>What an accepted header satisfies\<close>

lemma return_case_eq [result_simps]:
  "(case r of Inl out \<Rightarrow> Inr (Inl out) | Inr s \<Rightarrow> f s) = Inr (Inr y) \<longleftrightarrow> (\<exists>s. r = Inr s \<and> f s = Inr (Inr y))"
  by (cases r) auto

lemma loop_or_return_inv:
  assumes step: "\<And>x s s'. P s \<Longrightarrow> f x s = Inr (Inr s') \<Longrightarrow> P s'"
    and "P s" "loop_or_return f xs s = Inr (Inr s')"
  shows "P s'"
  using assms(2,3)
proof (induction xs arbitrary: s)
  case (Cons x xs)
  obtain t where t: "f x s = Inr (Inr t)" "loop_or_return f xs t = Inr (Inr s')"
    using Cons.prems(2) by (auto simp: result_simps)
  then show ?case using Cons.IH step [OF Cons.prems(1)] by blast
qed simp

lemma and_then_eq [result_simps]:
  "and_then r f = Inr (Inr y) \<longleftrightarrow> (\<exists>s. r = Inr (Inr s) \<and> f s = Inr (Inr y))"
  by (auto simp: and_then_def result_simps)

lemma visit_descendants_active:
  assumes "visit_descendants ord sts hs r = Inr r'" "\<And>v. v |\<in>| r \<Longrightarrow> active_at sts v \<noteq> None"
  shows "v |\<in>| r' \<Longrightarrow> active_at sts v \<noteq> None"
  using assms
proof (induction ord sts hs r rule: visit_descendants.induct)
  case (2 ord sts h to_visit result)
  show ?case
  proof (cases "h |\<in>| result")
    case True
    then show ?thesis using 2 by simp
  next
    case False
    then obtain ab where ab: "active_at sts h = Some ab" using 2 by (auto split: option.splits)
    then show ?thesis using 2 False by auto
  qed
qed simp

definition inherits :: "'st consensus_state \<Rightarrow> secured_header \<Rightarrow> block_id list \<Rightarrow> block_id fset \<Rightarrow> bool" where
  "inherits st header ps incomp \<longleftrightarrow>
     (\<forall>v. v |\<in>| incomp \<longleftrightarrow> (\<exists>p\<in>set ps. v |\<in>| incomp_of (gi_head st) p)) \<and>
     (\<forall>p\<in>set ps. \<forall>q\<in>set ps. q |\<notin>| incomp_of (gi_head st) p) \<and> set ps \<subseteq> set (header_parents header)"

lemma check_parent_inherits:
  assumes inv: "inherits st header (map fst ps) incomp" "\<forall>p\<in>set (map fst ps). incomp_of (gi_head st) p |\<inter>| fset_of_list (header_parents header) = {||}"
    and step: "check_parent st header th (ps, incomp, missing) = Inr (Inr (ps', incomp', missing'))"
  shows "inherits st header (map fst ps') incomp' \<and>
    (\<forall>p\<in>set (map fst ps'). incomp_of (gi_head st) p |\<inter>| fset_of_list (header_parents header) = {||})"
proof -
  obtain h where h: "vec_get (header_parents header) (unat th) = Inr h"
    using step by (auto simp: check_parent_def result_simps)
  then have hp: "h \<in> set (header_parents header)" by (auto simp: vec_get_def split: if_splits)
  have "ps' = ps \<and> incomp' = incomp \<or>
      (\<exists>n. ps' = ps @ [(h, n)]) \<and> incomp' = incomp |\<union>| incomp_of (gi_head st) h \<and>
      incomp_of (gi_head st) h |\<inter>| fset_of_list (header_parents header) = {||}"
    using step h by (auto simp: check_parent_def incomp_of_def split: option.splits block_status.splits if_splits)
  then show ?thesis
  proof
    assume "(\<exists>n. ps' = ps @ [(h, n)]) \<and> incomp' = incomp |\<union>| incomp_of (gi_head st) h \<and>
      incomp_of (gi_head st) h |\<inter>| fset_of_list (header_parents header) = {||}"
    then obtain n where new: "ps' = ps @ [(h, n)]" "incomp' = incomp |\<union>| incomp_of (gi_head st) h"
      and dis: "incomp_of (gi_head st) h |\<inter>| fset_of_list (header_parents header) = {||}" by blast
    have all: "\<forall>p\<in>set (map fst ps'). incomp_of (gi_head st) p |\<inter>| fset_of_list (header_parents header) = {||}"
      using inv(2) dis by (simp add: new)
    have sub: "set (map fst ps') \<subseteq> set (header_parents header)" using inv(1) hp by (auto simp: inherits_def new)
    have "q |\<notin>| incomp_of (gi_head st) p" if "p \<in> set (map fst ps')" "q \<in> set (map fst ps')" for p q
    proof -
      have "incomp_of (gi_head st) p |\<inter>| fset_of_list (header_parents header) = {||}" using all that(1) by blast
      moreover have "q |\<in>| fset_of_list (header_parents header)" using sub that(2) by (auto simp: fset_of_list_elem)
      ultimately show ?thesis by blast
    qed
    moreover have "v |\<in>| incomp' \<longleftrightarrow> (\<exists>p\<in>set (map fst ps'). v |\<in>| incomp_of (gi_head st) p)" for v
      using inv(1) unfolding inherits_def new by auto
    ultimately show ?thesis using all sub unfolding inherits_def by blast
  qed (use inv in simp)
qed

lemma check_parents_inherit:
  assumes "loop_or_return (check_parent st header) ths ([], {||}, {||}) = Inr (Inr (ps, incomp, missing))"
  shows "inherits st header (map fst ps) incomp"
proof -
  define P where "P = (\<lambda>(ps :: (block_id \<times> u64) list, incomp, missing :: block_id fset). inherits st header (map fst ps) incomp \<and>
    (\<forall>p\<in>set (map fst ps). incomp_of (gi_head st) p |\<inter>| fset_of_list (header_parents header) = {||}))"
  have "P (ps, incomp, missing)"
  proof (rule loop_or_return_inv [where P = P, OF _ _ assms])
    fix th s s'
    assume *: "P s" "check_parent st header th s = Inr (Inr s')"
    obtain qs i m qs' i' m' where s: "s = (qs, i, m)" "s' = (qs', i', m')" by (metis prod_cases3)
    show "P s'"
      using * check_parent_inherits [of st header qs i th m qs' i' m'] unfolding s P_def prod.case by blast
  qed (simp add: P_def inherits_def)
  then show ?thesis by (simp add: P_def)
qed

lemma check_incompatibilities_grow:
  assumes "loop_or_return (check_incompatibility ord st header ancestors earliest) bs incomp = Inr (Inr incomp')"
  shows "incomp |\<subseteq>| incomp' \<and> (\<forall>v. v |\<in>| incomp' \<longrightarrow> v |\<in>| incomp \<or> active_at (statuses st) v \<noteq> None)"
proof (rule loop_or_return_inv [OF _ _ assms,
    where P = "\<lambda>i. incomp |\<subseteq>| i \<and> (\<forall>v. v |\<in>| i \<longrightarrow> v |\<in>| incomp \<or> active_at (statuses st) v \<noteq> None)"])
  fix b i i'
  assume i: "incomp |\<subseteq>| i \<and> (\<forall>v. v |\<in>| i \<longrightarrow> v |\<in>| incomp \<or> active_at (statuses st) v \<noteq> None)"
    and "check_incompatibility ord st header ancestors earliest b i = Inr (Inr i')"
  then have "i' = i \<or> (\<exists>ds. get_active_block_and_descendants ord (statuses st) b = Inr ds \<and> i' = i |\<union>| ds)"
    by (auto simp: check_incompatibility_def result_simps split: if_splits option.splits)
  moreover have "active_at (statuses st) v \<noteq> None"
    if "get_active_block_and_descendants ord (statuses st) b = Inr ds" "v |\<in>| ds" for ds v
    using visit_descendants_active [of ord "statuses st" "[b]" "{||}" ds v] that
    unfolding get_active_block_and_descendants_def by simp
  ultimately show "incomp |\<subseteq>| i' \<and> (\<forall>v. v |\<in>| i' \<longrightarrow> v |\<in>| incomp \<or> active_at (statuses st) v \<noteq> None)"
    using i by blast
qed simp

text \<open>The loops return early only to discard the header or to make it wait.\<close>

definition early :: "'e + (header_check_outcome + 's) \<Rightarrow> bool" where
  "early r \<longleftrightarrow> (\<forall>ps incomp n fit. r \<noteq> Inr (Inl (Proceed ps incomp n fit)))"

lemma early_loop:
  assumes "\<And>x s. early (f x s)"
  shows "early (loop_or_return f xs s)"
proof (induction xs arbitrary: s)
  case (Cons x xs)
  then show ?case using assms [of x s] by (auto simp: early_def result_simps split: sum.splits)
qed (simp add: early_def)

lemma early_and_then: "early r \<Longrightarrow> (\<And>s. early (f s)) \<Longrightarrow> early (and_then r f)"
  by (auto simp: early_def and_then_def result_simps split: sum.splits)

lemma early_rbind: "(\<And>s. early (f s)) \<Longrightarrow> early (rbind r f)"
  by (auto simp: early_def result_simps)

lemma early_check_parent: "early (check_parent st header th s)"
  by (auto simp: early_def check_parent_def result_simps split: prod.splits option.splits block_status.splits if_splits)

lemma early_check_grandparent: "early (check_grandparent st parent i j l)"
  by (auto simp: early_def check_grandparent_def result_simps split: prod.splits option.splits block_status.splits if_splits)

lemma early_check_topology: "early (check_topology st ps i l)"
  unfolding check_topology_def
  by (auto intro!: early_rbind early_loop early_check_grandparent split: prod.splits option.splits)
    (auto simp: early_def)

lemma early_check_endorsements: "early (check_endorsements sel header)"
proof -
  have "early (check_endorsement draws e u)" for draws e u
    by (auto simp: early_def check_endorsement_def result_simps split: if_splits)
  then show ?thesis
    by (auto simp: check_endorsements_def early_loop split: option.splits) (auto simp: early_def)
qed

lemma early_check_incompatibility: "early (check_incompatibility ord st header an ea b i)"
  by (auto simp: early_def check_incompatibility_def result_simps split: option.splits if_splits)

lemma check_header_body_early: "early (check_header_body ord sel st header)"
  unfolding check_header_body_def Let_def
  by (auto intro!: early_and_then early_rbind early_loop early_check_parent early_check_topology
      early_check_endorsements early_check_incompatibility split: prod.splits) (auto simp: early_def)

text \<open>
  A header that may proceed has compatible parents, inherits their incompatibilities, and is compatible with
  its parents and with every final block.
\<close>

lemma check_header_Proceed:
  assumes inv: "graph_inv st" and "check_header ord sel st header current_slot = Inr (Proceed ps incomp inherited fit)"
  obtains inh where "inherits st header (map fst ps) inh" "inherited = fcard inh" "inh |\<subseteq>| incomp"
    "incomp |\<inter>| fset_of_list (map fst ps) = {||}" "incomp |\<subseteq>| fmdom (gi_head st)"
proof -
  obtain r where r: "check_header_body ord sel st header = Inr r"
    "(case r of Inl out \<Rightarrow> out | Inr out \<Rightarrow> out) = Proceed ps incomp inherited fit"
    using assms(2) by (auto simp: check_header_def result_simps split: if_splits option.splits)
  have "r = Inr (Proceed ps incomp inherited fit)"
    using r check_header_body_early [of ord sel st header] by (cases r) (auto simp: early_def)
  then have body: "check_header_body ord sel st header = Inr (Inr (Proceed ps incomp inherited fit))" using r(1) by simp
  obtain inh an ea miss where
    loop: "loop_or_return (check_parent st header) (thread_range (cfg_thread_count (config st))) ([], {||}, {||})
       = Inr (Inr (ps, inh, miss))"
    and inh: "inherited = fcard inh"
    and incomp: "loop_or_return (check_incompatibility ord st header an ea) (ord Active_Blocks (active_index (blocks_state st))) inh
       = Inr (Inr incomp)"
    and dis: "incomp |\<inter>| fset_of_list (map fst ps) = {||}" "incomp |\<inter>| final_blocks st = {||}"
    using body unfolding check_header_body_def
    by (auto simp: result_simps Let_def split: if_splits prod.splits simp del: fset_of_list_map)
  have parents: "inherits st header (map fst ps) inh" by (rule check_parents_inherit [OF loop])
  have grow: "inh |\<subseteq>| incomp" "\<And>v. v |\<in>| incomp \<Longrightarrow> v |\<in>| inh \<or> active_at (statuses st) v \<noteq> None"
    using check_incompatibilities_grow [OF incomp] by blast+
  have wf: "gi_wf (gi_head st)" and ix: "indexes_ok (blocks_state st)" and dom: "gi_domain {} st"
    using inv by (simp_all add: graph_inv_but_def graph_core_def)
  have "v |\<in>| fmdom (gi_head st)" if v: "v |\<in>| incomp" for v
    using grow(2) [OF v]
  proof
    assume "v |\<in>| inh"
    then show ?thesis using parents incomp_of_dom [OF wf] unfolding inherits_def by blast
  next
    assume "active_at (statuses st) v \<noteq> None"
    then obtain a where a: "active_at (statuses st) v = Some a" by blast
    then have "status_at (blocks_state st) v = Some ID_Active"
      by (auto simp: active_at_def status_at_def split: option.splits block_status.splits)
    then have "v |\<in>| active_index (blocks_state st)" using ix unfolding indexes_ok_def by (metis index_of.simps(5))
    then have "\<not> is_final a" using dis(2) v a by (auto simp: final_blocks_def)
    then show ?thesis using dom a by (auto simp: gi_domain_def)
  qed
  then show thesis using that [OF parents inh grow(1) dis(1)] by blast
qed

section \<open>The extension of the cliques\<close>

text \<open>A fork: blocks 1 and 3 at the same slot, and the header of block 2, a child of block 1.\<close>

definition sample_fork :: "unit consensus_state" where
  "sample_fork =
     \<lparr> config = \<lparr> cfg_thread_count = 1, cfg_t0 = 16000, cfg_genesis_timestamp = 0, cfg_delta_f0 = 10,
         cfg_last_start_period = 0 \<rparr>,
       genesis_hashes = [BlockIdV0 0],
       gi_head = fmap_of_list [(BlockIdV0 1, {|BlockIdV0 3|}), (BlockIdV0 3, {|BlockIdV0 1|})],
       max_cliques =
         [\<lparr> block_ids = {|BlockIdV0 1|}, clique_fitness = 1, is_blockclique = True \<rparr>,
          \<lparr> block_ids = {|BlockIdV0 3|}, clique_fitness = 1, is_blockclique = False \<rparr>],
       latest_final_blocks_periods = [(BlockIdV0 0, 0)],
       blocks_state =
         \<lparr> block_statuses = fmap_of_list
             [(BlockIdV0 1, Active (sample_block (BlockIdV0 1) 1 [(BlockIdV0 0, 0)]) (FullStorage ())),
              (BlockIdV0 3, Active (sample_block (BlockIdV0 3) 1 [(BlockIdV0 0, 0)]) (FullStorage ()))],
           incoming_index = {||}, sequence_counter = 0, waiting_for_slot_index = {||},
           waiting_for_dependencies_index = {||}, discarded_index = {||},
           active_index = {|BlockIdV0 1, BlockIdV0 3|} \<rparr>,
       best_parents = [(BlockIdV0 1, 1)],
       new_final_blocks = {||},
       new_stale_blocks = fmempty \<rparr>"

definition sample_header :: secured_header where
  "sample_header = \<lparr> header_id = BlockIdV0 2, content_creator_address = Address_User [], header_slot = Slot 2 0,
     header_parents = [BlockIdV0 1], header_endorsements = [] \<rparr>"

definition sample_selector :: selector where
  "sample_selector = \<lparr> get_producer = \<lambda>_. Some (Address_User []), get_selection = \<lambda>_. Some [] \<rparr>"

lemma sample_fork_active:
  "active_at (statuses sample_fork) b =
     (if b = BlockIdV0 1 then Some (sample_block (BlockIdV0 1) 1 [(BlockIdV0 0, 0)])
      else if b = BlockIdV0 3 then Some (sample_block (BlockIdV0 3) 1 [(BlockIdV0 0, 0)]) else None)"
  by (simp add: sample_fork_def active_at_def)

lemma sample_fork_gi:
  "incomp_of (gi_head sample_fork) u =
     (if u = BlockIdV0 1 then {|BlockIdV0 3|} else if u = BlockIdV0 3 then {|BlockIdV0 1|} else {||})"
  "fmdom (gi_head sample_fork) = {|BlockIdV0 1, BlockIdV0 3|}"
  by (simp_all add: sample_fork_def incomp_of_def)

lemma sample_fork_maximal: "maximal_compatible (gi_head sample_fork) = {{|BlockIdV0 1|}, {|BlockIdV0 3|}}"
proof
  show "{{|BlockIdV0 1|}, {|BlockIdV0 3|}} \<subseteq> maximal_compatible (gi_head sample_fork)"
    by (auto simp: maximal_compatible_def compatible_def sample_fork_gi)
next
  show "maximal_compatible (gi_head sample_fork) \<subseteq> {{|BlockIdV0 1|}, {|BlockIdV0 3|}}"
  proof
    fix m assume m: "m \<in> maximal_compatible (gi_head sample_fork)"
    have c: "compatible (gi_head sample_fork) {|BlockIdV0 1|}" "compatible (gi_head sample_fork) {|BlockIdV0 3|}"
      by (auto simp: compatible_def sample_fork_gi)
    have "m |\<subseteq>| {|BlockIdV0 1, BlockIdV0 3|}" and "u |\<in>| m \<Longrightarrow> v |\<in>| m \<Longrightarrow> v |\<notin>| incomp_of (gi_head sample_fork) u" for u v
      using maximal_compatible_compatible [OF m] unfolding compatible_def sample_fork_gi(2) by blast+
    from this(1) this(2) [of "BlockIdV0 1" "BlockIdV0 3"] have "m |\<subseteq>| {|BlockIdV0 1|} \<or> m |\<subseteq>| {|BlockIdV0 3|}"
      by (auto simp: sample_fork_gi)
    then show "m \<in> {{|BlockIdV0 1|}, {|BlockIdV0 3|}}"
      using maximal_compatibleD [OF m c(1)] maximal_compatibleD [OF m c(2)] by blast
  qed
qed

lemma sample_fork_inv: "graph_inv sample_fork"
proof -
  have "b |\<in>| index_of (blocks_state sample_fork) i \<longleftrightarrow> status_at (blocks_state sample_fork) b = Some i" for b i
    by (cases i) (simp_all add: sample_fork_def status_at_def)
  then have "indexes_ok (blocks_state sample_fork)" by (simp add: indexes_ok_def)
  then have "graph_core sample_fork"
    unfolding graph_core_def sample_fork_active
    by (simp add: gi_wf_def sample_fork_gi sample_block_def) (simp add: sample_fork_def)
  moreover have "gi_domain {} sample_fork"
    unfolding gi_domain_def sample_fork_active sample_fork_gi by (simp add: sample_block_def)
  moreover have "cliques_ok (gi_head sample_fork) (max_cliques sample_fork)"
    unfolding cliques_ok_def sample_fork_maximal by (simp add: sample_fork_def)
  moreover have "scored (statuses sample_fork) (max_cliques sample_fork)"
  proof -
    have "set_fitness (statuses sample_fork) {|BlockIdV0 1|} = 1" "set_fitness (statuses sample_fork) {|BlockIdV0 3|} = 1"
      by (simp_all add: set_fitness_def block_fitness_def sample_fork_active sample_block_def)
    then show ?thesis by (simp add: scored_def) (simp add: sample_fork_def)
  qed
  moreover have "elected (max_cliques sample_fork)" by (simp add: elected_def sample_fork_def)
  moreover have "covers {} (gi_head sample_fork) (max_cliques sample_fork)"
    unfolding covers_def sample_fork_gi by (simp add: sample_fork_def)
  ultimately show ?thesis by (simp add: graph_inv_but_def)
qed

lemma sample_header_proceeds:
  "check_header sorted_order sample_selector sample_fork sample_header (Some (Slot 2 0)) =
     Inr (Proceed [(BlockIdV0 1, 1)] {|BlockIdV0 3|} 1 1)"
proof -
  let ?b1 = "BlockIdV0 1" and ?b3 = "BlockIdV0 3"
  have range: "thread_range (cfg_thread_count (config sample_fork)) = [0]"
    by (simp add: thread_range_def sample_fork_def)
  have parents: "loop_or_return (check_parent sample_fork sample_header) [0] ([], {||}, {||}) =
      Inr (Inr ([(?b1, 1)], {|?b3|}, {||}))"
    by (simp add: check_parent_def vec_get_def sample_header_def sample_fork_def sample_block_def less_eq_slot_def)
  have topology: "loop_or_return (check_topology sample_fork [(?b1, 1)]) [0] [0] = Inr (Inr [1])"
    by (simp add: check_topology_def sample_fork_active vec_get_def vec_modify_def range check_grandparent_def)
  have endorsements: "check_endorsements sample_selector sample_header = Inr (Inr ())"
    by (simp add: check_endorsements_def sample_selector_def sample_header_def)
  have ancestors: "traverse_ancestors (statuses sample_fork) [?b1] {||} [1] = Inr ({|BlockIdV0 0, ?b1|}, [1])"
    by (simp add: sample_fork_active sample_block_def vec_modify_def)
  have descendants: "get_active_block_and_descendants sorted_order (statuses sample_fork) ?b3 = Inr {|?b3|}"
    by (simp add: get_active_block_and_descendants_def sample_fork_active children_keys_def sample_block_def sorted_order_def sorted_list_of_fset.rep_eq)
  have order: "sorted_order Active_Blocks (active_index (blocks_state sample_fork)) = [?b1, ?b3]"
    by (simp add: sorted_order_def sample_fork_def sorted_list_of_fset.rep_eq less_eq_block_id_def)
  have apart: "slots_incompatible 1 (Slot 2 0) (Slot 1 0) = Inr True"
    by (simp add: slots_incompatible_def slots_since_def less_slot_def checked_mul_def checked_add_def saturating_sub_def)
  have tc: "cfg_thread_count (config sample_fork) = 1" by (simp add: sample_fork_def)
  have hps: "header_parents sample_header = [?b1]" "header_endorsements sample_header = []" "header_slot sample_header = Slot 2 0"
    by (simp_all add: sample_header_def)
  have block: "active_slot (sample_block b p ps) = Slot p 0" "is_final (sample_block b p ps) = False" for b p ps
    by (simp_all add: sample_block_def)
  have incompatible: "loop_or_return (check_incompatibility sorted_order sample_fork sample_header {|BlockIdV0 0, ?b1|} [1])
      [?b1, ?b3] {|?b3|} = Inr (Inr {|?b3|})"
    by (simp add: check_incompatibility_def sample_fork_active vec_get_def descendants tc hps block apart)
  have finals: "final_blocks sample_fork = {||}"
    by (auto simp: final_blocks_def sample_fork_active sample_block_def)
  have "check_header_body sorted_order sample_selector sample_fork sample_header =
      Inr (Inr (Proceed [(?b1, 1)] {|?b3|} 1 1))"
    by (simp add: check_header_body_def range [unfolded tc] parents and_then_def Let_def order tc topology endorsements hps
        ancestors incompatible finals fcard.rep_eq del: loop_or_return.simps traverse_ancestors.simps)
  then show ?thesis
    by (simp add: check_header_def) (simp add: sample_fork_def vec_get_def sample_header_def sample_selector_def)
qed

text \<open>
  A header whose incompatibilities are all inherited: the blocks it is incompatible with are exactly those that
  its parents in the graph are incompatible with.
\<close>

lemma check_header_inherited:
  assumes inv: "graph_inv st"
    and ok: "check_header ord sel st header current_slot = Inr (Proceed ps incomp inherited fit)"
    and count: "fcard incomp = inherited"
  obtains qs where "qs |\<subseteq>| fmdom (gi_head st)" "incomp |\<subseteq>| fmdom (gi_head st)"
    "\<And>v. v |\<in>| incomp \<longleftrightarrow> (\<exists>p. p |\<in>| qs \<and> v |\<in>| incomp_of (gi_head st) p)"
    "\<And>p q. p |\<in>| qs \<Longrightarrow> q |\<in>| qs \<Longrightarrow> p |\<notin>| incomp_of (gi_head st) q"
proof -
  obtain inh where inh: "inherits st header (map fst ps) inh" "inherited = fcard inh" "inh |\<subseteq>| incomp"
    "incomp |\<subseteq>| fmdom (gi_head st)"
    using check_header_Proceed [OF inv ok] by metis
  have eq: "inh = incomp" using fcard_seteq [OF inh(3)] count inh(2) by simp
  define qs where "qs = ffilter (\<lambda>p. p |\<in>| fmdom (gi_head st)) (fset_of_list (map fst ps))"
  have qs: "p |\<in>| qs \<longleftrightarrow> p \<in> set (map fst ps) \<and> p |\<in>| fmdom (gi_head st)" for p
    by (auto simp: qs_def fset_of_list_elem)
  have wf: "gi_wf (gi_head st)" using inv by (simp add: graph_inv_but_def graph_core_def)
  have "v |\<in>| incomp \<longleftrightarrow> (\<exists>p. p |\<in>| qs \<and> v |\<in>| incomp_of (gi_head st) p)" for v
    using inh(1) incomp_of_dom [OF wf] unfolding inherits_def eq qs by blast
  moreover have "p |\<notin>| incomp_of (gi_head st) q" if "p |\<in>| qs" "q |\<in>| qs" for p q
    using inh(1) that unfolding inherits_def qs by blast
  moreover have "qs |\<subseteq>| fmdom (gi_head st)" by (auto simp: qs)
  ultimately show thesis using that inh(4) by blast
qed



end
