(* ===== verification/Spec2Isabelle.thy ===== *)
theory Spec2Isabelle
  imports Massa_Bootstrap_Stream Massa_Deferred_Registry Massa_Speculative_Ledger Massa_Mip_Store
    Massa_Header_Check
begin

text \<open>
  Verification of the Massa node (Rust workspace under \<^verbatim>\<open>src/\<close>): the block graph and its clock, the
  data that execution changes, the database that stores the final state, and the streaming of that state
  to a node that bootstraps.

  \<^bold>\<open>The program.\<close>  Blocks are produced in slots, pairs of a period and a thread.  Consensus keeps
  the graph of the recent blocks, the pairs of them that are incompatible and the maximal cliques of compatible ones;
  the best clique is executed, blocks outside the good cliques are stale, and blocks with enough descendants
  become final.  Executing the slots in
  order changes a ledger, a pool of asynchronous messages, registers of executed operations and
  denunciations, a registry of deferred calls, and proof-of-stake data.  The changes of a slot are collected as data
  (\<^verbatim>\<open>SetUpdateOrDelete\<close>, \<^verbatim>\<open>SetOrDelete\<close>, \<^verbatim>\<open>SetOrKeep\<close>), merged with later ones while the slot can
  still be reverted, and written to a RocksDB database as one batch when the slot becomes final.  The
  database keeps a running hash of its content and a history of the last batches; a server streams the
  content to a new node while it goes on changing, and the node checks the hash at the end.

  \<^bold>\<open>Conventions.\<close>  Machine integers are words; \<open>checked_*\<close> and \<open>saturating_*\<close> are the Rust operations.
  A \<^verbatim>\<open>Result\<close> is a sum with the error on the left, a panic is an error constructor of its own, a loop that
  may not return is a \<open>partial_function\<close> whose value \<open>None\<close> is not returning.  An ordered map is a
  strictly sorted association list, a hash map that is not iterated is a HOL map, and one that is compared
  as a whole is a finite map.  Where the source iterates over a hash set, the order is an argument
  (\<open>hash_order\<close>) that gives each traversal any enumeration of the set (\<open>traverses\<close>); the theorems hold
  for all of them.  Third-party code is a parameter: the variable-length integer package
  (\<open>varint_lib\<close>), the hash functions, the size of a RocksDB write batch, the
  selector that draws the producer and the endorsers of a slot.

  \<^bold>\<open>Theories.\<close>
  \<^item> \<open>Massa_Prelude\<close>, \<open>Massa_Bytes\<close>, \<open>Massa_BTree\<close>, \<open>Massa_Types\<close>: integers, results, big-endian
    bytes, ordered maps (locale \<open>ordered_map\<close>), the change algebra of \<^verbatim>\<open>massa-models/src/types.rs\<close> (locales
    \<open>applicable\<close> and \<open>change_algebra\<close>).
  \<^item> \<open>Massa_Slot\<close>, \<open>Massa_Timeslots\<close>, \<open>Massa_Amount\<close>: \<^verbatim>\<open>slot.rs\<close>, \<^verbatim>\<open>timeslots.rs\<close>,
    \<^verbatim>\<open>massa-time\<close>, \<^verbatim>\<open>amount.rs\<close>.  The arithmetic is exact with respect to the global slot number, on every
    branch, overflow included.
  \<^item> \<open>Massa_Serialization\<close>, \<open>Massa_Codecs\<close>, \<open>Massa_Async_Msg\<close>: the binary format.  The locales
    \<open>codec\<close> and \<open>canonical_codec\<close> are the contract of a serializer and its deserializer; every format is
    shown to satisfy it.
  \<^item> \<open>Massa_Ledger_Changes\<close>, \<open>Massa_PoS_Changes\<close>: \<^verbatim>\<open>ledger_changes.rs\<close>, \<^verbatim>\<open>ledger_entry.rs\<close> and the
    change sets of \<^verbatim>\<open>massa-pos-exports\<close>.  Merging change sets composes their effects, and the readers of a
    change set read the ledger with the changes applied.
  \<^item> \<open>Massa_DB\<close>: \<^verbatim>\<open>massa-db-worker/src/massa_db.rs\<close>.  The stored hash is the hash of the content after
    every write.
  \<^item> \<open>Massa_Bootstrap_Stream\<close>: the loops of \<^verbatim>\<open>massa-bootstrap\<close> that transfer the final state, composed with
    the database.  The exchange ends and the client has the state of the server.
  \<^item> \<open>Massa_Executed\<close>: \<^verbatim>\<open>massa-executed-ops\<close>.  Nothing executed is forgotten while it can be replayed.
  \<^item> \<open>Massa_Rows\<close>, \<open>Massa_Async_Pool\<close>: \<^verbatim>\<open>massa-async-pool\<close>, one database row per message field; the cache
    recomputed from the rows is the cache in memory.
  \<^item> \<open>Massa_Deferred_Calls\<close>, \<open>Massa_Deferred_Registry\<close>: \<^verbatim>\<open>massa-deferred-calls\<close>, calls booked for a
    future slot.  The rows of the database, read back, are the abstract state \<open>registry_view\<close> with the
    changes applied; the validity check accepts the rows and panics exactly on truncated keys.
  \<^item> \<open>Massa_Active_History\<close>: \<^verbatim>\<open>active_history.rs\<close>, the changes of the executed slots that are not final.
    Reading through them gives the state with all of them applied.
  \<^item> \<open>Massa_Speculative_Ledger\<close>: \<^verbatim>\<open>speculative_ledger.rs\<close>, the ledger that an execution reads and
    writes.  Each operation refines one on a plain ledger (\<open>refines\<close>, \<open>ab_*\<close>), and every sequence of
    them (\<open>sl_step\<close>) conserves the coins held in balances and locked in storage.
  \<^item> \<open>Massa_Mip_State\<close>, \<open>Massa_Mip_Store\<close>: \<^verbatim>\<open>massa-versioning/src/versioning.rs\<close>, the deployment of
    network upgrades by votes.  The consistency check accepts exactly the reachable states (\<open>mip_reachable\<close>,
    \<open>mip_shape\<close>), the vote counters count the window, nodes whose finality lags give the same answers, and
    merges and shutdown updates keep the store consistent.
  \<^item> \<open>Massa_Cliques\<close>: \<^verbatim>\<open>massa-consensus-worker/src/state/clique_computation.rs\<close>, the search for the maximal cliques.
    It ends and lists each of them once.
  \<^item> \<open>Massa_Blocks_State\<close>, \<open>Massa_Block_Graph\<close>: \<^verbatim>\<open>blocks_state.rs\<close>, \<^verbatim>\<open>graph.rs\<close> and
    \<open>add_block_to_graph\<close> of \<^verbatim>\<open>process.rs\<close>: the status of every block, and adding a block to the graph.
  \<^item> \<open>Massa_Graph_Safety\<close>: the invariant \<open>graph_inv\<close> of the consensus state.  Adding a block to the graph
    always succeeds, keeps it, never reverts finality, and makes final every block that meets the criterion.
    The theorems assume, where the cliques are extended, that one of them is compatible with the block
    (\<open>extension_misses_dropped_clique\<close> shows the situation they exclude).
  \<^item> \<open>Massa_Header_Check\<close>: \<open>check_header\<close> of \<^verbatim>\<open>verifications.rs\<close>.  For the headers it accepts, extending the
    cliques instead of computing them again gives the same cliques.

  \<^bold>\<open>Not modelled.\<close>  Threads, locks, channels and timers; sockets and the peer-to-peer protocol; the
  WebAssembly runtime and its host interface; cryptography; string forms and calendar formatting;
  configuration and metrics.  They are I/O, third-party code, or carry no state of their own.  Of the consensus
  worker, the queues in front of the graph (\<^verbatim>\<open>rec_process\<close>, \<^verbatim>\<open>block_db_changed\<close>, \<^verbatim>\<open>tick.rs\<close>), pruning and the
  queries for the API; and the pools of candidate operations and endorsements, whose order is a
  floating-point score.
\<close>

end
